(* ===== verification/Prelude.thy ===== *)
theory Prelude
  imports Main "HOL-Library.Word"
begin

section \<open>Prelude: outcomes of C code, node memory, linked chains\<close>

text \<open>
  What every component of the development shares:
  \<^item> the outcome of a C function: a value, or the reason there is none (undefined
    behaviour, a loop that does not end or a call that blocks for ever, process exit);
  \<^item> the memory of one node type: \<open>calloc\<close>, \<open>free\<close>, and the reads and writes
    of \<open>prev\<close> and \<open>next\<close>, with NULL and freed nodes as faults;
  \<^item> the chain predicate that reads a linked list off the memory, and the loops over a
    chain that the queues of \<^verbatim>\<open>task.c\<close> and \<^verbatim>\<open>workev.c\<close> repeat.
  The memory is block based: an address is never handed out twice, so an access to a
  freed node is always visible as a fault.
\<close>

subsection \<open>Outcomes\<close>

datatype fault =
    Null_Deref        \<comment> \<open>a NULL pointer is read, written or called\<close>
  | Invalid_Access    \<comment> \<open>a freed node, an index or a read outside its object\<close>
  | Buffer_Overflow   \<comment> \<open>a write past the end of an array\<close>
  | Div_By_Zero

datatype stop =
    UB fault          \<comment> \<open>undefined behaviour\<close>
  | Hang              \<comment> \<open>a loop that never ends, or a call that never returns\<close>
  | Exit int          \<comment> \<open>exit (n)\<close>
  | Throw string      \<comment> \<open>a C++ exception, with the name of its class\<close>

type_synonym 'a res = "stop + 'a"

fun bindE :: "'a res \<Rightarrow> ('a \<Rightarrow> 'b res) \<Rightarrow> 'b res" where
  "bindE (Inl e) f = Inl e"
| "bindE (Inr x) f = f x"

text \<open>What it means for a sequence of statements to end with a value.\<close>

named_theorems outcome_iffs "a sequence of statements ends with a value"

lemma bindE_Inr_iff [outcome_iffs]: "bindE r f = Inr y \<longleftrightarrow> (\<exists>x. r = Inr x \<and> f x = Inr y)"
  by (cases r) auto

lemma Inr_bindE_iff [outcome_iffs]: "Inr y = bindE r f \<longleftrightarrow> (\<exists>x. r = Inr x \<and> f x = Inr y)"
  by (cases r) auto

lemma bindE_Inl_iff: "bindE r f = Inl e \<longleftrightarrow> r = Inl e \<or> (\<exists>x. r = Inr x \<and> f x = Inl e)"
  by (cases r) auto

lemma Inl_bindE_iff: "Inl e = bindE r f \<longleftrightarrow> r = Inl e \<or> (\<exists>x. r = Inr x \<and> f x = Inl e)"
  by (cases r) auto

lemma bindE_assoc [simp]: "bindE (bindE r f) g = bindE r (\<lambda>x. bindE (f x) g)"
  by (cases r) auto

lemma res_case_iff:
  "(case r of Inl e \<Rightarrow> False | Inr x \<Rightarrow> P x) \<longleftrightarrow> (\<exists>x. r = Inr x \<and> P x)"
  "(case r of Inl e \<Rightarrow> Q e | Inr x \<Rightarrow> False) \<longleftrightarrow> (\<exists>e. r = Inl e \<and> Q e)"
  by (cases r; simp)+

lemma bindE_cong [fundef_cong]:
  "r = r' \<Longrightarrow> (\<And>x. r' = Inr x \<Longrightarrow> f x = g x) \<Longrightarrow> bindE r f = bindE r' g"
  by (cases r) auto

subsection \<open>The memory of one node type\<close>

type_synonym addr = nat

text \<open>
  A list node is its payload with its two links. Address 0 is NULL.
\<close>

record 'a cell =
  c_val :: 'a
  c_prev :: addr
  c_next :: addr

record 'a mem =
  cells :: "addr \<Rightarrow> 'a cell option"
  brk :: addr           \<comment> \<open>the next block: addresses are never reused\<close>

definition mem_empty :: "'a mem" where
  "mem_empty = \<lparr>cells = (\<lambda>_. None), brk = 1\<rparr>"

definition load :: "'a mem \<Rightarrow> addr \<Rightarrow> 'a cell res" where
  "load m a = (if a = 0 then Inl (UB Null_Deref) else
     (case cells m a of None \<Rightarrow> Inl (UB Invalid_Access) | Some c \<Rightarrow> Inr c))"

definition modify :: "'a mem \<Rightarrow> addr \<Rightarrow> ('a cell \<Rightarrow> 'a cell) \<Rightarrow> 'a mem res" where
  "modify m a f = bindE (load m a) (\<lambda>c. Inr (m\<lparr>cells := (cells m)(a \<mapsto> f c)\<rparr>))"

definition set_next :: "'a mem \<Rightarrow> addr \<Rightarrow> addr \<Rightarrow> 'a mem res" where
  "set_next m a x = modify m a (\<lambda>c. c\<lparr>c_next := x\<rparr>)"

definition set_prev :: "'a mem \<Rightarrow> addr \<Rightarrow> addr \<Rightarrow> 'a mem res" where
  "set_prev m a x = modify m a (\<lambda>c. c\<lparr>c_prev := x\<rparr>)"

definition set_val :: "'a mem \<Rightarrow> addr \<Rightarrow> 'a \<Rightarrow> 'a mem res" where
  "set_val m a v = modify m a (\<lambda>c. c\<lparr>c_val := v\<rparr>)"

definition calloc_cell :: "'a \<Rightarrow> 'a mem \<Rightarrow> addr \<times> 'a mem" where
  "calloc_cell v m =
     (brk m, m\<lparr>cells := (cells m)(brk m \<mapsto> \<lparr>c_val = v, c_prev = 0, c_next = 0\<rparr>),
               brk := Suc (brk m)\<rparr>)"

definition free_cell :: "'a mem \<Rightarrow> addr \<Rightarrow> 'a mem res" where
  "free_cell m a = bindE (load m a) (\<lambda>_. Inr (m\<lparr>cells := (cells m)(a := None)\<rparr>))"

definition mem_ok :: "'a mem \<Rightarrow> bool" where
  "mem_ok m \<longleftrightarrow> 0 < brk m \<and> (\<forall>a. cells m a \<noteq> None \<longrightarrow> 0 < a \<and> a < brk m)"

lemma load_Some [simp]: "a \<noteq> 0 \<Longrightarrow> cells m a = Some c \<Longrightarrow> load m a = Inr c"
  by (simp add: load_def)

lemma load_None [simp]: "a \<noteq> 0 \<Longrightarrow> cells m a = None \<Longrightarrow> load m a = Inl (UB Invalid_Access)"
  by (simp add: load_def)

lemma load_null [simp]: "load m 0 = Inl (UB Null_Deref)"
  by (simp add: load_def)

lemma mem_ok_empty [simp]: "mem_ok mem_empty"
  by (simp add: mem_ok_def mem_empty_def)

lemma mem_ok_upd:
  "mem_ok m \<Longrightarrow> cells m a = Some c \<Longrightarrow> mem_ok (m\<lparr>cells := (cells m)(a \<mapsto> d)\<rparr>)"
  unfolding mem_ok_def by auto

lemma mem_ok_brk [simp]: "mem_ok m \<Longrightarrow> cells m (brk m) = None"
  unfolding mem_ok_def by (cases "cells m (brk m)") auto

lemma mem_okD: "mem_ok m \<Longrightarrow> cells m a = Some c \<Longrightarrow> 0 < a \<and> a < brk m"
  unfolding mem_ok_def by auto

lemma mem_ok_calloc: "mem_ok m \<Longrightarrow> mem_ok (snd (calloc_cell v m))"
  unfolding mem_ok_def calloc_cell_def by (auto simp: less_Suc_eq)

lemma mem_ok_del: "mem_ok m \<Longrightarrow> mem_ok (m\<lparr>cells := (cells m)(a := None)\<rparr>)"
  unfolding mem_ok_def by auto

subsection \<open>Chains\<close>

text \<open>
  \<open>seg d m q p xs r\<close>: following \<open>next\<close> from \<open>p\<close> reads the addresses and payloads
  \<open>xs\<close> and arrives at \<open>r\<close>; with \<open>d\<close> also every \<open>prev\<close> is right, \<open>q\<close> being the
  \<open>prev\<close> of the first node. \<open>chain d m p xs\<close> is a whole list from a head pointer.
  \<open>d = True\<close> is a doubly linked list, \<open>d = False\<close> one whose \<open>prev\<close> fields are not
  relied on.
\<close>

fun seg :: "bool \<Rightarrow> 'a mem \<Rightarrow> addr \<Rightarrow> addr \<Rightarrow> (addr \<times> 'a) list \<Rightarrow> addr \<Rightarrow> bool" where
  "seg d m q p [] r \<longleftrightarrow> p = r"
| "seg d m q p ((a, v) # xs) r \<longleftrightarrow> p = a \<and> a \<noteq> 0 \<and>
     (case cells m a of None \<Rightarrow> False
      | Some c \<Rightarrow> c_val c = v \<and> (d \<longrightarrow> c_prev c = q) \<and> seg d m a (c_next c) xs r)"

definition chain :: "bool \<Rightarrow> 'a mem \<Rightarrow> addr \<Rightarrow> (addr \<times> 'a) list \<Rightarrow> bool" where
  "chain d m p xs = seg d m 0 p xs 0"

fun lastp :: "addr \<Rightarrow> (addr \<times> 'a) list \<Rightarrow> addr" where
  "lastp q [] = q"
| "lastp q ((a, v) # xs) = lastp a xs"

lemma seg_Cons_iff:
  "seg d m q p ((a, v) # xs) r \<longleftrightarrow> p = a \<and> a \<noteq> 0 \<and>
     (\<exists>c. cells m a = Some c \<and> c_val c = v \<and> (d \<longrightarrow> c_prev c = q) \<and> seg d m a (c_next c) xs r)"
  by (auto split: option.splits)

declare seg.simps(2) [simp del]

lemma lastp_append [simp]: "lastp q (xs @ ys) = lastp (lastp q xs) ys"
  by (induction q xs rule: lastp.induct) auto

lemma lastp_in: "xs \<noteq> [] \<Longrightarrow> lastp q xs \<in> fst ` set xs"
  by (induction q xs rule: lastp.induct) (case_tac xs; force)+

lemma seg_append:
  "seg d m q p (xs @ ys) r \<longleftrightarrow> (\<exists>p'. seg d m q p xs p' \<and> seg d m (lastp q xs) p' ys r)"
proof (induction xs arbitrary: q p)
  case Nil
  then show ?case by simp
next
  case (Cons x xs)
  then show ?case by (cases x) (auto simp: seg_Cons_iff; blast)
qed

lemma seg_cong:
  "(\<And>a. a \<in> fst ` set xs \<Longrightarrow> cells m' a = cells m a) \<Longrightarrow>
   seg d m' q p xs r = seg d m q p xs r"
  by (induction xs arbitrary: q p) (auto simp: seg_Cons_iff)

lemma seg_other [simp]:
  "b \<notin> fst ` set xs \<Longrightarrow> seg d (m\<lparr>cells := (cells m)(b := y)\<rparr>) q p xs r = seg d m q p xs r"
  by (rule seg_cong) auto

lemma seg_brk [simp]: "seg d (m\<lparr>brk := n\<rparr>) q p xs r = seg d m q p xs r"
  by (rule seg_cong) auto

lemma seg_weaken: "seg d m q p xs r \<Longrightarrow> seg False m q p xs r"
  by (induction xs arbitrary: q p) (auto simp: seg_Cons_iff)

lemma seg_cells: "seg d m q p xs r \<Longrightarrow> a \<in> fst ` set xs \<Longrightarrow> a \<noteq> 0 \<and> (\<exists>c. cells m a = Some c)"
proof (induction xs arbitrary: q p)
  case Nil
  then show ?case by simp
next
  case (Cons x xs)
  obtain b v where x: "x = (b, v)" by force
  with Cons.prems(1) obtain c where c: "b \<noteq> 0" "cells m b = Some c" "seg d m b (c_next c) xs r"
    by (auto simp: seg_Cons_iff)
  then show ?case using Cons.IH [OF c(3)] Cons.prems(2) x by (cases "a = b") auto
qed

lemma seg_null [simp]: "seg d m q 0 xs 0 \<longleftrightarrow> xs = []"
  by (cases xs) (auto simp: seg_Cons_iff)

lemma seg_unique:
  "seg d m q p xs 0 \<Longrightarrow> seg d' m q' p ys 0 \<Longrightarrow> xs = ys"
proof (induction xs arbitrary: p q q' ys)
  case Nil
  then show ?case by simp
next
  case (Cons x xs)
  obtain a v where x: "x = (a, v)" by force
  with Cons.prems(1) obtain c where c: "p = a" "a \<noteq> 0" "cells m a = Some c" "c_val c = v"
    "seg d m a (c_next c) xs 0"
    by (auto simp: seg_Cons_iff)
  with Cons.prems(2) obtain ys' where "ys = (a, v) # ys'" "seg d' m a (c_next c) ys' 0"
    by (cases ys) (auto simp: seg_Cons_iff)
  with Cons.IH c(5) x show ?case by blast
qed

lemma seg_distinct: "seg d m q p xs 0 \<Longrightarrow> distinct (map fst xs)"
proof (induction xs arbitrary: q p)
  case Nil
  then show ?case by simp
next
  case (Cons x xs)
  obtain a v where x: "x = (a, v)" by force
  with Cons.prems obtain c where c: "cells m a = Some c" "seg d m a (c_next c) xs 0"
    by (auto simp: seg_Cons_iff)
  have "a \<notin> fst ` set xs"
  proof
    assume "a \<in> fst ` set xs"
    then obtain w where "(a, w) \<in> set xs" by force
    then obtain ys zs where xs: "xs = ys @ (a, w) # zs"
      by (meson split_list)
    with c have "seg d m (lastp a ys) a ((a, w) # zs) 0"
      by (auto simp: seg_append seg_Cons_iff)
    moreover have "seg d m q a ((a, v) # xs) 0"
      using Cons.prems x by (auto simp: seg_Cons_iff)
    ultimately have "(a, w) # zs = (a, v) # xs" by (rule seg_unique)
    then show False by (simp add: xs)
  qed
  with Cons.IH c x show ?case by simp
qed

lemma chain_Nil [simp]: "chain d m p [] \<longleftrightarrow> p = 0"
  by (simp add: chain_def)

lemma chain_null [simp]: "chain d m 0 xs \<longleftrightarrow> xs = []"
  by (simp add: chain_def)

lemma chain_distinct: "chain d m p xs \<Longrightarrow> distinct (map fst xs)"
  by (simp add: chain_def seg_distinct)

lemma chain_unique: "chain d m p xs \<Longrightarrow> chain d' m p ys \<Longrightarrow> xs = ys"
  by (auto simp: chain_def dest: seg_unique)

lemma chain_weaken: "chain d m p xs \<Longrightarrow> chain False m p xs"
  by (auto simp: chain_def dest: seg_weaken)

lemma chain_cells: "chain d m p xs \<Longrightarrow> a \<in> fst ` set xs \<Longrightarrow> a \<noteq> 0 \<and> (\<exists>c. cells m a = Some c)"
  by (auto simp: chain_def dest: seg_cells)

text \<open>A chain is shorter than the number of blocks handed out: the fuel of every loop.\<close>

lemma chain_fuel: "chain d m p xs \<Longrightarrow> mem_ok m \<Longrightarrow> length xs < brk m"
proof -
  assume c: "chain d m p xs" and ok: "mem_ok m"
  have "fst ` set xs \<subseteq> {1..<brk m}"
    using chain_cells [OF c] mem_okD [OF ok] by fastforce
  then have "card (fst ` set xs) \<le> brk m - 1"
    by (metis card_atLeastLessThan card_mono finite_atLeastLessThan)
  moreover have "card (fst ` set xs) = length xs"
    using chain_distinct [OF c] by (metis distinct_card length_map set_map)
  moreover have "0 < brk m" using ok by (simp add: mem_ok_def)
  ultimately show ?thesis by simp
qed

subsection \<open>The loops over a chain\<close>

text \<open>
  \<open>find_cell\<close> is \<^verbatim>\<open>while (temp != NULL) { if (P) return; temp = temp->next; }\<close>,
  \<open>last_cell\<close> is \<^verbatim>\<open>while (trav->next != NULL) trav = trav->next\<close>. Each step spends
  one unit of fuel; the callers give \<open>brk m\<close> units, more than a chain has nodes, so
  running out means that the \<open>next\<close> pointers form a cycle and the loop never ends.
\<close>

fun find_cell :: "nat \<Rightarrow> 'a mem \<Rightarrow> ('a \<Rightarrow> bool) \<Rightarrow> addr \<Rightarrow> addr res" where
  "find_cell 0 m P p = (if p = 0 then Inr 0 else Inl Hang)"
| "find_cell (Suc k) m P p = (if p = 0 then Inr 0 else
     bindE (load m p) (\<lambda>c. if P (c_val c) then Inr p else find_cell k m P (c_next c)))"

fun last_cell :: "nat \<Rightarrow> 'a mem \<Rightarrow> addr \<Rightarrow> addr res" where
  "last_cell 0 m p = Inl Hang"
| "last_cell (Suc k) m p =
     bindE (load m p) (\<lambda>c. if c_next c = 0 then Inr p else last_cell k m (c_next c))"

text \<open>
  The code that puts a new node at the end, the same in \<^verbatim>\<open>add_entry_idq\<close> and
  \<^verbatim>\<open>push_to_msgq\<close>; the result is the new head and the new memory.
\<close>

definition link_last :: "'a mem \<Rightarrow> addr \<Rightarrow> addr \<Rightarrow> (addr \<times> 'a mem) res" where
  "link_last m head temp =
     (if head = 0 then bindE (set_prev m temp 0) (\<lambda>m. Inr (temp, m))
      else bindE (last_cell (brk m) m head) (\<lambda>trav.
           bindE (set_next m trav temp) (\<lambda>m.
           bindE (set_prev m temp trav) (\<lambda>m. Inr (head, m)))))"

fun addr_of :: "(addr \<times> 'a) option \<Rightarrow> addr" where
  "addr_of None = 0"
| "addr_of (Some (a, v)) = a"

lemma find_cell_seg:
  "seg d m q p xs 0 \<Longrightarrow> length xs \<le> k \<Longrightarrow>
   find_cell k m P p = Inr (addr_of (find (\<lambda>(a, v). P v) xs))"
proof (induction xs arbitrary: q p k)
  case Nil
  then show ?case by (cases k) auto
next
  case (Cons x xs)
  then show ?case by (cases x; cases k) (auto simp: seg_Cons_iff)
qed

lemma find_cell_chain:
  "chain d m p xs \<Longrightarrow> mem_ok m \<Longrightarrow>
   find_cell (brk m) m P p = Inr (addr_of (find (\<lambda>(a, v). P v) xs))"
  unfolding chain_def
  by (rule find_cell_seg) (use chain_fuel chain_def less_imp_le in blast)+

lemma last_cell_seg:
  "seg d m q p xs 0 \<Longrightarrow> xs \<noteq> [] \<Longrightarrow> length xs \<le> k \<Longrightarrow> last_cell k m p = Inr (lastp q xs)"
proof (induction xs arbitrary: q p k)
  case Nil
  then show ?case by simp
next
  case (Cons x xs)
  obtain a v where x: "x = (a, v)" by force
  from Cons.prems x obtain c j where c: "cells m a = Some c" "p = a" "a \<noteq> 0"
    "seg d m a (c_next c) xs 0" "k = Suc j" "length xs \<le> j"
    by (cases k) (auto simp: seg_Cons_iff)
  show ?case
  proof (cases xs)
    case Nil
    with c x show ?thesis by simp
  next
    case (Cons y ys)
    then have "c_next c \<noteq> 0" using c by (cases y) (auto simp: seg_Cons_iff)
    with c x Cons Cons.IH [of a "c_next c" j] show ?thesis by simp
  qed
qed

lemma last_cell_chain:
  "chain d m p xs \<Longrightarrow> mem_ok m \<Longrightarrow> xs \<noteq> [] \<Longrightarrow> last_cell (brk m) m p = Inr (lastp 0 xs)"
  unfolding chain_def
  by (rule last_cell_seg) (use chain_fuel chain_def less_imp_le in blast)+

text \<open>
  The three facts that carry the queues: a fresh node is outside every chain, appending it
  gives the longer chain, and reading a found node gives its payload.
\<close>

lemma calloc_cell_chain:
  assumes "mem_ok m" and "chain d m p xs" and "calloc_cell v m = (t, m')"
  shows "chain d m' p xs" and "mem_ok m'" and "t \<noteq> 0" and "t \<notin> fst ` set xs"
    and "cells m' t = Some \<lparr>c_val = v, c_prev = 0, c_next = 0\<rparr>" and "t = brk m"
    and "brk m' = Suc (brk m)" and "\<And>a. a \<noteq> t \<Longrightarrow> cells m' a = cells m a"
proof -
  show ok: "mem_ok m'" using mem_ok_calloc [OF assms(1), of v] assms(3) by simp
  show "t \<noteq> 0" using assms(1,3) by (auto simp: calloc_cell_def mem_ok_def)
  show t: "t \<notin> fst ` set xs"
  proof
    assume "t \<in> fst ` set xs"
    then obtain c where "cells m t = Some c" using chain_cells [OF assms(2)] by blast
    then show False using mem_ok_brk [OF assms(1)] assms(3) by (simp add: calloc_cell_def)
  qed
  show "cells m' t = Some \<lparr>c_val = v, c_prev = 0, c_next = 0\<rparr>" and "t = brk m"
    and "brk m' = Suc (brk m)" and other: "\<And>a. a \<noteq> t \<Longrightarrow> cells m' a = cells m a"
    using assms(3) by (auto simp: calloc_cell_def)
  have "\<And>a. a \<in> fst ` set xs \<Longrightarrow> cells m' a = cells m a" using t other by metis
  then show "chain d m' p xs" using assms(2) unfolding chain_def by (subst seg_cong)
qed

lemma link_last_chain:
  assumes c: "chain d m p xs" and ok: "mem_ok m" and t: "t \<notin> fst ` set xs"
    and cell: "cells m t = Some \<lparr>c_val = v, c_prev = 0, c_next = 0\<rparr>"
  shows "\<exists>h m'. link_last m p t = Inr (h, m') \<and> chain d m' h (xs @ [(t, v)]) \<and> mem_ok m' \<and>
           brk m' = brk m \<and> (\<forall>a. a \<noteq> t \<and> a \<notin> fst ` set xs \<longrightarrow> cells m' a = cells m a) \<and>
           (\<forall>a. cells m' a = None \<longleftrightarrow> cells m a = None)"
proof (cases xs rule: rev_cases)
  case Nil
  have "t \<noteq> 0" using mem_okD [OF ok cell] by simp
  with Nil c cell mem_ok_upd [OF ok cell] show ?thesis
    by (auto simp: link_last_def set_prev_def modify_def chain_def seg_Cons_iff)
next
  case (snoc ys y)
  obtain a w where y: "y = (a, w)" by force
  have t0: "t \<noteq> 0" using mem_okD [OF ok cell] by simp
  have "p \<noteq> 0" using c snoc by (cases "p = 0") auto
  from c snoc y have "xs \<noteq> []" "lastp 0 xs = a" by auto
  then have last: "last_cell (brk m) m p = Inr a" using last_cell_chain [OF c ok] by simp
  from c snoc y obtain c' where a: "a \<noteq> 0" "cells m a = Some c'" "c_val c' = w"
    "seg d m 0 p ys a" "d \<longrightarrow> c_prev c' = lastp 0 ys"
    by (auto simp: chain_def seg_append seg_Cons_iff)
  from t snoc y have ta: "t \<noteq> a" "t \<notin> fst ` set ys" by auto
  have ay: "a \<notin> fst ` set ys" using chain_distinct [OF c] snoc y by auto
  let ?m1 = "m\<lparr>cells := (cells m)(a \<mapsto> c'\<lparr>c_next := t\<rparr>)\<rparr>"
  let ?m2 = "?m1\<lparr>cells := (cells ?m1)(t \<mapsto> \<lparr>c_val = v, c_prev = a, c_next = 0\<rparr>)\<rparr>"
  have "link_last m p t = Inr (p, ?m2)"
    using \<open>p \<noteq> 0\<close> last a ta t0 cell
    by (simp add: link_last_def set_prev_def set_next_def modify_def)
  moreover have "seg d ?m2 0 p ys a = seg d m 0 p ys a"
    by (rule seg_cong) (use ay ta in auto)
  then have "chain d ?m2 p (xs @ [(t, v)])"
    using a ta t0 snoc y by (simp add: chain_def seg_append seg_Cons_iff)
  moreover have "mem_ok ?m2"
  proof (rule mem_ok_upd [OF mem_ok_upd [OF ok a(2)]])
    show "cells ?m1 t = Some \<lparr>c_val = v, c_prev = 0, c_next = 0\<rparr>" using cell ta by simp
  qed
  ultimately show ?thesis using a cell snoc y by auto
qed

subsection \<open>Queues\<close>

text \<open>
  A queue argument of the C code, \<^verbatim>\<open>t **head\<close>, is the head pointer with the memory
  of its nodes. \<open>queue_rep d q vs\<close>: the queue holds the payloads \<open>vs\<close>, in order.
\<close>

record 'a lqueue =
  qhead :: addr
  qmem :: "'a mem"

definition queue_empty :: "'a lqueue" where
  "queue_empty = \<lparr>qhead = 0, qmem = mem_empty\<rparr>"

definition queue_rep :: "bool \<Rightarrow> 'a lqueue \<Rightarrow> 'a list \<Rightarrow> bool" where
  "queue_rep d q vs \<longleftrightarrow> mem_ok (qmem q) \<and> (\<exists>xs. chain d (qmem q) (qhead q) xs \<and> map snd xs = vs)"

lemma queue_rep_empty [simp]: "queue_rep d queue_empty []"
  by (simp add: queue_rep_def queue_empty_def)

lemma queue_rep_unique: "queue_rep d q vs \<Longrightarrow> queue_rep d' q ws \<Longrightarrow> vs = ws"
  unfolding queue_rep_def using chain_unique by blast

lemma queue_rep_weaken: "queue_rep d q vs \<Longrightarrow> queue_rep False q vs"
  unfolding queue_rep_def using chain_weaken by blast

lemma queue_rep_null: "queue_rep d q vs \<Longrightarrow> qhead q = 0 \<longleftrightarrow> vs = []"
  unfolding queue_rep_def by (metis chain_Nil chain_null map_is_Nil_conv)

text \<open>The first match in a list, changed or removed: what the loops do to the contents.\<close>

fun upd_first :: "('a \<Rightarrow> bool) \<Rightarrow> ('a \<Rightarrow> 'a) \<Rightarrow> 'a list \<Rightarrow> 'a list" where
  "upd_first P f [] = []"
| "upd_first P f (x # xs) = (if P x then f x # xs else x # upd_first P f xs)"

fun rem_first :: "('a \<Rightarrow> bool) \<Rightarrow> 'a list \<Rightarrow> 'a list" where
  "rem_first P [] = []"
| "rem_first P (x # xs) = (if P x then xs else x # rem_first P xs)"

lemma upd_first_split:
  "\<forall>y \<in> set ys. \<not> P y \<Longrightarrow> P x \<Longrightarrow> upd_first P f (ys @ x # zs) = ys @ f x # zs"
  by (induction ys) auto

lemma rem_first_split:
  "\<forall>y \<in> set ys. \<not> P y \<Longrightarrow> P x \<Longrightarrow> rem_first P (ys @ x # zs) = ys @ zs"
  by (induction ys) auto

lemma rem_first_none: "\<forall>y \<in> set ys. \<not> P y \<Longrightarrow> rem_first P ys = ys"
  by (induction ys) auto

lemma find_split:
  "find P xs = Some x \<Longrightarrow> \<exists>ys zs. xs = ys @ x # zs \<and> P x \<and> (\<forall>y \<in> set ys. \<not> P y)"
proof (induction xs)
  case Nil
  then show ?case by simp
next
  case (Cons y xs)
  show ?case
  proof (cases "P y")
    case True
    with Cons.prems show ?thesis by force
  next
    case False
    with Cons obtain ys zs where "xs = ys @ x # zs" "P x" "\<forall>y \<in> set ys. \<not> P y" by auto
    then have "y # xs = (y # ys) @ x # zs" by simp
    with False \<open>P x\<close> \<open>\<forall>y \<in> set ys. \<not> P y\<close> show ?thesis by (metis set_ConsD)
  qed
qed

lemma find_skip: "\<forall>y \<in> set ys. \<not> P y \<Longrightarrow> find P (ys @ zs) = find P zs"
  by (induction ys) auto

text \<open>
  Finding the first node whose payload satisfies \<open>P\<close>, seen from the contents: it is
  absent, or the chain splits at it.
\<close>

lemma find_cell_queue:
  assumes "queue_rep d q vs"
  shows "find P vs = None \<Longrightarrow> find_cell (brk (qmem q)) (qmem q) P (qhead q) = Inr 0"
    and "find P vs = Some v \<Longrightarrow> \<exists>a ys zs c. find_cell (brk (qmem q)) (qmem q) P (qhead q) = Inr a \<and>
           chain d (qmem q) (qhead q) (ys @ (a, v) # zs) \<and> vs = map snd ys @ v # map snd zs \<and>
           a \<noteq> 0 \<and> cells (qmem q) a = Some c \<and> c_val c = v \<and> P v \<and> (\<forall>w \<in> snd ` set ys. \<not> P w)"
proof -
  from assms obtain xs where xs: "chain d (qmem q) (qhead q) xs" "map snd xs = vs" "mem_ok (qmem q)"
    by (auto simp: queue_rep_def)
  note f = find_cell_chain [OF xs(1,3), of P]
  {
    assume "find P vs = None"
    then have "find (\<lambda>(a, v). P v) xs = None"
      using xs(2) by (force simp: find_None_iff)
    then show "find_cell (brk (qmem q)) (qmem q) P (qhead q) = Inr 0" using f by simp
  next
    assume v: "find P vs = Some v"
    then have "P v" "v \<in> set vs" by (auto dest: find_split)
    then obtain b where "(b, v) \<in> set xs" "P v" using xs(2) by force
    then have "find (\<lambda>(a, v). P v) xs \<noteq> None" by (auto simp: find_None_iff)
    then obtain a w where aw: "find (\<lambda>(a, v). P v) xs = Some (a, w)" by auto
    from find_split [OF this] obtain ys zs where
      ys: "xs = ys @ (a, w) # zs" "P w" "\<forall>y \<in> set ys. \<not> (case y of (a, v) \<Rightarrow> P v)" by auto
    from ys(3) have ny: "\<forall>u \<in> snd ` set ys. \<not> P u" by force
    then have "find P vs = Some w" using xs(2) ys(1,2) by (auto simp: find_skip)
    with v have w: "w = v" by simp
    from xs(1) ys(1) obtain c where "cells (qmem q) a = Some c" "c_val c = w" "a \<noteq> 0"
      by (auto simp: chain_def seg_append seg_Cons_iff)
    then show "\<exists>a ys zs c. find_cell (brk (qmem q)) (qmem q) P (qhead q) = Inr a \<and>
           chain d (qmem q) (qhead q) (ys @ (a, v) # zs) \<and> vs = map snd ys @ v # map snd zs \<and>
           a \<noteq> 0 \<and> cells (qmem q) a = Some c \<and> c_val c = v \<and> P v \<and> (\<forall>w \<in> snd ` set ys. \<not> P w)"
      using f aw ys xs ny w
      by (intro exI [of _ a] exI [of _ ys] exI [of _ zs] exI [of _ c]) auto
  }
qed

lemma set_val_chain:
  assumes "chain d m p (ys @ (a, v) # zs)" and "mem_ok m"
  shows "\<exists>m'. set_val m a w = Inr m' \<and> chain d m' p (ys @ (a, w) # zs) \<and> mem_ok m' \<and> brk m' = brk m"
proof -
  from assms(1) obtain c where c: "cells m a = Some c" "a \<noteq> 0" "c_val c = v" "seg d m 0 p ys a"
    "d \<longrightarrow> c_prev c = lastp 0 ys" "seg d m a (c_next c) zs 0"
    by (auto simp: chain_def seg_append seg_Cons_iff)
  have "a \<notin> fst ` set ys" "a \<notin> fst ` set zs" using chain_distinct [OF assms(1)] by auto
  with c mem_ok_upd [OF assms(2) c(1)] show ?thesis
    by (auto simp: set_val_def modify_def chain_def seg_append seg_Cons_iff)
qed

text \<open>Freeing a node outside the queue.\<close>

lemma queue_rep_free:
  assumes "chain d (qmem q) (qhead q) xs" "mem_ok (qmem q)" "a \<notin> fst ` set xs"
    and "a \<noteq> 0" "cells (qmem q) a = Some c"
  shows "\<exists>m. free_cell (qmem q) a = Inr m \<and> queue_rep d (q\<lparr>qmem := m\<rparr>) (map snd xs)"
proof -
  have "chain d ((qmem q)\<lparr>cells := (cells (qmem q))(a := None)\<rparr>) (qhead q) xs"
    using assms(1,3) by (simp add: chain_def)
  with mem_ok_del [OF assms(2), of a] assms(4,5) show ?thesis
    unfolding queue_rep_def free_cell_def by auto
qed

text \<open>A queue with given contents, laid out in consecutive blocks: the concrete inputs.\<close>

definition mk_queue :: "'a list \<Rightarrow> 'a lqueue" where
  "mk_queue vs = \<lparr>qhead = (if vs = [] then 0 else 1),
     qmem = \<lparr>cells = (\<lambda>a. if 1 \<le> a \<and> a \<le> length vs
                    then Some \<lparr>c_val = vs ! (a - 1), c_prev = a - 1,
                               c_next = (if a = length vs then 0 else Suc a)\<rparr>
                    else None),
             brk = Suc (length vs)\<rparr>\<rparr>"

lemma mk_queue_seg:
  "k \<le> length vs \<Longrightarrow>
   seg d (qmem (mk_queue vs)) k (if k = length vs then 0 else Suc k)
     (zip [Suc k..<Suc (length vs)] (drop k vs)) 0"
proof (induction "length vs - k" arbitrary: k)
  case 0
  then show ?case by simp
next
  case (Suc n)
  then have k: "k < length vs" by simp
  then have "zip [Suc k..<Suc (length vs)] (drop k vs) =
      (Suc k, vs ! k) # zip [Suc (Suc k)..<Suc (length vs)] (drop (Suc k) vs)"
    by (simp add: upt_conv_Cons Cons_nth_drop_Suc [symmetric] del: upt_Suc)
  moreover have "seg d (qmem (mk_queue vs)) (Suc k) (if Suc k = length vs then 0 else Suc (Suc k))
      (zip [Suc (Suc k)..<Suc (length vs)] (drop (Suc k) vs)) 0"
    using Suc k by (intro Suc.hyps(1)) auto
  ultimately show ?case
    using k by (simp add: seg_Cons_iff mk_queue_def)
qed

lemma queue_rep_mk [simp]: "queue_rep d (mk_queue vs) vs"
proof -
  let ?xs = "zip [1..<Suc (length vs)] vs"
  have "chain d (qmem (mk_queue vs)) (qhead (mk_queue vs)) ?xs"
    using mk_queue_seg [of 0 vs d] by (cases vs) (auto simp: chain_def mk_queue_def)
  moreover have "map snd ?xs = vs" by (rule map_snd_zip) (simp del: upt_Suc)
  moreover have "mem_ok (qmem (mk_queue vs))" by (auto simp: mem_ok_def mk_queue_def)
  ultimately show ?thesis unfolding queue_rep_def by blast
qed

subsection \<open>Sums over a list with one element replaced\<close>

lemma sum_list_update_eq:
  "i < length ws \<Longrightarrow> (\<Sum>w \<leftarrow> ws[i := v]. f w) + f (ws ! i) = (\<Sum>w \<leftarrow> ws. f w) + (f v :: nat)"
proof (induction ws arbitrary: i)
  case (Cons w ws)
  then show ?case by (cases i) auto
qed simp

lemma sum_update_less:
  "j < length ts \<Longrightarrow> f x < (f (ts ! j) :: nat) \<Longrightarrow> (\<Sum>t \<leftarrow> ts[j := x]. f t) < (\<Sum>t \<leftarrow> ts. f t)"
  using sum_list_update_eq [of j ts f x] by linarith

end
