(* ===== verification/CString.thy ===== *)
theory CString
  imports Prelude "HOL-Library.Sublist"
begin

section \<open>The C string functions the sources call\<close>

text \<open>
  A C string is modelled by its bytes without the terminating NUL; a character array by all
  its bytes. Reading one position past such a list therefore yields the NUL. Modelled are
  the functions of the C library the sources use on strings: \<open>strlen\<close> and \<open>strcpy\<close>
  into an array of known size, \<open>strncmp\<close>, \<open>strstr\<close>, \<open>strtok_r\<close>, \<open>isdigit\<close>,
  \<open>atoi\<close> (a \<open>long\<close> conversion that saturates at 64 bits, cut to 32 bits) and
  \<open>sprintf\<close> with \<^verbatim>\<open>%d\<close> and \<^verbatim>\<open>%04d\<close>.
\<close>

subsection \<open>Arrays and strings\<close>

abbreviation NUL :: char where "NUL \<equiv> CHR 0x00"

text \<open>The C string that starts at the beginning of an array; an array without NUL is over-read.\<close>

definition c_str :: "string \<Rightarrow> string res" where
  "c_str a = (if NUL \<in> set a then Inr (takeWhile (\<lambda>c. c \<noteq> NUL) a) else Inl (UB Invalid_Access))"

text \<open>Bytes followed by a NUL the code has put there with \<open>calloc\<close>.\<close>

definition cut_nul :: "string \<Rightarrow> string" where
  "cut_nul bs = takeWhile (\<lambda>c. c \<noteq> NUL) bs"

text \<open>Writing a string and its NUL into an array of \<open>n\<close> bytes (\<open>strcpy\<close>, \<open>sprintf\<close>).\<close>

definition store_str :: "nat \<Rightarrow> string \<Rightarrow> string res" where
  "store_str n s = (if length s < n then Inr s else Inl (UB Buffer_Overflow))"

lemma cut_nul_id: "NUL \<notin> set s \<Longrightarrow> cut_nul s = s"
  unfolding cut_nul_def by (rule takeWhile_eq_all_conv [THEN iffD2]) auto

lemma cut_nul_no_nul [simp]: "NUL \<notin> set (cut_nul s)"
  unfolding cut_nul_def by (metis (mono_tags, lifting) set_takeWhileD)

lemma length_cut_nul: "length (cut_nul s) \<le> length s"
  unfolding cut_nul_def by (rule length_takeWhile_le)

lemma c_str_append: "NUL \<notin> set s \<Longrightarrow> c_str (s @ NUL # r) = Inr s"
  unfolding c_str_def by (subst takeWhile_append2) auto

subsection \<open>Comparison and search\<close>

fun strncmp :: "string \<Rightarrow> string \<Rightarrow> nat \<Rightarrow> int" where
  "strncmp s t 0 = 0"
| "strncmp s t (Suc n) =
     (let a = (case s of [] \<Rightarrow> NUL | c # _ \<Rightarrow> c); b = (case t of [] \<Rightarrow> NUL | c # _ \<Rightarrow> c) in
      if a \<noteq> b then int (of_char a) - int (of_char b)
      else if a = NUL then 0 else strncmp (tl s) (tl t) n)"

lemma of_char_diff_0: "int (of_char a) - int (of_char b) = 0 \<longleftrightarrow> a = b"
proof -
  have "int (of_char a) - int (of_char b) = 0 \<longleftrightarrow> (of_char a :: nat) = of_char b" by linarith
  then show ?thesis by simp
qed

lemma of_char_pos: "c \<noteq> NUL \<Longrightarrow> 0 < (of_char c :: nat)"
proof (rule ccontr)
  assume "c \<noteq> NUL" and "\<not> 0 < (of_char c :: nat)"
  then have "(of_char c :: nat) = of_char NUL" by simp
  with \<open>c \<noteq> NUL\<close> show False by (simp only: of_char_eq_iff)
qed

lemma strncmp_prefix: "NUL \<notin> set key \<Longrightarrow> strncmp s key (length key) = 0 \<longleftrightarrow> prefix key s"
proof (induction key arbitrary: s)
  case Nil
  then show ?case by simp
next
  case (Cons k key)
  then show ?case using of_char_pos [of k] by (cases s) (auto simp: Let_def of_char_diff_0)
qed

fun strstr :: "string \<Rightarrow> string \<Rightarrow> string option" where
  "strstr [] t = (if t = [] then Some [] else None)"
| "strstr (c # s) t = (if prefix t (c # s) then Some (c # s) else strstr s t)"

lemma strstr_sublist: "strstr s t \<noteq> None \<longleftrightarrow> sublist t s"
  by (induction s) (auto simp: sublist_Cons_right)

subsection \<open>Tokens\<close>

text \<open>
  \<open>strtok_r\<close>: leading delimiters are skipped; no byte left is NULL; otherwise the token up
  to the next delimiter, and the bytes after that delimiter are kept for the next call.
\<close>

definition strtok_r :: "string \<Rightarrow> string \<Rightarrow> string option \<times> string" where
  "strtok_r s delims =
     (let s' = dropWhile (\<lambda>c. c \<in> set delims) s in
      if s' = [] then (None, [])
      else (Some (takeWhile (\<lambda>c. c \<notin> set delims) s'),
            drop 1 (dropWhile (\<lambda>c. c \<notin> set delims) s')))"

lemma strtok_r_shorter:
  "strtok_r s delims = (Some t, r) \<Longrightarrow> length r < length s"
proof -
  assume a: "strtok_r s delims = (Some t, r)"
  let ?s' = "dropWhile (\<lambda>c. c \<in> set delims) s"
  let ?u = "dropWhile (\<lambda>c. c \<notin> set delims) ?s'"
  have ne: "?s' \<noteq> []" using a unfolding strtok_r_def Let_def by (metis prod.inject option.discI)
  with a have r: "r = drop 1 ?u" unfolding strtok_r_def Let_def by (metis prod.inject)
  have 1: "length ?u \<le> length ?s'" "length ?s' \<le> length s"
    by (rule length_dropWhile_le)+
  have "0 < length ?s'" using ne by simp
  moreover have "length r = length ?u - 1" unfolding r by (rule length_drop)
  ultimately show ?thesis using 1 by linarith
qed

lemma strtok_r_token:
  "strtok_r s delims = (Some t, r) \<Longrightarrow> t \<noteq> [] \<and> set t \<inter> set delims = {}"
proof -
  assume a: "strtok_r s delims = (Some t, r)"
  let ?s' = "dropWhile (\<lambda>c. c \<in> set delims) s"
  have ne: "?s' \<noteq> []" using a unfolding strtok_r_def Let_def by (metis prod.inject option.discI)
  with a have t: "t = takeWhile (\<lambda>c. c \<notin> set delims) ?s'"
    unfolding strtok_r_def Let_def by (metis prod.inject option.inject)
  have "hd ?s' \<notin> set delims" using hd_dropWhile [OF ne] by simp
  then have "t \<noteq> []" using ne t by (cases ?s') auto
  moreover have "set t \<inter> set delims = {}" unfolding t by (auto dest: set_takeWhileD)
  ultimately show ?thesis by simp
qed

lemma strtok_r_simple:
  "t \<noteq> [] \<Longrightarrow> set t \<inter> set delims = {} \<Longrightarrow> d \<in> set delims \<Longrightarrow>
   strtok_r (t @ d # r) delims = (Some t, r)"
  "t \<noteq> [] \<Longrightarrow> set t \<inter> set delims = {} \<Longrightarrow> strtok_r t delims = (Some t, [])"
proof -
  assume t: "t \<noteq> []" "set t \<inter> set delims = {}"
  then obtain c u where c: "t = c # u" "c \<notin> set delims" by (cases t) auto
  have all: "\<forall>x \<in> set t. x \<notin> set delims" using t by auto
  show "strtok_r t delims = (Some t, [])"
    using c all by (simp add: strtok_r_def Let_def takeWhile_eq_all_conv [THEN iffD2]
        dropWhile_eq_Nil_conv [THEN iffD2])
  assume "d \<in> set delims"
  then show "strtok_r (t @ d # r) delims = (Some t, r)"
    using c all by (simp add: strtok_r_def Let_def takeWhile_append2 dropWhile_append2)
qed

subsection \<open>Numbers\<close>

definition c_isdigit :: "char \<Rightarrow> bool" where
  "c_isdigit c \<longleftrightarrow> 48 \<le> (of_char c :: nat) \<and> (of_char c :: nat) \<le> 57"

definition c_isspace :: "char \<Rightarrow> bool" where
  "c_isspace c \<longleftrightarrow> (of_char c :: nat) \<in> {9, 10, 11, 12, 13, 32}"

fun dec_acc :: "int \<Rightarrow> string \<Rightarrow> int" where
  "dec_acc acc [] = acc"
| "dec_acc acc (c # s) =
     (if c_isdigit c then dec_acc (acc * 10 + (int (of_char c) - 48)) s else acc)"

definition to_int32 :: "int \<Rightarrow> int" where
  "to_int32 x = sint (word_of_int x :: 32 word)"

definition saturate_long :: "int \<Rightarrow> int" where
  "saturate_long x = max (- (2 ^ 63)) (min (2 ^ 63 - 1) x)"

definition atol :: "string \<Rightarrow> int" where
  "atol s = (case dropWhile c_isspace s of
       [] \<Rightarrow> 0
     | c # r \<Rightarrow> saturate_long
         (if c = CHR ''-'' then - dec_acc 0 r
          else if c = CHR ''+'' then dec_acc 0 r else dec_acc 0 (c # r)))"

definition atoi :: "string \<Rightarrow> int" where
  "atoi s = to_int32 (atol s)"

definition dec_digit :: "nat \<Rightarrow> char" where
  "dec_digit d = char_of (48 + d)"

fun dec_nat :: "nat \<Rightarrow> string" where
  "dec_nat n = (if n < 10 then [dec_digit n] else dec_nat (n div 10) @ [dec_digit (n mod 10)])"

declare dec_nat.simps [simp del]

text \<open>\<^verbatim>\<open>sprintf(buf, "%d", i)\<close> and \<^verbatim>\<open>sprintf(buf, "%04d", i)\<close>: the text written.\<close>

definition fmt_d :: "int \<Rightarrow> string" where
  "fmt_d i = (if i < 0 then CHR ''-'' # dec_nat (nat (- i)) else dec_nat (nat i))"

definition zero_pad :: "nat \<Rightarrow> string \<Rightarrow> string" where
  "zero_pad w s = replicate (w - length s) (CHR ''0'') @ s"

definition fmt_04d :: "int \<Rightarrow> string" where
  "fmt_04d i = (if i < 0 then CHR ''-'' # zero_pad 3 (dec_nat (nat (- i)))
                else zero_pad 4 (dec_nat (nat i)))"

lemma to_int32_id: "- (2 ^ 31) \<le> x \<Longrightarrow> x < 2 ^ 31 \<Longrightarrow> to_int32 x = x"
  unfolding to_int32_def sint_sbintrunc'
  by (subst signed_take_bit_int_eq_self) auto

lemma to_int32_bounds: "- (2 ^ 31) \<le> to_int32 x \<and> to_int32 x < 2 ^ 31"
  unfolding to_int32_def
  using sint_ge [of "word_of_int x :: 32 word"] sint_lt [of "word_of_int x :: 32 word"] by simp

lemma of_char_dec_digit [simp]: "d < 10 \<Longrightarrow> of_char (dec_digit d) = (48 + d :: nat)"
  by (simp add: dec_digit_def)

lemma dec_digit_isdigit [simp]: "d < 10 \<Longrightarrow> c_isdigit (dec_digit d)"
  by (simp add: c_isdigit_def)

lemma dec_nat_digits: "c \<in> set (dec_nat n) \<Longrightarrow> c_isdigit c"
proof (induction n rule: dec_nat.induct)
  case (1 n)
  show ?case
  proof (cases "n < 10")
    case True
    with 1 show ?thesis by (simp add: dec_nat.simps [of n])
  next
    case False
    then have "dec_nat n = dec_nat (n div 10) @ [dec_digit (n mod 10)]"
      by (simp add: dec_nat.simps [of n])
    with 1 False show ?thesis by auto
  qed
qed

lemma dec_acc_append:
  "\<forall>c \<in> set s. c_isdigit c \<Longrightarrow> dec_acc acc (s @ t) = dec_acc (dec_acc acc s) t"
  by (induction s arbitrary: acc) auto

lemma dec_acc_dec_nat: "dec_acc 0 (dec_nat n) = int n"
proof (induction n rule: dec_nat.induct)
  case (1 n)
  show ?case
  proof (cases "n < 10")
    case True
    then show ?thesis by (simp add: dec_nat.simps [of n])
  next
    case False
    then have "dec_nat n = dec_nat (n div 10) @ [dec_digit (n mod 10)]"
      by (simp add: dec_nat.simps [of n])
    with 1 False have "dec_acc 0 (dec_nat n) = int (n div 10) * 10 + int (n mod 10)"
      by (simp add: dec_acc_append dec_nat_digits)
    also have "\<dots> = int n" by presburger
    finally show ?thesis .
  qed
qed

lemma length_dec_nat: "0 < k \<Longrightarrow> length (dec_nat n) \<le> k \<longleftrightarrow> n < 10 ^ k"
proof (induction n arbitrary: k rule: dec_nat.induct)
  case (1 n)
  show ?case
  proof (cases "n < 10")
    case True
    moreover have "(10::nat) \<le> 10 ^ k" using 1 by (cases k) auto
    ultimately show ?thesis using 1 by (simp add: dec_nat.simps [of n])
  next
    case False
    then have len: "length (dec_nat n) = Suc (length (dec_nat (n div 10)))"
      by (simp add: dec_nat.simps [of n])
    show ?thesis
    proof (cases "k = 1")
      case True
      have "dec_nat (n div 10) \<noteq> []" by (subst dec_nat.simps) auto
      with len True False show ?thesis by simp
    next
      case k: False
      then obtain j where j: "k = Suc j" "0 < j" using 1(2) by (cases k) auto
      then have "length (dec_nat (n div 10)) \<le> j \<longleftrightarrow> n div 10 < 10 ^ j"
        using 1(1) False by simp
      also have "\<dots> \<longleftrightarrow> n < 10 ^ k" using j by (simp add: div_less_iff_less_mult mult.commute)
      finally show ?thesis using len j by simp
    qed
  qed
qed

lemma dec_nat_nonempty [simp]: "dec_nat n \<noteq> []"
  by (subst dec_nat.simps) simp

lemma digit_facts:
  "c_isdigit c \<Longrightarrow> \<not> c_isspace c \<and> c \<noteq> CHR ''-'' \<and> c \<noteq> CHR ''+'' \<and> c \<noteq> NUL"
  by (auto simp: c_isdigit_def c_isspace_def)

lemma atol_digits:
  assumes "s \<noteq> []" and "\<forall>c \<in> set s. c_isdigit c"
  shows "atol s = saturate_long (dec_acc 0 s)"
proof -
  obtain c r where s: "s = c # r" using assms(1) by (cases s) auto
  with assms(2) digit_facts [of c] show ?thesis by (simp add: atol_def)
qed

lemma dec_acc_zeros: "dec_acc 0 (replicate k (CHR ''0'') @ s) = dec_acc 0 s"
  by (induction k) (auto simp: c_isdigit_def)

lemma zero_pad_digits: "(\<forall>c \<in> set s. c_isdigit c) \<Longrightarrow> \<forall>c \<in> set (zero_pad w s). c_isdigit c"
  by (auto simp: zero_pad_def c_isdigit_def)

lemma atoi_digits:
  assumes "s \<noteq> []" and "\<forall>c \<in> set s. c_isdigit c" and "dec_acc 0 s < 2 ^ 31" and "0 \<le> dec_acc 0 s"
  shows "atoi s = dec_acc 0 s"
  using assms by (simp add: atoi_def atol_digits saturate_long_def to_int32_id)

lemma fmt_04d_nonneg:
  assumes "0 \<le> n" "n \<le> 9999"
  shows "length (fmt_04d n) = 4" and "\<forall>c \<in> set (fmt_04d n). c_isdigit c"
    and "atoi (fmt_04d n) = n"
proof -
  have "length (dec_nat (nat n)) \<le> 4" using assms by (subst length_dec_nat) auto
  then show "length (fmt_04d n) = 4" using assms by (simp add: fmt_04d_def zero_pad_def)
  show d: "\<forall>c \<in> set (fmt_04d n). c_isdigit c"
    using assms zero_pad_digits [of "dec_nat (nat n)" 4] dec_nat_digits by (simp add: fmt_04d_def)
  have v: "dec_acc 0 (fmt_04d n) = n"
    using assms by (simp add: fmt_04d_def zero_pad_def dec_acc_zeros dec_acc_dec_nat)
  show "atoi (fmt_04d n) = n"
    by (subst atoi_digits) (use assms d v in \<open>auto simp: fmt_04d_def zero_pad_def\<close>)
qed

lemma fmt_d_nonneg:
  assumes "0 \<le> n" "n < 2 ^ 31"
  shows "atoi (fmt_d n) = n"
  by (subst atoi_digits)
    (use assms dec_nat_digits in \<open>auto simp: fmt_d_def dec_acc_dec_nat\<close>)

lemma atoi_bounds: "- (2 ^ 31) \<le> atoi s \<and> atoi s < 2 ^ 31"
  unfolding atoi_def by (rule to_int32_bounds)

lemma atoi_suffix:
  assumes "0 \<le> n" "n < 2 ^ 31" "suf = [] \<or> \<not> c_isdigit (hd suf)"
  shows "atoi (fmt_d n @ suf) = n"
proof -
  have d: "\<forall>c \<in> set (fmt_d n). c_isdigit c" "fmt_d n \<noteq> []"
    using assms(1) dec_nat_digits by (auto simp: fmt_d_def)
  have "dec_acc a suf = a" for a using assms(3) by (cases suf) auto
  then have "dec_acc 0 (fmt_d n @ suf) = n"
    using assms(1) d(1) by (simp add: dec_acc_append fmt_d_def dec_acc_dec_nat)
  moreover obtain c r where "fmt_d n = c # r" using d(2) by (cases "fmt_d n") auto
  ultimately show ?thesis
    using assms(1,2) d(1) digit_facts [of c]
    by (auto simp: atoi_def atol_def saturate_long_def to_int32_id)
qed

subsection \<open>Tokens as pieces\<close>

text \<open>The non-empty pieces between delimiters: what successive calls of \<open>strtok_r\<close> return.\<close>

fun split_on :: "char \<Rightarrow> string \<Rightarrow> string list" where
  "split_on d [] = [[]]"
| "split_on d (c # s) = (if c = d then [] # split_on d s else
     (case split_on d s of [] \<Rightarrow> [[c]] | t # ts \<Rightarrow> (c # t) # ts))"

definition pieces :: "char \<Rightarrow> string \<Rightarrow> string list" where
  "pieces d s = filter (\<lambda>t. t \<noteq> []) (split_on d s)"

lemma split_on_nonempty [simp]: "split_on d s \<noteq> []"
  by (induction s) (auto split: list.splits)

lemma split_on_clear: "d \<notin> set t \<Longrightarrow> split_on d t = [t]"
  by (induction t) auto

lemma split_on_append: "d \<notin> set t \<Longrightarrow> split_on d (t @ d # r) = t # split_on d r"
  by (induction t) auto

lemma pieces_skip: "pieces d (dropWhile (\<lambda>c. c = d) s) = pieces d s"
  by (induction s) (auto simp: pieces_def)

lemma pieces_token:
  assumes "d \<notin> set t" "t \<noteq> []" "u = [] \<or> (\<exists>r. u = d # r)"
  shows "pieces d (t @ u) = t # pieces d (drop 1 u)"
  using assms by (auto simp: pieces_def split_on_clear split_on_append)

lemma pieces_Nil: "pieces d [] = []"
  by (simp add: pieces_def)

lemma strtok_split:
  "(strtok_r s [d] = (None, []) \<and> pieces d s = []) \<or>
   (\<exists>t r. strtok_r s [d] = (Some t, r) \<and> pieces d s = t # pieces d r)"
proof -
  define w where "w = dropWhile (\<lambda>c. c = d) s"
  define t where "t = takeWhile (\<lambda>c. c \<noteq> d) w"
  define u where "u = dropWhile (\<lambda>c. c \<noteq> d) w"
  have st: "strtok_r s [d] = (if w = [] then (None, []) else (Some t, drop 1 u))"
    by (simp add: strtok_r_def w_def t_def u_def Let_def)
  have p: "pieces d s = pieces d w" by (simp add: w_def pieces_skip)
  have w: "w = t @ u" by (simp add: t_def u_def)
  have clear: "d \<notin> set t" by (auto simp: t_def dest: set_takeWhileD)
  have u: "u = [] \<or> (\<exists>r. u = d # r)"
  proof (cases u)
    case (Cons c r)
    then have "c = d" using hd_dropWhile [of "\<lambda>c. c \<noteq> d" w] by (simp add: u_def)
    with Cons show ?thesis by simp
  qed simp
  show ?thesis
  proof (cases "w = []")
    case True
    with st p pieces_Nil show ?thesis by simp
  next
    case False
    then have "hd w \<noteq> d" using hd_dropWhile [of "\<lambda>c. c = d" s] by (simp add: w_def)
    then have "t \<noteq> []" using False by (cases w) (simp_all add: t_def)
    from pieces_token [OF clear this u] have "pieces d s = t # pieces d (drop 1 u)" using p w by metis
    with st False show ?thesis by metis
  qed
qed

lemma strtok_pieces:
  "pieces d s = [] \<Longrightarrow> strtok_r s [d] = (None, [])"
  "pieces d s = t # ts \<Longrightarrow> \<exists>r. strtok_r s [d] = (Some t, r) \<and> pieces d r = ts"
  using strtok_split [of s d] by auto

lemma split_on_bytes: "c \<in> set s \<Longrightarrow> c = d \<or> (\<exists>t \<in> set (split_on d s). c \<in> set t)"
proof (induction s)
  case (Cons a s)
  obtain t ts where "split_on d s = t # ts" by (cases "split_on d s") auto
  with Cons show ?case by auto
qed simp

lemma pieces_bytes: "c \<in> set s \<Longrightarrow> c = d \<or> (\<exists>t \<in> set (pieces d s). c \<in> set t)"
  using split_on_bytes [of c s d] by (fastforce simp: pieces_def)

end
