(* ===== verification/Types.thy ===== *)
theory Types
  imports CString
begin

section \<open>The data of the module: \<^verbatim>\<open>module.h\<close>, \<^verbatim>\<open>task.h\<close>, \<^verbatim>\<open>work.h\<close>\<close>

text \<open>
  The structs of the headers. Pointers to functions and the opaque callback parameter are
  addresses (0 is NULL). The two queue structs \<open>tsidque_t\<close> and \<open>msgque_t\<close> are the
  payloads below inside a \<^typ>\<open>'a cell\<close> of the prelude, which has their \<open>prev\<close> and
  \<open>next\<close>. \<open>struct timeval\<close> is ordered lexicographically, as the code compares it.
\<close>

subsection \<open>Time\<close>

datatype timeval = Timeval (tv_sec: int) (tv_usec: int)

instantiation timeval :: linorder
begin

definition less_eq_timeval :: "timeval \<Rightarrow> timeval \<Rightarrow> bool" where
  "s \<le> t \<longleftrightarrow> tv_sec s < tv_sec t \<or> tv_sec s = tv_sec t \<and> tv_usec s \<le> tv_usec t"

definition less_timeval :: "timeval \<Rightarrow> timeval \<Rightarrow> bool" where
  "s < t \<longleftrightarrow> tv_sec s < tv_sec t \<or> tv_sec s = tv_sec t \<and> tv_usec s < tv_usec t"

instance
  by standard (auto simp: less_eq_timeval_def less_timeval_def timeval.expand)

end

definition timeval_ok :: "timeval \<Rightarrow> bool" where
  "timeval_ok t \<longleftrightarrow> 0 \<le> tv_usec t \<and> tv_usec t < 1000000"

definition timeval_usecs :: "timeval \<Rightarrow> int" where
  "timeval_usecs t = tv_sec t * 1000000 + tv_usec t"

lemma timeval_le_usecs:
  "timeval_ok s \<Longrightarrow> timeval_ok t \<Longrightarrow> s \<le> t \<longleftrightarrow> timeval_usecs s \<le> timeval_usecs t"
  by (auto simp: timeval_ok_def timeval_usecs_def less_eq_timeval_def)

text \<open>Integer division of C, rounding towards zero.\<close>

definition c_div :: "int \<Rightarrow> int \<Rightarrow> int" where
  "c_div a b = sgn a * sgn b * (\<bar>a\<bar> div \<bar>b\<bar>)"

definition c_mod :: "int \<Rightarrow> int \<Rightarrow> int" where
  "c_mod a b = a - c_div a b * b"

lemma c_mod_nonneg: "0 \<le> a \<Longrightarrow> 0 < b \<Longrightarrow> c_mod a b = a mod b"
  by (cases "a = 0") (auto simp: c_mod_def c_div_def minus_div_mult_eq_mod)

lemma c_div_bounds: "0 < b \<Longrightarrow> \<bar>a - c_div a b * b\<bar> < b"
proof -
  assume b: "0 < b"
  have r: "(if a < 0 then - a else a) = (\<bar>a\<bar> div b) * b + \<bar>a\<bar> mod b" by simp
  have m: "0 \<le> \<bar>a\<bar> mod b" "\<bar>a\<bar> mod b < b" using b by auto
  have "c_div a b * b = (if a < 0 then - (\<bar>a\<bar> div b * b) else \<bar>a\<bar> div b * b)"
    using b by (cases "a = 0") (auto simp: c_div_def)
  moreover define Q M where "Q = \<bar>a\<bar> div b * b" and "M = \<bar>a\<bar> mod b"
  ultimately have "c_div a b * b = (if a < 0 then - Q else Q)" "(if a < 0 then - a else a) = Q + M"
    "0 \<le> M" "M < b"
    using r m by auto
  then show ?thesis by (auto split: if_splits)
qed

subsection \<open>\<^verbatim>\<open>module.h\<close>\<close>

definition KEY_SIZE :: nat where "KEY_SIZE = 256"

record xchar =
  xc_s :: "nat option"    \<comment> \<open>\<open>s\<close>, as an offset into the parsed buffer; \<open>None\<close> is NULL\<close>
  xc_len :: int           \<comment> \<open>\<open>len\<close>\<close>

record end_peers =
  port :: int
  ip :: string            \<comment> \<open>\<^verbatim>\<open>char ip[16]\<close>\<close>

record configurator =
  num_worker_threads :: int
  num_peers :: int
  peers :: "end_peers list"

record request_t =
  req_buf :: string
  msg_len :: int
  picked_up :: int
  no_transaction :: int
  req_id :: string        \<comment> \<open>\<^verbatim>\<open>char id[KEY_SIZE]\<close>, all its bytes\<close>

record response_t =
  res_id :: string
  retcode :: int
  query_res :: string

subsection \<open>\<^verbatim>\<open>task.h\<close>\<close>

definition EXPIRY :: int where "EXPIRY = 30"

record con_t =
  fd :: int
  state :: int
  peer_id :: int

definition con_zero :: con_t where       \<comment> \<open>what \<open>calloc\<close> leaves\<close>
  "con_zero = \<lparr>fd = 0, state = 0, peer_id = 0\<rparr>"

record tsidque_t =
  tq_id :: string
  tq_conn :: int
  is_expired :: int
  ATime :: timeval
  ETime :: timeval
  callback_f :: addr
  callback_param :: addr

record msgque_t =
  mq_data :: addr
  mq_id :: string
  mq_len :: int
  mq_conn :: int

text \<open>The heap of requests: a pushed \<open>request_t\<close> is reached through its address.\<close>

type_synonym reqs = "addr \<Rightarrow> request_t option"

definition load_req :: "reqs \<Rightarrow> addr \<Rightarrow> request_t res" where
  "load_req h a = (if a = 0 then Inl (UB Null_Deref) else
     (case h a of None \<Rightarrow> Inl (UB Invalid_Access) | Some r \<Rightarrow> Inr r))"

text \<open>
  Memory of the client that the code prints with \<^verbatim>\<open>%s\<close>: \<open>strs a\<close> says whether a string
  starts at \<open>a\<close>.
\<close>

definition log_str :: "(addr \<Rightarrow> bool) \<Rightarrow> addr \<Rightarrow> unit res" where
  "log_str strs a = (if a = 0 then Inl (UB Null_Deref) else if strs a then Inr () else Inl (UB Invalid_Access))"

lemma log_str_ok [simp]: "log_str strs a = Inr () \<longleftrightarrow> a \<noteq> 0 \<and> strs a"
  by (simp add: log_str_def)

lemma log_str_fault: "log_str strs a \<noteq> Inr () \<Longrightarrow> \<exists>x. log_str strs a = Inl (UB x)"
  by (auto simp: log_str_def split: if_splits)

definition free_req :: "reqs \<Rightarrow> addr \<Rightarrow> reqs res" where
  "free_req h a = bindE (load_req h a) (\<lambda>_. Inr (h(a := None)))"

end
