(* ===== verification/Peers.thy ===== *)
theory Peers
  imports Types
begin

section \<open>Peer connections: \<^verbatim>\<open>task.c\<close>, lines 11 to 135\<close>

text \<open>
  \<open>gconn_list\<close> is the array of connections, one per configured peer. Creating, monitoring
  and recreating a connection depend on what the system calls answer; the answers are an
  argument: for a peer, whether \<open>getaddrinfo\<close> set its result, the descriptor \<open>socket\<close>
  returned, and the results of the successive \<open>connect\<close> calls on that descriptor. A
  failed \<open>getaddrinfo\<close> leaves \<open>res\<close> uninitialised, and the code reads it: a fault.
  The \<open>setsockopt\<close> calls have no effect on the state.
\<close>

record dial =
  gai_ok :: bool
  socket_fd :: int
  connect_rc :: "nat \<Rightarrow> int"

text \<open>\<^verbatim>\<open>char sndbuf[5]; sprintf(sndbuf, "%d", port)\<close>\<close>

definition port_text :: "int \<Rightarrow> string res" where
  "port_text p = store_str 5 (fmt_d p)"

lemma port_text_ok: "0 \<le> p \<Longrightarrow> p \<le> 9999 \<Longrightarrow> port_text p = Inr (fmt_d p)"
proof -
  assume "0 \<le> p" "p \<le> 9999"
  moreover from this have "length (dec_nat (nat p)) \<le> 4" by (subst length_dec_nat) auto
  ultimately show ?thesis by (simp add: port_text_def store_str_def fmt_d_def)
qed

lemma port_text_overflow: "10000 \<le> p \<Longrightarrow> port_text p = Inl (UB Buffer_Overflow)"
proof -
  assume p: "10000 \<le> p"
  then have "\<not> length (dec_nat (nat p)) \<le> 4" by (subst length_dec_nat) auto
  with p show ?thesis by (simp add: port_text_def store_str_def fmt_d_def)
qed

subsection \<open>\<open>create_peers\<close>\<close>

text \<open>
  The label \<open>connect_now\<close>: \<open>r\<close> is \<open>retry\<close>, \<open>k\<close> counts the \<open>connect\<close> calls. After a
  failure with \<open>retry == 1\<close> the code closes the descriptor and jumps back to \<open>connect\<close>
  on the same, closed, descriptor. The result says whether the peer is connected.
\<close>

fun connect_now :: "dial \<Rightarrow> nat \<Rightarrow> nat \<Rightarrow> bool" where
  "connect_now d 0 k = (0 \<le> connect_rc d k)"
| "connect_now d (Suc r) k = (if connect_rc d k < 0 then connect_now d r (Suc k) else True)"

definition create_peer :: "end_peers \<Rightarrow> dial \<Rightarrow> nat \<Rightarrow> con_t res" where
  "create_peer ep d i =
     bindE (port_text (port ep)) (\<lambda>_.
       if \<not> gai_ok d then Inl (UB Invalid_Access)
       else if socket_fd d < 0 then Inl (Exit 1)
       else if connect_now d 1 0
       then Inr \<lparr>fd = socket_fd d, state = 1, peer_id = int i\<rparr>
       else Inr con_zero)"

function create_from :: "configurator \<Rightarrow> (nat \<Rightarrow> dial) \<Rightarrow> nat \<Rightarrow> con_t list res" where
  "create_from cfg ds i =
     (if int i < num_peers cfg then
        (if i < length (peers cfg) then
           bindE (create_peer (peers cfg ! i) (ds i) i) (\<lambda>c.
           bindE (create_from cfg ds (Suc i)) (\<lambda>cs. Inr (c # cs)))
         else Inl (UB Invalid_Access))
      else Inr [])"
  by pat_completeness auto
termination
  by (relation "measure (\<lambda>(cfg, ds, i). nat (num_peers cfg) - i)") auto

declare create_from.simps [simp del]

definition create_peers :: "configurator \<Rightarrow> (nat \<Rightarrow> dial) \<Rightarrow> con_t list res" where
  "create_peers cfg ds = create_from cfg ds 0"

subsection \<open>\<open>recreate_conn\<close> and \<open>monitor_sock_conn\<close>\<close>

definition redial :: "end_peers \<Rightarrow> dial \<Rightarrow> con_t \<Rightarrow> con_t res" where
  "redial ep d c =
     bindE (port_text (port ep)) (\<lambda>_.
       if \<not> gai_ok d then Inl (UB Invalid_Access)
       else if connect_rc d 0 < 0 then Inr (c\<lparr>state := 0, fd := socket_fd d\<rparr>)
       else Inr (c\<lparr>fd := socket_fd d, state := 1\<rparr>))"

definition recreate_conn :: "int \<Rightarrow> configurator \<Rightarrow> dial \<Rightarrow> con_t list \<Rightarrow> con_t list res" where
  "recreate_conn pid cfg d cl =
     (if 0 \<le> pid \<and> nat pid < length (peers cfg) \<and> nat pid < length cl
      then bindE (redial (peers cfg ! nat pid) d (cl ! nat pid)) (\<lambda>c. Inr (cl[nat pid := c]))
      else Inl (UB Invalid_Access))"

text \<open>
  \<open>monitor_sock_conn\<close>: \<open>sockopt i\<close> is the return code of \<open>getsockopt\<close> for connection
  \<open>i\<close> with the \<open>SO_ERROR\<close> value it stored.
\<close>

function monitor_from ::
  "configurator \<Rightarrow> (nat \<Rightarrow> int \<times> int) \<Rightarrow> (nat \<Rightarrow> dial) \<Rightarrow> nat \<Rightarrow> con_t list \<Rightarrow> con_t list res" where
  "monitor_from cfg sockopt ds i cl =
     (if int i < num_peers cfg then
        (if i < length cl then
           (if fst (sockopt i) \<noteq> 0 \<or> snd (sockopt i) \<noteq> 0 then
              (if i < length (peers cfg) then
                 bindE (redial (peers cfg ! i) (ds i) (cl ! i)) (\<lambda>c.
                   monitor_from cfg sockopt ds (Suc i) (cl[i := c]))
               else Inl (UB Invalid_Access))
            else monitor_from cfg sockopt ds (Suc i) cl)
         else Inl (UB Invalid_Access))
      else Inr cl)"
  by pat_completeness auto
termination
  by (relation "measure (\<lambda>(cfg, so, ds, i, cl). nat (num_peers cfg) - i)") auto

declare monitor_from.simps [simp del]

definition monitor_sock_conn ::
  "configurator \<Rightarrow> (nat \<Rightarrow> int \<times> int) \<Rightarrow> (nat \<Rightarrow> dial) \<Rightarrow> con_t list \<Rightarrow> con_t list res" where
  "monitor_sock_conn cfg sockopt ds cl = monitor_from cfg sockopt ds 0 cl"

subsection \<open>Lemmas\<close>

text \<open>What an entry of \<open>gconn_list\<close> looks like after \<open>create_peers\<close>.\<close>

definition con_created :: "nat \<Rightarrow> con_t \<Rightarrow> bool" where
  "con_created i c \<longleftrightarrow> c = con_zero \<or> state c = 1 \<and> peer_id c = int i \<and> 0 \<le> fd c"

lemma create_peer_created: "create_peer ep d i = Inr c \<Longrightarrow> con_created i c"
  by (auto simp: create_peer_def outcome_iffs con_created_def split: if_splits)

lemma create_from_created:
  "create_from cfg ds i = Inr cl \<Longrightarrow>
   length cl = nat (num_peers cfg) - i \<and> (\<forall>k < length cl. con_created (i + k) (cl ! k))"
proof (induction cfg ds i arbitrary: cl rule: create_from.induct)
  case (1 cfg ds i)
  show ?case
  proof (cases "int i < num_peers cfg")
    case False
    with 1(2) show ?thesis by (simp add: create_from.simps [of cfg ds i])
  next
    case True
    with 1(2) obtain c cs where c: "i < length (peers cfg)"
      "create_peer (peers cfg ! i) (ds i) i = Inr c" "create_from cfg ds (Suc i) = Inr cs" "cl = c # cs"
      by (auto simp: create_from.simps [of cfg ds i] outcome_iffs split: if_splits)
    from 1(1) [OF True c(1) c(2) c(3)]
    have IH: "length cs = nat (num_peers cfg) - Suc i" "\<forall>k < length cs. con_created (Suc i + k) (cs ! k)"
      by auto
    show ?thesis
      using True c(4) IH create_peer_created [OF c(2)] by (auto simp: nth_Cons' less_Suc_eq_0_disj)
  qed
qed

lemma create_from_nth:
  "create_from cfg ds i = Inr cl \<Longrightarrow> k < length cl \<Longrightarrow>
   create_peer (peers cfg ! (i + k)) (ds (i + k)) (i + k) = Inr (cl ! k)"
proof (induction cfg ds i arbitrary: cl k rule: create_from.induct)
  case (1 cfg ds i)
  from 1(2,3) have True: "int i < num_peers cfg"
    by (auto simp: create_from.simps [of cfg ds i] split: if_splits)
  with 1(2) obtain c cs where c: "i < length (peers cfg)"
    "create_peer (peers cfg ! i) (ds i) i = Inr c" "create_from cfg ds (Suc i) = Inr cs" "cl = c # cs"
    by (auto simp: create_from.simps [of cfg ds i] outcome_iffs split: if_splits)
  show ?case
  proof (cases k)
    case 0
    with c show ?thesis by simp
  next
    case (Suc j)
    with 1(1) [OF True c(1) c(2) c(3), of j] 1(3) c(4) show ?thesis by simp
  qed
qed

lemma redial_facts:
  "redial ep d c = Inr c' \<Longrightarrow>
   peer_id c' = peer_id c \<and> state c' = (if connect_rc d 0 < 0 then 0 else 1) \<and> fd c' = socket_fd d"
  by (auto simp: redial_def outcome_iffs split: if_splits)

lemma recreate_conn_facts:
  assumes "recreate_conn pid cfg d cl = Inr cl'"
  shows "length cl' = length cl" and "map peer_id cl' = map peer_id cl"
    and "\<And>k. int k \<noteq> pid \<Longrightarrow> cl' ! k = cl ! k"
proof -
  from assms obtain c where c: "0 \<le> pid" "nat pid < length cl" "cl' = cl[nat pid := c]"
    "redial (peers cfg ! nat pid) d (cl ! nat pid) = Inr c"
    by (auto simp: recreate_conn_def outcome_iffs split: if_splits)
  then show "length cl' = length cl" by simp
  show "map peer_id cl' = map peer_id cl"
    using c redial_facts [OF c(4)] by (auto simp: map_update list_update_same_conv)
  show "cl' ! k = cl ! k" if "int k \<noteq> pid" for k
    using that c by (metis int_nat_eq nth_list_update_neq)
qed

text \<open>
  The retry of \<open>create_peers\<close> connects the descriptor it has just closed. As \<open>connect\<close> on a
  closed descriptor fails, a peer whose first attempt fails keeps the zero entry, which carries
  the number of peer 0.
\<close>

lemma failed_peer_keeps_zero_entry:
  assumes "create_peers cfg ds = Inr cl" "k < length cl"
    and first: "connect_rc (ds k) 0 < 0" and closed: "connect_rc (ds k) 1 < 0"
  shows "cl ! k = con_zero"
proof -
  have "create_peer (peers cfg ! k) (ds k) k = Inr (cl ! k)"
    using create_from_nth [OF assms(1) [unfolded create_peers_def] assms(2)] by simp
  moreover have "\<not> connect_now (ds k) 1 0" using first closed by simp
  ultimately show ?thesis
    by (auto simp: create_peer_def outcome_iffs split: if_splits dest!: sym [of _ "cl ! k"])
qed

subsection \<open>Properties\<close>

definition cfg_demo :: configurator where
  "cfg_demo = \<lparr>num_worker_threads = 4, num_peers = 2,
     peers = [\<lparr>port = 80, ip = ''127.0.0.1''\<rparr>, \<lparr>port = 8050, ip = ''127.0.0.1''\<rparr>]\<rparr>"

definition dial_ok :: "int \<Rightarrow> dial" where
  "dial_ok f = \<lparr>gai_ok = True, socket_fd = f, connect_rc = (\<lambda>_. 0)\<rparr>"

definition dial_refused :: "int \<Rightarrow> dial" where
  "dial_refused f = \<lparr>gai_ok = True, socket_fd = f, connect_rc = (\<lambda>_. -1)\<rparr>"

lemma create_peers_demo:
  "create_peers cfg_demo (\<lambda>i. if i = 0 then dial_ok 3 else dial_refused 4) =
     Inr [\<lparr>fd = 3, state = 1, peer_id = 0\<rparr>, con_zero]"
proof -
  have "port_text 80 = Inr (fmt_d 80)" "port_text 8050 = Inr (fmt_d 8050)"
    by (simp_all add: port_text_ok)
  moreover have "num_peers cfg_demo = 2" and
    "peers cfg_demo = [\<lparr>port = 80, ip = ''127.0.0.1''\<rparr>, \<lparr>port = 8050, ip = ''127.0.0.1''\<rparr>]"
    by (simp_all add: cfg_demo_def)
  ultimately show ?thesis
    by (simp add: create_peers_def create_from.simps [of cfg_demo] create_peer_def dial_ok_def
        dial_refused_def)
qed

text \<open>When \<open>create_peers\<close> returns, it has one entry per configured peer, and each entry is
  either connected and numbered with its own index, or all zero.\<close>

theorem create_peers_entries:
  assumes "create_peers cfg ds = Inr cl"
  shows "length cl = nat (num_peers cfg) \<and>
    (\<forall>k < length cl. cl ! k = con_zero \<or>
        state (cl ! k) = 1 \<and> peer_id (cl ! k) = int k \<and> fd (cl ! k) = socket_fd (ds k))"
proof -
  from create_from_created [OF assms [unfolded create_peers_def]]
  have len: "length cl = nat (num_peers cfg)" by simp
  have "cl ! k = con_zero \<or> state (cl ! k) = 1 \<and> peer_id (cl ! k) = int k \<and> fd (cl ! k) = socket_fd (ds k)"
    if "k < length cl" for k
    using create_from_nth [OF assms [unfolded create_peers_def] that]
    by (auto simp: create_peer_def outcome_iffs split: if_splits dest!: sym [of _ "cl ! k"])
  with len show ?thesis by blast
qed

theorem create_peers_entries_witness:
  "\<exists>cl. create_peers cfg_demo (\<lambda>i. if i = 0 then dial_ok 3 else dial_refused 4) = Inr cl \<and>
    length cl = nat (num_peers cfg_demo) \<and>
    (\<forall>k < length cl. cl ! k = con_zero \<or>
       state (cl ! k) = 1 \<and> peer_id (cl ! k) = int k \<and>
       fd (cl ! k) = socket_fd (if k = 0 then dial_ok 3 else dial_refused 4))"
  using create_peers_demo create_peers_entries [OF create_peers_demo] by blast

text \<open>A configured port of five digits, which the configuration check allows, overflows the
  five-byte \<open>sndbuf\<close>: \<open>create_peers\<close> ends in that overflow at the first such port it reaches.\<close>

lemma create_from_overflows:
  "i \<le> k \<Longrightarrow> int k < num_peers cfg \<Longrightarrow> k < length (peers cfg) \<Longrightarrow> 10000 \<le> port (peers cfg ! k) \<Longrightarrow>
   \<forall>j < k. port (peers cfg ! j) \<in> {0..9999} \<and> gai_ok (ds j) \<and> 0 \<le> socket_fd (ds j) \<Longrightarrow>
   create_from cfg ds i = Inl (UB Buffer_Overflow)"
proof (induction "k - i" arbitrary: i)
  case 0
  then show ?case using port_text_overflow [of "port (peers cfg ! k)"]
    by (subst create_from.simps) (simp add: create_peer_def)
next
  case (Suc n)
  then have lt: "i < k" by simp
  with Suc.prems(5) have "0 \<le> port (peers cfg ! i)" "port (peers cfg ! i) \<le> 9999" "gai_ok (ds i)" "0 \<le> socket_fd (ds i)"
    by auto
  then have "\<exists>c. create_peer (peers cfg ! i) (ds i) i = Inr c"
    by (simp add: create_peer_def port_text_ok)
  moreover have "create_from cfg ds (Suc i) = Inl (UB Buffer_Overflow)"
    by (rule Suc.hyps(1)) (use Suc.hyps(2) Suc.prems lt in simp_all)
  ultimately show ?case using lt Suc.prems(2,3) by (subst create_from.simps) auto
qed

theorem five_digit_port_overflows:
  assumes "int k < num_peers cfg" "k < length (peers cfg)" "10000 \<le> port (peers cfg ! k)"
    and "\<forall>j < k. port (peers cfg ! j) \<in> {0..9999} \<and> gai_ok (ds j) \<and> 0 \<le> socket_fd (ds j)"
  shows "create_peers cfg ds = Inl (UB Buffer_Overflow)"
  unfolding create_peers_def using assms by (intro create_from_overflows) simp_all

theorem five_digit_port_overflows_witness:
  "create_peers \<lparr>num_worker_threads = 4, num_peers = 1, peers = [\<lparr>port = 40713, ip = ''10.0.0.1''\<rparr>]\<rparr>
     (\<lambda>_. dial_ok 3) = Inl (UB Buffer_Overflow)"
  using five_digit_port_overflows [of 0 "\<lparr>num_worker_threads = 4, num_peers = 1,
      peers = [\<lparr>port = 40713, ip = ''10.0.0.1''\<rparr>]\<rparr>" "\<lambda>_. dial_ok 3"]
  by simp

end
