(* ===== verification/IdQueue.thy ===== *)
theory IdQueue
  imports Peers
begin

section \<open>The session queue: \<^verbatim>\<open>task.c\<close>, lines 137 to 328\<close>

text \<open>
  \<open>gtsidq\<close> maps a transaction id to the connection its messages go to and to the callback
  that awaits its response. The operations walk the list through \<open>next\<close>; \<open>prev\<close> is
  written but never read, and \<open>rem_id\<close> does not keep it, so the queue is read off the
  memory with \<open>queue_rep False\<close>. A \<open>char *\<close> argument that may be NULL is an option; the
  time a \<open>gettimeofday\<close> call returns is an argument.
\<close>

subsection \<open>Choosing a connection\<close>

text \<open>
  \<^verbatim>\<open>glast_con_rr++; if (glast_con_rr == num_peers) glast_con_rr = 0;\<close> and the loop at
  \<open>reassign_conn\<close>: it goes on until it meets a connection whose \<open>state\<close> is 1. With
  \<open>0 \<le> glast_con_rr < num_peers\<close> its state repeats after \<open>num_peers\<close> rounds, so that much
  fuel decides whether it ends for the given \<open>gconn_list\<close>.
\<close>

definition bump :: "int \<Rightarrow> int \<Rightarrow> int" where
  "bump n g = (if g + 1 = n then 0 else g + 1)"

fun reassign_conn :: "nat \<Rightarrow> con_t list \<Rightarrow> int \<Rightarrow> int \<Rightarrow> (int \<times> int) res" where
  "reassign_conn 0 cl n g = Inl Hang"
| "reassign_conn (Suc k) cl n g =
     (let con = c_mod g n in
      if con < 0 \<or> length cl \<le> nat con then Inl (UB Invalid_Access)
      else if state (cl ! nat con) = 1 then Inr (con, bump n g)
      else reassign_conn k cl n (bump n g))"

definition assign_conn :: "con_t list \<Rightarrow> int \<Rightarrow> int \<Rightarrow> (int \<times> int) res" where
  "assign_conn cl n g = (if n = 0 then Inl (UB Div_By_Zero) else reassign_conn (nat \<bar>n\<bar>) cl n g)"

subsection \<open>The operations\<close>

definition has_id :: "string \<Rightarrow> tsidque_t \<Rightarrow> bool" where
  "has_id s e \<longleftrightarrow> tq_id e = s"

text \<open>Result: the return code and the value left in \<open>*conn\<close>.\<close>

definition is_ID_present_idq ::
  "tsidque_t lqueue \<Rightarrow> string option \<Rightarrow> int \<Rightarrow> (int \<times> int) res" where
  "is_ID_present_idq q tid conn =
     (if qhead q = 0 then Inr (0, conn)
      else case tid of
        None \<Rightarrow> Inr (0, conn)
      | Some s \<Rightarrow> if s = [] then Inr (0, conn) else
          bindE (find_cell (brk (qmem q)) (qmem q) (has_id s) (qhead q)) (\<lambda>temp.
            if temp = 0 then Inr (0, conn)
            else bindE (load (qmem q) temp) (\<lambda>c. Inr (1, tq_conn (c_val c)))))"

definition elapsed_ms :: "timeval \<Rightarrow> timeval \<Rightarrow> int" where
  "elapsed_ms now a = (tv_sec now - tv_sec a) * 1000 + c_div (tv_usec now - tv_usec a) 1000"

text \<open>Result: the return code, \<open>*elapsed_msecs\<close> and \<open>*node\<close>.\<close>

definition lookup_ID_idq ::
  "tsidque_t lqueue \<Rightarrow> string option \<Rightarrow> timeval \<Rightarrow> tsidque_t \<Rightarrow> (int \<times> int \<times> tsidque_t) res" where
  "lookup_ID_idq q tid now node =
     (if qhead q = 0 then Inr (0, 0, node)
      else case tid of
        None \<Rightarrow> Inr (0, 0, node)
      | Some s \<Rightarrow> if s = [] then Inr (0, 0, node) else
          bindE (find_cell (brk (qmem q)) (qmem q) (has_id s) (qhead q)) (\<lambda>temp.
            if temp = 0 then Inr (0, 0, node)
            else bindE (load (qmem q) temp) (\<lambda>c. let e = c_val c in
              Inr (1, elapsed_ms now (ATime e),
                   node\<lparr>tq_id := tq_id e, is_expired := is_expired e,
                        callback_f := callback_f e, callback_param := callback_param e\<rparr>))))"

definition plus_expiry :: "timeval \<Rightarrow> timeval" where
  "plus_expiry t = Timeval (tv_sec t + EXPIRY) (tv_usec t)"

definition refresh :: "timeval \<Rightarrow> addr \<Rightarrow> addr \<Rightarrow> tsidque_t \<Rightarrow> tsidque_t" where
  "refresh now f p e = e\<lparr>ATime := now, ETime := plus_expiry now, callback_f := f, callback_param := p\<rparr>"

definition update_entry_idq ::
  "tsidque_t lqueue \<Rightarrow> string \<Rightarrow> timeval \<Rightarrow> addr \<Rightarrow> addr \<Rightarrow> (int \<times> tsidque_t lqueue) res" where
  "update_entry_idq q s now f p =
     (if qhead q = 0 then Inr (0, q) else
      bindE (find_cell (brk (qmem q)) (qmem q) (has_id s) (qhead q)) (\<lambda>temp.
        if temp = 0 then Inr (-1, q)
        else bindE (load (qmem q) temp) (\<lambda>c.
             bindE (set_val (qmem q) temp (refresh now f p (c_val c))) (\<lambda>m.
               Inr (tq_conn (c_val c), q\<lparr>qmem := m\<rparr>)))))"

definition tsid_zero :: tsidque_t where
  "tsid_zero = \<lparr>tq_id = [], tq_conn = 0, is_expired = 0, ATime = Timeval 0 0, ETime = Timeval 0 0,
                callback_f = 0, callback_param = 0\<rparr>"

definition new_entry :: "string \<Rightarrow> int \<Rightarrow> timeval \<Rightarrow> addr \<Rightarrow> addr \<Rightarrow> tsidque_t" where
  "new_entry s con now f p =
     \<lparr>tq_id = s, tq_conn = con, is_expired = 0, ATime = now, ETime = plus_expiry now,
      callback_f = f, callback_param = p\<rparr>"

text \<open>
  Result: the connection, the queue and \<open>glast_con_rr\<close>; \<open>cl\<close> is \<open>gconn_list\<close>, \<open>n\<close> what
  \<open>get_peers\<close> returns. The node is allocated before the id is looked at, and stays
  allocated when the id is empty.
\<close>

definition add_entry_idq ::
  "con_t list \<Rightarrow> int \<Rightarrow> tsidque_t lqueue \<Rightarrow> int \<Rightarrow> string option \<Rightarrow> timeval \<Rightarrow> addr \<Rightarrow> addr \<Rightarrow>
   (int \<times> tsidque_t lqueue \<times> int) res" where
  "add_entry_idq cl n q g tid now f p =
     (let (temp, m) = calloc_cell tsid_zero (qmem q) in
      case tid of
        None \<Rightarrow> Inr (-1, q\<lparr>qmem := m\<rparr>, g)
      | Some s \<Rightarrow> if s = [] then Inr (-1, q\<lparr>qmem := m\<rparr>, g) else
          bindE (assign_conn cl n g) (\<lambda>(con, g').
          bindE (set_val m temp (new_entry s con now f p)) (\<lambda>m.
          bindE (link_last m (qhead q) temp) (\<lambda>(h, m).
            Inr (con, \<lparr>qhead = h, qmem = m\<rparr>, g')))))"

text \<open>
  \<open>nows i\<close> is what the \<open>i\<close>-th \<open>gettimeofday\<close> call of the loop returns. An entry whose time has
  passed is logged, with its callback parameter as a string, before it is marked.
\<close>

definition overdue :: "timeval \<Rightarrow> tsidque_t \<Rightarrow> bool" where
  "overdue now e \<longleftrightarrow> tv_sec (ETime e) < tv_sec now \<or>
     (tv_sec (ETime e) = tv_sec now \<and> tv_usec (ETime e) < tv_usec now)"

definition mark_expired :: "timeval \<Rightarrow> tsidque_t \<Rightarrow> tsidque_t" where
  "mark_expired now e = (if overdue now e then e\<lparr>is_expired := 1\<rparr> else e)"

definition log_expired :: "(addr \<Rightarrow> bool) \<Rightarrow> timeval \<Rightarrow> tsidque_t \<Rightarrow> unit res" where
  "log_expired strs now e = (if overdue now e then log_str strs (callback_param e) else Inr ())"

fun expired_loop :: "(addr \<Rightarrow> bool) \<Rightarrow> nat \<Rightarrow> (nat \<Rightarrow> timeval) \<Rightarrow> nat \<Rightarrow> tsidque_t mem \<Rightarrow> addr \<Rightarrow> tsidque_t mem res" where
  "expired_loop strs 0 nows i m current = (if current = 0 then Inr m else Inl Hang)"
| "expired_loop strs (Suc k) nows i m current = (if current = 0 then Inr m else
     bindE (load m current) (\<lambda>c.
     bindE (log_expired strs (nows i) (c_val c)) (\<lambda>_.
     bindE (set_val m current (mark_expired (nows i) (c_val c))) (\<lambda>m.
       expired_loop strs k nows (Suc i) m (c_next c)))))"

definition list_expired_idq :: "(addr \<Rightarrow> bool) \<Rightarrow> tsidque_t lqueue \<Rightarrow> (nat \<Rightarrow> timeval) \<Rightarrow> tsidque_t lqueue res" where
  "list_expired_idq strs q nows =
     bindE (expired_loop strs (brk (qmem q)) nows 0 (qmem q) (qhead q)) (\<lambda>m. Inr (q\<lparr>qmem := m\<rparr>))"

fun rem_loop :: "nat \<Rightarrow> string \<Rightarrow> tsidque_t mem \<Rightarrow> addr \<Rightarrow> tsidque_t mem res" where
  "rem_loop 0 tid m current = Inl Hang"
| "rem_loop (Suc k) tid m current =
     bindE (load m current) (\<lambda>c.
       if c_next c = 0 then Inr m
       else bindE (load m (c_next c)) (\<lambda>d.
         if has_id tid (c_val d)
         then bindE (set_next m current (c_next d)) (\<lambda>m. free_cell m (c_next c))
         else rem_loop k tid m (c_next c)))"

definition rem_id :: "tsidque_t lqueue \<Rightarrow> string \<Rightarrow> tsidque_t lqueue res" where
  "rem_id q tid =
     (if qhead q = 0 then Inr q else
      bindE (load (qmem q) (qhead q)) (\<lambda>c.
        if has_id tid (c_val c)
        then bindE (free_cell (qmem q) (qhead q)) (\<lambda>m. Inr \<lparr>qhead = c_next c, qmem = m\<rparr>)
        else bindE (rem_loop (brk (qmem q)) tid (qmem q) (qhead q)) (\<lambda>m. Inr (q\<lparr>qmem := m\<rparr>))))"

subsection \<open>Round robin\<close>

lemma bump_mod: "0 \<le> g \<Longrightarrow> g < n \<Longrightarrow> bump n g = (g + 1) mod n"
  by (auto simp: bump_def)

lemma bump_range: "0 \<le> g \<Longrightarrow> g < n \<Longrightarrow> 0 \<le> bump n g \<and> bump n g < n"
  by (auto simp: bump_def)

text \<open>The connections in the order the loop tries them, from \<open>g\<close>.\<close>

definition tried :: "int \<Rightarrow> int \<Rightarrow> nat \<Rightarrow> nat list" where
  "tried n g k = map (\<lambda>i. nat ((g + int i) mod n)) [0..<k]"

definition con_up :: "con_t list \<Rightarrow> nat \<Rightarrow> bool" where
  "con_up cl c \<longleftrightarrow> state (cl ! c) = 1"

lemma tried_Suc: "0 \<le> g \<Longrightarrow> g < n \<Longrightarrow> tried n g (Suc k) = nat g # tried n (bump n g) k"
proof -
  assume g: "0 \<le> g" "g < n"
  have "(g + int (Suc i)) mod n = (bump n g + int i) mod n" for i
  proof -
    have "(bump n g + int i) mod n = ((g + 1) mod n + int i) mod n" by (simp add: bump_mod g)
    also have "\<dots> = (g + 1 + int i) mod n" by (rule mod_add_left_eq)
    finally show ?thesis by (simp add: algebra_simps)
  qed
  then show ?thesis using g by (simp add: tried_def map_upt_Suc del: upt_Suc of_nat_Suc)
qed

lemma reassign_conn_find:
  "0 \<le> g \<Longrightarrow> g < n \<Longrightarrow> n \<le> int (length cl) \<Longrightarrow>
   reassign_conn k cl n g =
     (case find (con_up cl) (tried n g k) of
        None \<Rightarrow> Inl Hang | Some c \<Rightarrow> Inr (int c, bump n (int c)))"
proof (induction k arbitrary: g)
  case 0
  then show ?case by (simp add: tried_def)
next
  case (Suc k)
  from Suc.prems have m: "c_mod g n = g" by (simp add: c_mod_nonneg)
  from Suc.prems have "\<not> length cl \<le> nat g" by linarith
  with Suc.prems m Suc.IH [of "bump n g"] bump_range [of g n] show ?case
    by (simp add: tried_Suc Let_def con_up_def)
qed

lemma tried_set:
  assumes "0 \<le> g" "g < n"
  shows "set (tried n g (nat n)) = {0..<nat n}"
proof -
  have "c \<in> set (tried n g (nat n))" if "c < nat n" for c
  proof -
    let ?i = "nat ((int c - g) mod n)"
    have n: "0 < n" using assms by simp
    have "(g + int ?i) mod n = (g + (int c - g)) mod n"
      using n by (simp add: mod_add_right_eq)
    also have "\<dots> = int c" using that by simp
    finally have "nat ((g + int ?i) mod n) = c" by simp
    moreover have "?i < nat n" using n by (simp add: nat_less_iff)
    ultimately show ?thesis
      unfolding tried_def set_map by (intro image_eqI [of _ _ ?i]) simp_all
  qed
  moreover have "set (tried n g (nat n)) \<subseteq> {0..<nat n}"
    using assms by (auto simp: tried_def nat_less_iff)
  ultimately show ?thesis by auto
qed

lemma assign_conn_find:
  assumes "0 \<le> g" "g < n" "n \<le> int (length cl)"
  shows "assign_conn cl n g =
     (case find (con_up cl) (tried n g (nat n)) of
        None \<Rightarrow> Inl Hang | Some c \<Rightarrow> Inr (int c, bump n (int c)))"
  using assms by (simp add: assign_conn_def reassign_conn_find)

lemma assign_conn_up:
  assumes "0 \<le> g" "g < n" "n \<le> int (length cl)" "c < nat n" "con_up cl c"
  shows "\<exists>con. assign_conn cl n g = Inr (con, bump n con) \<and> 0 \<le> con \<and> con < n \<and> con_up cl (nat con)"
proof -
  have "c \<in> set (tried n g (nat n))" using assms tried_set by simp
  with assms(5) obtain c' where f: "find (con_up cl) (tried n g (nat n)) = Some c'"
    by (cases "find (con_up cl) (tried n g (nat n))") (auto simp: find_None_iff)
  then have "c' \<in> set (tried n g (nat n))" "con_up cl c'" by (auto dest: find_split)
  with f assms tried_set [of g n] show ?thesis
    by (intro exI [of _ "int c'"]) (auto simp: assign_conn_find)
qed

lemma assign_conn_hang:
  assumes "0 \<le> g" "g < n" "n \<le> int (length cl)" "\<forall>c < nat n. \<not> con_up cl c"
  shows "assign_conn cl n g = Inl Hang"
proof -
  have "find (con_up cl) (tried n g (nat n)) = None"
    using assms tried_set [of g n] by (auto simp: find_None_iff)
  with assms show ?thesis by (simp add: assign_conn_find)
qed

lemma assign_conn_here:
  assumes "0 \<le> g" "g < n" "n \<le> int (length cl)" "con_up cl (nat g)"
  shows "assign_conn cl n g = Inr (g, bump n g)"
proof -
  obtain k where "nat n = Suc k" using assms by (cases "nat n") auto
  with assms show ?thesis by (simp add: assign_conn_find tried_Suc)
qed

subsection \<open>Each operation on the contents of the queue\<close>

lemma is_ID_present_rep:
  assumes "queue_rep d q es" and "s \<noteq> []"
  shows "is_ID_present_idq q (Some s) conn =
           Inr (case find (has_id s) es of None \<Rightarrow> (0, conn) | Some e \<Rightarrow> (1, tq_conn e))"
proof (cases "find (has_id s) es")
  case None
  with find_cell_queue(1) [OF assms(1) None] assms(2) show ?thesis
    by (simp add: is_ID_present_idq_def)
next
  case (Some e)
  then have "es \<noteq> []" by auto
  then have "qhead q \<noteq> 0" using queue_rep_null [OF assms(1)] by simp
  with find_cell_queue(2) [OF assms(1) Some] Some assms(2) show ?thesis
    by (auto simp: is_ID_present_idq_def)
qed

lemma lookup_ID_rep:
  assumes "queue_rep d q es" and "s \<noteq> []"
  shows "lookup_ID_idq q (Some s) now node =
           Inr (case find (has_id s) es of None \<Rightarrow> (0, 0, node)
                | Some e \<Rightarrow> (1, elapsed_ms now (ATime e),
                    node\<lparr>tq_id := s, is_expired := is_expired e,
                         callback_f := callback_f e, callback_param := callback_param e\<rparr>))"
proof (cases "find (has_id s) es")
  case None
  with find_cell_queue(1) [OF assms(1) None] assms(2) show ?thesis
    by (simp add: lookup_ID_idq_def)
next
  case (Some e)
  then have "es \<noteq> []" by auto
  then have "qhead q \<noteq> 0" using queue_rep_null [OF assms(1)] by simp
  with find_cell_queue(2) [OF assms(1) Some] Some assms(2) show ?thesis
    by (auto simp: lookup_ID_idq_def has_id_def Let_def)
qed

lemma update_entry_rep:
  assumes "queue_rep d q es" and "find (has_id s) es = Some e"
  shows "\<exists>q'. update_entry_idq q s now f p = Inr (tq_conn e, q') \<and>
              queue_rep d q' (upd_first (has_id s) (refresh now f p) es)"
proof -
  from assms(2) have "es \<noteq> []" by auto
  then have h: "qhead q \<noteq> 0" using queue_rep_null [OF assms(1)] by simp
  obtain a ys zs c where a: "find_cell (brk (qmem q)) (qmem q) (has_id s) (qhead q) = Inr a"
    "chain d (qmem q) (qhead q) (ys @ (a, e) # zs)" "es = map snd ys @ e # map snd zs"
    "a \<noteq> 0" "cells (qmem q) a = Some c" "c_val c = e" "has_id s e" "\<forall>w \<in> snd ` set ys. \<not> has_id s w"
    using find_cell_queue(2) [OF assms] by blast
  have ok: "mem_ok (qmem q)" using assms(1) by (simp add: queue_rep_def)
  from set_val_chain [OF a(2) ok, of "refresh now f p e"] obtain m' where
    m': "set_val (qmem q) a (refresh now f p e) = Inr m'"
    "chain d m' (qhead q) (ys @ (a, refresh now f p e) # zs)" "mem_ok m'" by blast
  have "upd_first (has_id s) (refresh now f p) es = map snd (ys @ (a, refresh now f p e) # zs)"
    using a by (simp add: upd_first_split)
  then have "queue_rep d (q\<lparr>qmem := m'\<rparr>) (upd_first (has_id s) (refresh now f p) es)"
    using m' unfolding queue_rep_def by auto
  then show ?thesis using a m' h by (simp add: update_entry_idq_def)
qed

lemma update_entry_absent:
  assumes "queue_rep d q es" and "find (has_id s) es = None"
  shows "update_entry_idq q s now f p = Inr (if es = [] then 0 else -1, q)"
  using find_cell_queue(1) [OF assms] queue_rep_null [OF assms(1)]
  by (simp add: update_entry_idq_def)

lemma add_entry_rep:
  assumes "queue_rep d q es" and "s \<noteq> []" and "assign_conn cl n g = Inr (con, g')"
  shows "\<exists>q'. add_entry_idq cl n q g (Some s) now f p = Inr (con, q', g') \<and>
              queue_rep d q' (es @ [new_entry s con now f p])"
proof -
  from assms(1) obtain xs where xs: "chain d (qmem q) (qhead q) xs" "map snd xs = es" "mem_ok (qmem q)"
    by (auto simp: queue_rep_def)
  obtain t m where tm: "calloc_cell tsid_zero (qmem q) = (t, m)" by force
  note c = calloc_cell_chain [OF xs(3,1) tm]
  let ?e = "new_entry s con now f p"
  let ?m = "m\<lparr>cells := (cells m)(t \<mapsto> \<lparr>c_val = ?e, c_prev = 0, c_next = 0\<rparr>)\<rparr>"
  have sv: "set_val m t ?e = Inr ?m" using c by (simp add: set_val_def modify_def)
  have ok: "mem_ok ?m" using mem_ok_upd [OF c(2) c(5)] .
  have ch: "chain d ?m (qhead q) xs" using c(1,4) by (simp add: chain_def)
  from link_last_chain [OF ch ok c(4), of ?e] obtain h m' where
    "link_last ?m (qhead q) t = Inr (h, m')" "chain d m' h (xs @ [(t, ?e)])" "mem_ok m'"
    by auto
  moreover from this have "queue_rep d \<lparr>qhead = h, qmem = m'\<rparr> (es @ [?e])"
    using xs(2) unfolding queue_rep_def by auto
  ultimately show ?thesis using tm sv assms(2,3) by (simp add: add_entry_idq_def)
qed

text \<open>An empty id leaves the queue alone, but for the node that was allocated.\<close>

lemma add_entry_empty:
  assumes "queue_rep d q es"
  shows "\<exists>q'. add_entry_idq cl n q g (Some []) now f p = Inr (-1, q', g) \<and> queue_rep d q' es"
proof -
  from assms obtain xs where xs: "chain d (qmem q) (qhead q) xs" "map snd xs = es" "mem_ok (qmem q)"
    by (auto simp: queue_rep_def)
  obtain t m where tm: "calloc_cell tsid_zero (qmem q) = (t, m)" by force
  with calloc_cell_chain [OF xs(3,1) tm] xs(2) show ?thesis
    by (auto simp: add_entry_idq_def queue_rep_def)
qed

fun mark_all :: "(nat \<Rightarrow> timeval) \<Rightarrow> nat \<Rightarrow> tsidque_t list \<Rightarrow> tsidque_t list" where
  "mark_all nows i [] = []"
| "mark_all nows i (e # es) = mark_expired (nows i) e # mark_all nows (Suc i) es"

lemma mark_expired_less: "mark_expired now e = (if ETime e < now then e\<lparr>is_expired := 1\<rparr> else e)"
  by (simp add: mark_expired_def overdue_def less_timeval_def)

text \<open>Whether a pass that reads these times can log every entry it finds expired.\<close>

fun marks_ok :: "(addr \<Rightarrow> bool) \<Rightarrow> (nat \<Rightarrow> timeval) \<Rightarrow> nat \<Rightarrow> tsidque_t list \<Rightarrow> bool" where
  "marks_ok strs nows i [] \<longleftrightarrow> True"
| "marks_ok strs nows i (e # es) \<longleftrightarrow> log_expired strs (nows i) e = Inr () \<and> marks_ok strs nows (Suc i) es"

lemma log_expired_less: "log_expired strs now e = (if ETime e < now then log_str strs (callback_param e) else Inr ())"
  by (simp add: log_expired_def overdue_def less_timeval_def)

lemma marks_ok_nth:
  "marks_ok strs nows i es \<longleftrightarrow>
     (\<forall>j < length es. ETime (es ! j) < nows (i + j) \<longrightarrow> log_str strs (callback_param (es ! j)) = Inr ())"
  by (induction es arbitrary: i) (auto simp: log_expired_less less_Suc_eq_0_disj nth_Cons' split: if_splits)

lemma length_mark_all [simp]: "length (mark_all nows i es) = length es"
  by (induction es arbitrary: i) auto

lemma expired_loop_chain:
  "chain d m h (ys @ xs) \<Longrightarrow> mem_ok m \<Longrightarrow> seg d m (lastp 0 ys) p xs 0 \<Longrightarrow> length xs \<le> k \<Longrightarrow>
   if marks_ok strs nows i (map snd xs)
   then \<exists>m'. expired_loop strs k nows i m p = Inr m' \<and> mem_ok m' \<and>
        chain d m' h (ys @ zip (map fst xs) (mark_all nows i (map snd xs)))
   else \<exists>x. expired_loop strs k nows i m p = Inl (UB x)"
proof (induction xs arbitrary: m ys p k i)
  case Nil
  then show ?case by (cases k) auto
next
  case (Cons x xs)
  obtain a v where x: "x = (a, v)" by force
  obtain j where k: "k = Suc j" using Cons.prems(4) by (cases k) auto
  from Cons.prems(3) x obtain c where c: "p = a" "a \<noteq> 0" "cells m a = Some c" "c_val c = v"
    "d \<longrightarrow> c_prev c = lastp 0 ys" "seg d m a (c_next c) xs 0"
    by (auto simp: seg_Cons_iff)
  let ?w = "mark_expired (nows i) v"
  from set_val_chain [of d m h ys a v xs ?w] Cons.prems(1,2) x obtain m1 where
    m1: "set_val m a ?w = Inr m1" "chain d m1 h (ys @ (a, ?w) # xs)" "mem_ok m1" by auto
  have "a \<notin> fst ` set xs" using chain_distinct [OF Cons.prems(1)] x by auto
  then have "seg d m1 a (c_next c) xs 0"
    using m1(1) c by (auto simp: set_val_def modify_def)
  then have "seg d m1 (lastp 0 (ys @ [(a, ?w)])) (c_next c) xs 0" by simp
  from Cons.IH [of m1 "ys @ [(a, ?w)]" "c_next c" j "Suc i"] this m1 Cons.prems(4) k
  have IH: "if marks_ok strs nows (Suc i) (map snd xs)
     then \<exists>m'. expired_loop strs j nows (Suc i) m1 (c_next c) = Inr m' \<and> mem_ok m' \<and>
        chain d m' h (ys @ (a, ?w) # zip (map fst xs) (mark_all nows (Suc i) (map snd xs)))
     else \<exists>x. expired_loop strs j nows (Suc i) m1 (c_next c) = Inl (UB x)" by (simp split: if_splits)
  show ?case
  proof (cases "log_expired strs (nows i) v = Inr ()")
    case True
    with IH c m1 x k show ?thesis by (auto split: if_splits)
  next
    case False
    then have "\<exists>f. log_expired strs (nows i) v = Inl (UB f)"
      using log_str_fault by (auto simp: log_expired_def split: if_splits)
    with c x k show ?thesis by auto
  qed
qed

lemma list_expired_rep:
  assumes "queue_rep d q es"
  shows "if marks_ok strs nows 0 es
    then \<exists>q'. list_expired_idq strs q nows = Inr q' \<and> queue_rep d q' (mark_all nows 0 es)
    else \<exists>x. list_expired_idq strs q nows = Inl (UB x)"
proof (cases "marks_ok strs nows 0 es")
  case True
  from assms obtain xs where xs: "chain d (qmem q) (qhead q) xs" "map snd xs = es" "mem_ok (qmem q)"
    by (auto simp: queue_rep_def)
  have "length xs \<le> brk (qmem q)" using chain_fuel [OF xs(1,3)] by simp
  with expired_loop_chain [of d "qmem q" "qhead q" "[]" xs "qhead q" "brk (qmem q)" strs nows 0] xs True
  obtain m' where "expired_loop strs (brk (qmem q)) nows 0 (qmem q) (qhead q) = Inr m'" "mem_ok m'"
    "chain d m' (qhead q) (zip (map fst xs) (mark_all nows 0 es))"
    by (auto simp: chain_def)
  moreover have "map snd (zip (map fst xs) (mark_all nows 0 es)) = mark_all nows 0 es"
    using xs(2) by (intro map_snd_zip) auto
  ultimately show ?thesis using True by (auto simp: list_expired_idq_def queue_rep_def)
next
  case False
  from assms obtain xs where xs: "chain d (qmem q) (qhead q) xs" "map snd xs = es" "mem_ok (qmem q)"
    by (auto simp: queue_rep_def)
  have "length xs \<le> brk (qmem q)" using chain_fuel [OF xs(1,3)] by simp
  with expired_loop_chain [of d "qmem q" "qhead q" "[]" xs "qhead q" "brk (qmem q)" strs nows 0] xs False
  have "\<exists>x. expired_loop strs (brk (qmem q)) nows 0 (qmem q) (qhead q) = Inl (UB x)" by (auto simp: chain_def)
  then show ?thesis using False by (auto simp: list_expired_idq_def)
qed

abbreviation has_id2 :: "string \<Rightarrow> addr \<times> tsidque_t \<Rightarrow> bool" where
  "has_id2 s \<equiv> \<lambda>x. has_id s (snd x)"

lemma map_rem_first: "map snd (rem_first (\<lambda>x. P (snd x)) xs) = rem_first P (map snd xs)"
  by (induction xs) auto

lemma rem_loop_seg:
  "seg False m q a ((a, v) # xs) 0 \<Longrightarrow> mem_ok m \<Longrightarrow> length xs < k \<Longrightarrow>
   \<exists>m'. rem_loop k s m a = Inr m' \<and> seg False m' q a ((a, v) # rem_first (has_id2 s) xs) 0 \<and>
        mem_ok m' \<and> (\<forall>b. b \<notin> fst ` set ((a, v) # xs) \<longrightarrow> cells m' b = cells m b)"
proof (induction k arbitrary: q a v xs)
  case 0
  then show ?case by simp
next
  case (Suc k)
  from Suc.prems(1) obtain c where c: "a \<noteq> 0" "cells m a = Some c" "c_val c = v"
    "seg False m a (c_next c) xs 0" by (auto simp: seg_Cons_iff)
  show ?case
  proof (cases xs)
    case Nil
    with Suc.prems c show ?thesis by (intro exI [of _ m]) simp
  next
    case (Cons x ys)
    obtain b w where x: "x = (b, w)" by force
    from c(4) Cons x obtain d where d: "c_next c = b" "b \<noteq> 0" "cells m b = Some d" "c_val d = w"
      "seg False m b (c_next d) ys 0" by (auto simp: seg_Cons_iff)
    from seg_distinct [OF Suc.prems(1)] Cons x
    have dist: "a \<noteq> b" "a \<notin> fst ` set ys" "b \<notin> fst ` set ys" by auto
    show ?thesis
    proof (cases "has_id s w")
      case True
      let ?m1 = "m\<lparr>cells := (cells m)(a \<mapsto> c\<lparr>c_next := c_next d\<rparr>)\<rparr>"
      let ?m2 = "?m1\<lparr>cells := (cells ?m1)(b := None)\<rparr>"
      have "rem_loop (Suc k) s m a = Inr ?m2"
        using c d True dist by (simp add: set_next_def modify_def free_cell_def)
      moreover have "seg False ?m2 a (c_next d) ys 0 = seg False m a (c_next d) ys 0"
        by (rule seg_cong) (use dist in auto)
      moreover have "seg False m a (c_next d) ys 0"
        using d(5) by (cases ys) (auto simp: seg_Cons_iff)
      moreover have "mem_ok ?m2" by (rule mem_ok_del [OF mem_ok_upd [OF Suc.prems(2) c(2)]])
      ultimately show ?thesis using c d True Cons x dist by (auto simp: seg_Cons_iff)
    next
      case False
      have "seg False m a b ((b, w) # ys) 0" using d by (auto simp: seg_Cons_iff)
      from Suc.IH [OF this Suc.prems(2)] Suc.prems(3) Cons obtain m' where
        m': "rem_loop k s m b = Inr m'" "seg False m' a b ((b, w) # rem_first (has_id2 s) ys) 0"
        "mem_ok m'" "\<forall>z. z \<notin> fst ` set ((b, w) # ys) \<longrightarrow> cells m' z = cells m z" by auto
      have "cells m' a = Some c" using m'(4) dist c(2) by auto
      then show ?thesis using c d False Cons x m' by (auto simp: seg_Cons_iff)
    qed
  qed
qed

lemma rem_id_rep:
  assumes "queue_rep d q es"
  shows "\<exists>q'. rem_id q s = Inr q' \<and> queue_rep False q' (rem_first (has_id s) es)"
proof -
  from queue_rep_weaken [OF assms] obtain xs where
    xs: "chain False (qmem q) (qhead q) xs" "map snd xs = es" "mem_ok (qmem q)"
    by (auto simp: queue_rep_def)
  show ?thesis
  proof (cases xs)
    case Nil
    with xs queue_rep_weaken [OF assms] show ?thesis by (auto simp: rem_id_def)
  next
    case (Cons x ys)
    obtain a v where x: "x = (a, v)" by force
    have sg: "seg False (qmem q) 0 a ((a, v) # ys) 0" and h: "qhead q = a"
      using xs(1) Cons x by (auto simp: chain_def seg_Cons_iff)
    then obtain c where c: "a \<noteq> 0" "cells (qmem q) a = Some c" "c_val c = v"
      "seg False (qmem q) a (c_next c) ys 0" by (auto simp: seg_Cons_iff)
    have a: "a \<notin> fst ` set ys" using chain_distinct [OF xs(1)] Cons x by simp
    show ?thesis
    proof (cases "has_id s v")
      case True
      let ?m = "(qmem q)\<lparr>cells := (cells (qmem q))(a := None)\<rparr>"
      have "seg False ?m 0 (c_next c) ys 0" using c(4) a by (cases ys) (auto simp: seg_Cons_iff)
      then have "queue_rep False \<lparr>qhead = c_next c, qmem = ?m\<rparr> (map snd ys)"
        using mem_ok_del [OF xs(3)] by (auto simp: queue_rep_def chain_def)
      with True c h xs(2) Cons x show ?thesis by (auto simp: rem_id_def free_cell_def)
    next
      case False
      have "length ys < brk (qmem q)" using chain_fuel [OF xs(1,3)] Cons by simp
      from rem_loop_seg [OF sg xs(3) this, of s] obtain m' where
        m': "rem_loop (brk (qmem q)) s (qmem q) a = Inr m'"
        "seg False m' 0 a ((a, v) # rem_first (has_id2 s) ys) 0" "mem_ok m'" by auto
      then have "queue_rep False (q\<lparr>qmem := m'\<rparr>) (v # rem_first (has_id s) (map snd ys))"
        unfolding queue_rep_def using h map_rem_first [of "has_id s" ys]
        by (auto simp: chain_def intro!: exI [of _ "(a, v) # rem_first (has_id2 s) ys"])
      with False c h m' xs(2) Cons x show ?thesis by (auto simp: rem_id_def)
    qed
  qed
qed

subsection \<open>The contract of the session queue\<close>

text \<open>
  What the producers (\<open>push_to_msgq\<close>) and the receiver threads rely on: each operation as
  an operation on the list of entries. The client's lemmas say which callback a response
  reaches.
\<close>

locale session_table =
  fixes rep :: "'q \<Rightarrow> tsidque_t list \<Rightarrow> bool"
    and present :: "'q \<Rightarrow> string option \<Rightarrow> int \<Rightarrow> (int \<times> int) res"
    and lookup :: "'q \<Rightarrow> string option \<Rightarrow> timeval \<Rightarrow> tsidque_t \<Rightarrow> (int \<times> int \<times> tsidque_t) res"
    and update :: "'q \<Rightarrow> string \<Rightarrow> timeval \<Rightarrow> addr \<Rightarrow> addr \<Rightarrow> (int \<times> 'q) res"
    and add :: "con_t list \<Rightarrow> int \<Rightarrow> 'q \<Rightarrow> int \<Rightarrow> string option \<Rightarrow> timeval \<Rightarrow> addr \<Rightarrow> addr \<Rightarrow>
                (int \<times> 'q \<times> int) res"
    and expire :: "(addr \<Rightarrow> bool) \<Rightarrow> 'q \<Rightarrow> (nat \<Rightarrow> timeval) \<Rightarrow> 'q res"
    and remove :: "'q \<Rightarrow> string \<Rightarrow> 'q res"
  assumes present_law: "rep q es \<Longrightarrow> s \<noteq> [] \<Longrightarrow> present q (Some s) conn =
      Inr (case find (has_id s) es of None \<Rightarrow> (0, conn) | Some e \<Rightarrow> (1, tq_conn e))"
    and lookup_law: "rep q es \<Longrightarrow> s \<noteq> [] \<Longrightarrow> lookup q (Some s) now node =
      Inr (case find (has_id s) es of None \<Rightarrow> (0, 0, node)
           | Some e \<Rightarrow> (1, elapsed_ms now (ATime e),
               node\<lparr>tq_id := s, is_expired := is_expired e,
                    callback_f := callback_f e, callback_param := callback_param e\<rparr>))"
    and update_law: "rep q es \<Longrightarrow> find (has_id s) es = Some e \<Longrightarrow>
      \<exists>q'. update q s now f p = Inr (tq_conn e, q') \<and>
           rep q' (upd_first (has_id s) (refresh now f p) es)"
    and add_law: "rep q es \<Longrightarrow> s \<noteq> [] \<Longrightarrow> assign_conn cl n g = Inr (con, g') \<Longrightarrow>
      \<exists>q'. add cl n q g (Some s) now f p = Inr (con, q', g') \<and>
           rep q' (es @ [new_entry s con now f p])"
    and expire_law: "rep q es \<Longrightarrow>
      if marks_ok strs nows 0 es then \<exists>q'. expire strs q nows = Inr q' \<and> rep q' (mark_all nows 0 es)
      else \<exists>x. expire strs q nows = Inl (UB x)"
    and remove_law: "rep q es \<Longrightarrow> \<exists>q'. remove q s = Inr q' \<and> rep q' (rem_first (has_id s) es)"
begin

lemma lookup_after_add:
  assumes "rep q es" "s \<noteq> []" "find (has_id s) es = None" "assign_conn cl n g = Inr (con, g')"
  shows "\<exists>q'. add cl n q g (Some s) now f p = Inr (con, q', g') \<and>
    (\<forall>t node. lookup q' (Some s) t node = Inr (1, elapsed_ms t now,
        node\<lparr>tq_id := s, is_expired := 0, callback_f := f, callback_param := p\<rparr>))"
proof -
  from add_law [OF assms(1,2,4), of now f p] obtain q' where
    q': "add cl n q g (Some s) now f p = Inr (con, q', g')" "rep q' (es @ [new_entry s con now f p])"
    by blast
  have "find (has_id s) (es @ [new_entry s con now f p]) = Some (new_entry s con now f p)"
    using assms(3) by (subst find_skip) (auto simp: find_None_iff has_id_def new_entry_def)
  with q' lookup_law [OF q'(2) assms(2)] show ?thesis by (auto simp: new_entry_def)
qed

lemma find_upd_first:
  "find (has_id s) es = Some e \<Longrightarrow>
   find (has_id s) (upd_first (has_id s) (refresh now f p) es) = Some (refresh now f p e)"
  by (induction es) (auto simp: has_id_def refresh_def split: if_splits)

text \<open>An update replaces the callback and the times, but leaves \<open>is_expired\<close>.\<close>

lemma lookup_after_update:
  assumes "rep q es" "s \<noteq> []" "find (has_id s) es = Some e"
  shows "\<exists>q'. update q s now f p = Inr (tq_conn e, q') \<and>
    (\<forall>t node. lookup q' (Some s) t node = Inr (1, elapsed_ms t now,
        node\<lparr>tq_id := s, is_expired := is_expired e, callback_f := f, callback_param := p\<rparr>))"
proof -
  from update_law [OF assms(1,3), of now f p] obtain q' where
    q': "update q s now f p = Inr (tq_conn e, q')"
    "rep q' (upd_first (has_id s) (refresh now f p) es)" by blast
  with lookup_law [OF q'(2) assms(2)] find_upd_first [OF assms(3)] show ?thesis
    by (auto simp: refresh_def)
qed

lemma rem_first_distinct:
  "distinct (map tq_id es) \<Longrightarrow> find (has_id s) (rem_first (has_id s) es) = None"
  by (induction es) (auto simp: find_None_iff has_id_def, metis imageI)

lemma lookup_after_remove:
  assumes "rep q es" "s \<noteq> []" "distinct (map tq_id es)"
  shows "\<exists>q'. remove q s = Inr q' \<and> (\<forall>t node. lookup q' (Some s) t node = Inr (0, 0, node))"
proof -
  from remove_law [OF assms(1), of s] obtain q' where
    q': "remove q s = Inr q'" "rep q' (rem_first (has_id s) es)" by blast
  with lookup_law [OF q'(2) assms(2)] rem_first_distinct [OF assms(3)] show ?thesis by auto
qed

lemma find_rem_first_other:
  "s \<noteq> t \<Longrightarrow> find (has_id t) (rem_first (has_id s) es) = find (has_id t) es"
  by (induction es) (auto simp: has_id_def)

lemma lookup_after_remove_other:
  assumes "rep q es" "t \<noteq> []" "s \<noteq> t"
  shows "\<exists>q'. remove q s = Inr q' \<and> (\<forall>now node. lookup q' (Some t) now node = lookup q (Some t) now node)"
proof -
  from remove_law [OF assms(1), of s] obtain q' where
    q': "remove q s = Inr q'" "rep q' (rem_first (has_id s) es)" by blast
  with lookup_law [OF q'(2) assms(2)] lookup_law [OF assms(1,2)] find_rem_first_other [OF assms(3)]
  show ?thesis by auto
qed

end

interpretation idq: session_table "queue_rep False" is_ID_present_idq lookup_ID_idq
  update_entry_idq add_entry_idq list_expired_idq rem_id
  by unfold_locales
    (fact is_ID_present_rep lookup_ID_rep list_expired_rep | blast intro: update_entry_rep add_entry_rep rem_id_rep)+

subsection \<open>Properties\<close>

text \<open>C9. Choosing a connection ends exactly when some peer is up: it then returns the first
  connection in round-robin order, from \<open>glast_con_rr\<close>, whose state is 1, and moves
  \<open>glast_con_rr\<close> just past it, inside \<open>0 .. num_peers - 1\<close>; with every peer down the loop at
  \<open>reassign_conn\<close> never ends. (The connections are those of one moment: a receiver that reconnects
  a peer while the loop runs would end it.)\<close>

theorem assign_conn_total:
  assumes "0 \<le> g" "g < n" "n \<le> int (length cl)"
  shows "case assign_conn cl n g of
      Inl e \<Rightarrow> e = Hang \<and> (\<forall>c < nat n. state (cl ! c) \<noteq> 1)
    | Inr (con, g') \<Rightarrow> 0 \<le> con \<and> con < n \<and> state (cl ! nat con) = 1 \<and> g' = (con + 1) mod n \<and>
        (\<exists>k. con = (g + int k) mod n \<and> (\<forall>j < k. state (cl ! nat ((g + int j) mod n)) \<noteq> 1))"
proof (cases "find (con_up cl) (tried n g (nat n))")
  case None
  then have "\<forall>c \<in> {0..<nat n}. \<not> con_up cl c"
    using tried_set [OF assms(1,2)] by (auto simp: find_None_iff)
  with None show ?thesis by (auto simp: assign_conn_find [OF assms] con_up_def)
next
  case (Some c)
  from find_split [OF this] obtain ys zs where
    t: "tried n g (nat n) = ys @ c # zs" "con_up cl c" "\<forall>y \<in> set ys. \<not> con_up cl y" by auto
  let ?k = "length ys"
  have at: "(ys @ c # zs) ! j = nat ((g + int j) mod n)" if "j \<le> ?k" for j
  proof -
    have "length (tried n g (nat n)) = length (ys @ c # zs)" by (simp only: t(1))
    then have "j < nat n" using that by (simp add: tried_def)
    then show ?thesis unfolding t(1) [symmetric] by (simp add: tried_def)
  qed
  have n: "0 < n" using assms by simp
  have c: "int c = (g + int ?k) mod n" using at [of ?k] n by (simp add: nth_append)
  have "\<not> con_up cl (nat ((g + int j) mod n))" if "j < ?k" for j
  proof -
    have "ys ! j \<in> set ys" using that by simp
    moreover have "ys ! j = nat ((g + int j) mod n)" using at [of j] that by (simp add: nth_append)
    ultimately show ?thesis using t(3) by auto
  qed
  moreover have "0 \<le> int c" "int c < n" using c n by auto
  moreover from this have "bump n (int c) = (int c + 1) mod n" by (rule bump_mod)
  moreover have "state (cl ! nat (int c)) = 1" using t(2) by (simp add: con_up_def)
  moreover have "assign_conn cl n g = Inr (int c, bump n (int c))"
    using Some by (simp add: assign_conn_find [OF assms])
  ultimately show ?thesis using c by (simp add: con_up_def) blast
qed

definition peers_demo :: "con_t list" where
  "peers_demo = [\<lparr>fd = 3, state = 0, peer_id = 0\<rparr>, \<lparr>fd = 4, state = 1, peer_id = 1\<rparr>]"

theorem assign_conn_total_witness:
  "assign_conn peers_demo 2 0 = Inr (1, 0) \<and>
   (case assign_conn peers_demo 2 0 of
      Inl e \<Rightarrow> e = Hang \<and> (\<forall>c < nat 2. state (peers_demo ! c) \<noteq> 1)
    | Inr (con, g') \<Rightarrow> 0 \<le> con \<and> con < 2 \<and> state (peers_demo ! nat con) = 1 \<and> g' = (con + 1) mod 2 \<and>
        (\<exists>k. con = (0 + int k) mod 2 \<and> (\<forall>j < k. state (peers_demo ! nat ((0 + int j) mod 2)) \<noteq> 1)))"
proof -
  have "assign_conn peers_demo 2 0 = Inr (1, 0)" by code_simp
  moreover have "(0::int) \<le> 0" "(0::int) < 2" "2 \<le> int (length peers_demo)"
    by (simp_all add: peers_demo_def)
  ultimately show ?thesis using assign_conn_total [of 0 2 peers_demo] by blast
qed

text \<open>The connections given to new sessions that come one after the other.\<close>

fun assign_many :: "con_t list \<Rightarrow> int \<Rightarrow> nat \<Rightarrow> int \<Rightarrow> (int list \<times> int) res" where
  "assign_many cl n 0 g = Inr ([], g)"
| "assign_many cl n (Suc k) g = bindE (assign_conn cl n g) (\<lambda>(con, g).
     bindE (assign_many cl n k g) (\<lambda>(cs, g). Inr (con # cs, g)))"

lemma assign_many_up:
  "0 \<le> g \<Longrightarrow> g < n \<Longrightarrow> n \<le> int (length cl) \<Longrightarrow> \<forall>c < nat n. state (cl ! c) = 1 \<Longrightarrow>
   assign_many cl n k g = Inr (map int (tried n g k), (g + int k) mod n)"
proof (induction k arbitrary: g)
  case 0
  then show ?case by (simp add: tried_def)
next
  case (Suc k)
  have "nat g < nat n" using Suc.prems by simp
  then have "con_up cl (nat g)" using Suc.prems(4) by (simp add: con_up_def)
  from assign_conn_here [OF Suc.prems(1-3) this]
  have a: "assign_conn cl n g = Inr (g, bump n g)" .
  have "(bump n g + int k) mod n = (g + int (Suc k)) mod n"
    using Suc.prems by (simp add: bump_mod mod_simps algebra_simps)
  with a Suc bump_range [of g n] show ?case by (simp add: tried_Suc del: of_nat_Suc)
qed

text \<open>C35. With all peers up, any \<open>num_peers\<close> consecutive new sessions are spread over all the
  peers, one each, and \<open>glast_con_rr\<close> is back where it started.\<close>

theorem round_robin_balanced:
  assumes "0 \<le> g" "g < n" "n \<le> int (length cl)" "\<forall>c < nat n. state (cl ! c) = 1"
  shows "\<exists>cs. assign_many cl n (nat n) g = Inr (cs, g) \<and> distinct cs \<and> set cs = {0..<n}"
proof -
  let ?t = "tried n g (nat n)"
  have "assign_many cl n (nat n) g = Inr (map int ?t, g)"
    using assign_many_up [OF assms, of "nat n"] assms by simp
  moreover have "set ?t = {0..<nat n}" by (rule tried_set [OF assms(1,2)])
  then have "card (set ?t) = length ?t" by (simp add: tried_def)
  then have "distinct ?t" by (rule card_distinct)
  moreover have "int ` {0..<nat n} = {0..<n}"
    using image_int_atLeastLessThan [of 0 "nat n"] assms by simp
  ultimately show ?thesis using \<open>set ?t = _\<close> by (auto simp: distinct_map)
qed

definition peers_up :: "con_t list" where
  "peers_up = [\<lparr>fd = 3, state = 1, peer_id = 0\<rparr>, \<lparr>fd = 4, state = 1, peer_id = 1\<rparr>]"

lemma peers_up_all: "\<forall>c < nat 2. state (peers_up ! c) = 1"
  by (auto simp: peers_up_def less_Suc_eq numeral_2_eq_2)

theorem round_robin_balanced_witness:
  "\<exists>cs. assign_many peers_up 2 (nat 2) 1 = Inr (cs, 1) \<and> distinct cs \<and> set cs = {0..<2}"
  using round_robin_balanced [OF _ _ _ peers_up_all, of 1] by (simp add: peers_up_def)

text \<open>The elapsed time a lookup reports for a session is never negative, and differs from
  the real time since the session's last push by less than a millisecond.\<close>

theorem lookup_elapsed_accurate:
  assumes "queue_rep d q es" "s \<noteq> []" "find (has_id s) es = Some e"
    and "timeval_ok (ATime e)" "timeval_ok now" "ATime e \<le> now"
  shows "\<exists>ms node'. lookup_ID_idq q (Some s) now node = Inr (1, ms, node') \<and> 0 \<le> ms \<and>
           \<bar>ms * 1000 - (timeval_usecs now - timeval_usecs (ATime e))\<bar> < 1000"
proof -
  let ?u = "tv_usec now - tv_usec (ATime e)" and ?s = "tv_sec now - tv_sec (ATime e)"
  have b: "\<bar>?u - c_div ?u 1000 * 1000\<bar> < 1000" by (rule c_div_bounds) simp
  have "\<bar>elapsed_ms now (ATime e) * 1000 - (timeval_usecs now - timeval_usecs (ATime e))\<bar> < 1000"
    using b by (simp add: elapsed_ms_def timeval_usecs_def algebra_simps abs_if split: if_splits)
  moreover have "0 \<le> elapsed_ms now (ATime e)"
    using b assms(4-6)
    by (auto simp: elapsed_ms_def timeval_ok_def less_eq_timeval_def c_div_def abs_if split: if_splits)
  ultimately show ?thesis using lookup_ID_rep [OF assms(1,2), of now node] assms(3) by simp
qed

definition entry_demo :: tsidque_t where
  "entry_demo = new_entry ''t1'' 0 (Timeval 10 900000) 7 8"

theorem lookup_elapsed_accurate_witness:
  "\<exists>ms node'. lookup_ID_idq (mk_queue [entry_demo]) (Some ''t1'') (Timeval 12 100500) tsid_zero =
       Inr (1, ms, node') \<and> 0 \<le> ms \<and>
     \<bar>ms * 1000 - (timeval_usecs (Timeval 12 100500) - timeval_usecs (ATime entry_demo))\<bar> < 1000"
  by (rule lookup_elapsed_accurate [where d = True and es = "[entry_demo]"])
    (simp_all add: entry_demo_def new_entry_def has_id_def timeval_ok_def less_eq_timeval_def)

text \<open>A session that was not in the queue is found after \<open>add_entry_idq\<close>, unexpired and with
  the callback and parameter it was added with, at any later time.\<close>

lemma lookup_finds_added:
  assumes "queue_rep False q es" "s \<noteq> []" "find (has_id s) es = None" "assign_conn cl n g = Inr (con, g')"
  shows "\<exists>q'. add_entry_idq cl n q g (Some s) now f p = Inr (con, q', g') \<and>
    (\<forall>t node. lookup_ID_idq q' (Some s) t node = Inr (1, elapsed_ms t now,
        node\<lparr>tq_id := s, is_expired := 0, callback_f := f, callback_param := p\<rparr>))"
  using assms by (rule idq.lookup_after_add)

text \<open>Pushing again on a known session replaces its callback and restarts its clock but
  leaves its expiry mark: a session marked expired stays so, and its next response is
  reported as a timeout.\<close>

theorem update_keeps_expired:
  assumes "queue_rep False q es" "s \<noteq> []" "find (has_id s) es = Some e"
  shows "\<exists>q'. update_entry_idq q s now f p = Inr (tq_conn e, q') \<and>
    (\<forall>t node. lookup_ID_idq q' (Some s) t node = Inr (1, elapsed_ms t now,
        node\<lparr>tq_id := s, is_expired := is_expired e, callback_f := f, callback_param := p\<rparr>))"
  using assms by (rule idq.lookup_after_update)

theorem update_keeps_expired_witness:
  "\<exists>q'. update_entry_idq (mk_queue [entry_demo\<lparr>is_expired := 1\<rparr>]) ''t1'' (Timeval 99 0) 11 12 = Inr (0, q') \<and>
    (\<forall>t node. lookup_ID_idq q' (Some ''t1'') t node = Inr (1, elapsed_ms t (Timeval 99 0),
        node\<lparr>tq_id := ''t1'', is_expired := 1, callback_f := 11, callback_param := 12\<rparr>))"
  using update_keeps_expired [of "mk_queue [entry_demo\<lparr>is_expired := 1\<rparr>]" "[entry_demo\<lparr>is_expired := 1\<rparr>]"
      "''t1''" "entry_demo\<lparr>is_expired := 1\<rparr>" "Timeval 99 0" 11 12]
  by (simp add: entry_demo_def new_entry_def has_id_def)

lemma mark_all_nth:
  "i < length es \<Longrightarrow> mark_all nows k es ! i =
     (if ETime (es ! i) < nows (k + i) then (es ! i)\<lparr>is_expired := 1\<rparr> else es ! i)"
proof (induction es arbitrary: i k)
  case (Cons e es)
  then show ?case by (cases i) (auto simp: mark_expired_less)
qed simp

text \<open>\<open>rem_id\<close> closes one session: with distinct ids its id is no longer found, and the lookup
  of every other id gives what it gave before.\<close>

theorem rem_id_closes_one:
  assumes "queue_rep False q es" "s \<noteq> []" "distinct (map tq_id es)" "t \<noteq> []" "s \<noteq> t"
  shows "\<exists>q'. rem_id q s = Inr q' \<and>
    (\<forall>now node. lookup_ID_idq q' (Some s) now node = Inr (0, 0, node)) \<and>
    (\<forall>now node. lookup_ID_idq q' (Some t) now node = lookup_ID_idq q (Some t) now node)"
  using idq.lookup_after_remove [OF assms(1-3)] idq.lookup_after_remove_other [OF assms(1,4,5)]
  by auto

theorem rem_id_closes_one_witness:
  "\<exists>q'. rem_id (mk_queue [entry_demo\<lparr>tq_id := ''t0''\<rparr>, entry_demo]) ''t1'' = Inr q' \<and>
    (\<forall>now node. lookup_ID_idq q' (Some ''t1'') now node = Inr (0, 0, node)) \<and>
    (\<forall>now node. lookup_ID_idq q' (Some ''t0'') now node =
      lookup_ID_idq (mk_queue [entry_demo\<lparr>tq_id := ''t0''\<rparr>, entry_demo]) (Some ''t0'') now node)"
  by (rule rem_id_closes_one [where es = "[entry_demo\<lparr>tq_id := ''t0''\<rparr>, entry_demo]"])
    (simp_all add: entry_demo_def new_entry_def)

end
