(* ===== verification/MsgQueue.thy ===== *)
theory MsgQueue
  imports IdQueue
begin

section \<open>The message queue: \<^verbatim>\<open>task.c\<close>, lines 329 to 409\<close>

text \<open>
  \<open>gmsgq\<close> is one doubly linked list for all peers: a client thread pushes a message at its
  end with the connection of its session, the sender thread of a peer takes the first message
  of its connection out of it. A popped node stays allocated; the sender frees it.
\<close>

subsection \<open>The operations\<close>

definition for_conn :: "int \<Rightarrow> msgque_t \<Rightarrow> bool" where
  "for_conn con e \<longleftrightarrow> mq_conn e = con"

text \<open>
  Lines 350 to 358: the connection of a known session is reused and its entry is updated;
  otherwise (the \<open>else\<close> branch and the \<^verbatim>\<open>goto add\<close>) a new entry is added. The result is
  the connection, the session queue and \<open>glast_con_rr\<close>.
\<close>

definition session_conn ::
  "con_t list \<Rightarrow> int \<Rightarrow> tsidque_t lqueue \<Rightarrow> int \<Rightarrow> string \<Rightarrow> timeval \<Rightarrow> addr \<Rightarrow> addr \<Rightarrow>
   (int \<times> tsidque_t lqueue \<times> int) res" where
  "session_conn cl n iq g s now f p =
     bindE (is_ID_present_idq iq (Some s) (-1)) (\<lambda>(rc, con).
       if rc = 1 then
         bindE (update_entry_idq iq s now f p) (\<lambda>(ret, iq).
           if ret = -1 then add_entry_idq cl n iq g (Some s) now f p
           else Inr (con, iq, g))
       else add_entry_idq cl n iq g (Some s) now f p)"

definition msg_zero :: msgque_t where
  "msg_zero = \<lparr>mq_data = 0, mq_id = [], mq_len = 0, mq_conn = 0\<rparr>"

text \<open>A new node with payload \<open>v\<close> at the end of the queue.\<close>

definition enqueue :: "msgque_t lqueue \<Rightarrow> msgque_t \<Rightarrow> msgque_t lqueue res" where
  "enqueue q v =
     (let (temp, m) = calloc_cell msg_zero (qmem q) in
      bindE (set_val m temp v) (\<lambda>m.
      bindE (link_last m (qhead q) temp) (\<lambda>(h, m). Inr \<lparr>qhead = h, qmem = m\<rparr>)))"

text \<open>
  The node is allocated first in the code; it is private until it is linked, so the model
  allocates it in \<open>enqueue\<close>. With an empty id the function returns after the allocation.
\<close>

definition push_to_msgq ::
  "con_t list \<Rightarrow> int \<Rightarrow> msgque_t lqueue \<Rightarrow> tsidque_t lqueue \<Rightarrow> int \<Rightarrow> string option \<Rightarrow> int \<Rightarrow> addr \<Rightarrow>
   timeval \<Rightarrow> addr \<Rightarrow> addr \<Rightarrow> (msgque_t lqueue \<times> tsidque_t lqueue \<times> int) res" where
  "push_to_msgq cl n mq iq g tid len data now f p =
     (case tid of
        None \<Rightarrow> Inr (mq\<lparr>qmem := snd (calloc_cell msg_zero (qmem mq))\<rparr>, iq, g)
      | Some s \<Rightarrow>
          if s = [] then Inr (mq\<lparr>qmem := snd (calloc_cell msg_zero (qmem mq))\<rparr>, iq, g)
          else bindE (store_str KEY_SIZE s) (\<lambda>s.
               bindE (session_conn cl n iq g s now f p) (\<lambda>(con, iq, g).
               bindE (enqueue mq \<lparr>mq_data = data, mq_id = s, mq_len = len, mq_conn = con\<rparr>) (\<lambda>mq.
                 Inr (mq, iq, g)))))"

text \<open>The result is the node (0 for NULL) and the queue.\<close>

definition pop_from_msgq :: "msgque_t lqueue \<Rightarrow> int \<Rightarrow> (addr \<times> msgque_t lqueue) res" where
  "pop_from_msgq q con =
     (let temp = qhead q; m = qmem q in
      if temp = 0 then Inr (0, q)
      else bindE (load m temp) (\<lambda>c.
        if for_conn con (c_val c) then
          bindE (if c_next c \<noteq> 0 then set_prev m (c_next c) 0 else Inr m) (\<lambda>m1.
          bindE (set_prev m1 temp 0) (\<lambda>m1.
          bindE (set_next m1 temp 0) (\<lambda>m1. Inr (temp, \<lparr>qhead = c_next c, qmem = m1\<rparr>))))
        else
          bindE (find_cell (brk m) m (for_conn con) temp) (\<lambda>node.
            if node = 0 then Inr (0, q)
            else bindE (load m node) (\<lambda>d.
              bindE (if c_next d \<noteq> 0
                     then bindE (set_prev m (c_next d) (c_prev d)) (\<lambda>m1. set_next m1 (c_prev d) (c_next d))
                     else Inr m) (\<lambda>m1.
              bindE (set_prev m1 node 0) (\<lambda>m1.
              bindE (set_next m1 node 0) (\<lambda>m1. Inr (node, q\<lparr>qmem := m1\<rparr>))))))))"

subsection \<open>Pushing\<close>

lemma session_conn_known:
  assumes "queue_rep False iq es" "s \<noteq> []" "find (has_id s) es = Some e" "tq_conn e \<noteq> -1"
  shows "\<exists>iq'. session_conn cl n iq g s now f p = Inr (tq_conn e, iq', g) \<and>
               queue_rep False iq' (upd_first (has_id s) (refresh now f p) es)"
proof -
  from idq.update_law [OF assms(1,3), of now f p] obtain iq' where
    "update_entry_idq iq s now f p = Inr (tq_conn e, iq')"
    "queue_rep False iq' (upd_first (has_id s) (refresh now f p) es)" by blast
  with idq.present_law [OF assms(1,2), of "-1"] assms(3,4) show ?thesis
    by (simp add: session_conn_def)
qed

lemma session_conn_new:
  assumes "queue_rep False iq es" "s \<noteq> []" "find (has_id s) es = None"
    "assign_conn cl n g = Inr (con, g')"
  shows "\<exists>iq'. session_conn cl n iq g s now f p = Inr (con, iq', g') \<and>
               queue_rep False iq' (es @ [new_entry s con now f p])"
proof -
  from idq.add_law [OF assms(1,2,4), of now f p] obtain iq' where
    "add_entry_idq cl n iq g (Some s) now f p = Inr (con, iq', g')"
    "queue_rep False iq' (es @ [new_entry s con now f p])" by blast
  with idq.present_law [OF assms(1,2), of "-1"] assms(3) show ?thesis
    by (simp add: session_conn_def)
qed

lemma enqueue_rep:
  assumes "queue_rep d q ms"
  shows "\<exists>q'. enqueue q v = Inr q' \<and> queue_rep d q' (ms @ [v])"
proof -
  from assms obtain xs where xs: "chain d (qmem q) (qhead q) xs" "map snd xs = ms" "mem_ok (qmem q)"
    by (auto simp: queue_rep_def)
  obtain t m where tm: "calloc_cell msg_zero (qmem q) = (t, m)" by force
  note c = calloc_cell_chain [OF xs(3,1) tm]
  let ?m = "m\<lparr>cells := (cells m)(t \<mapsto> \<lparr>c_val = v, c_prev = 0, c_next = 0\<rparr>)\<rparr>"
  have sv: "set_val m t v = Inr ?m" using c by (simp add: set_val_def modify_def)
  have ok: "mem_ok ?m" using mem_ok_upd [OF c(2) c(5)] .
  have ch: "chain d ?m (qhead q) xs" using c(1,4) by (simp add: chain_def)
  from link_last_chain [OF ch ok c(4), of v] obtain h m' where
    "link_last ?m (qhead q) t = Inr (h, m')" "chain d m' h (xs @ [(t, v)])" "mem_ok m'"
    by auto
  moreover from this have "queue_rep d \<lparr>qhead = h, qmem = m'\<rparr> (ms @ [v])"
    using xs(2) unfolding queue_rep_def by auto
  ultimately show ?thesis using tm sv by (simp add: enqueue_def)
qed

subsection \<open>Popping\<close>

text \<open>
  The case the code treats differently: the first message for the connection is the last of a
  queue with at least one other message in front of it. Then \<^verbatim>\<open>if (temp->next)\<close> fails and
  nothing is unlinked.
\<close>

definition tail_only :: "int \<Rightarrow> msgque_t list \<Rightarrow> bool" where
  "tail_only con ms \<longleftrightarrow>
     2 \<le> length ms \<and> for_conn con (last ms) \<and> (\<forall>e \<in> set (butlast ms). \<not> for_conn con e)"

lemma pop_none:
  assumes "queue_rep d q ms" "find (for_conn con) ms = None"
  shows "pop_from_msgq q con = Inr (0, q)"
proof (cases ms)
  case Nil
  with queue_rep_null [OF assms(1)] show ?thesis by (simp add: pop_from_msgq_def)
next
  case (Cons v vs)
  with assms(1) obtain xs where "chain d (qmem q) (qhead q) xs" "map snd xs = v # vs"
    by (auto simp: queue_rep_def)
  then obtain a where "chain d (qmem q) (qhead q) ((a, v) # tl xs)" by (cases xs) auto
  then obtain c where "qhead q = a" "a \<noteq> 0" "cells (qmem q) a = Some c" "c_val c = v"
    by (auto simp: chain_def seg_Cons_iff)
  moreover have "\<not> for_conn con v" using assms(2) Cons by (auto split: if_splits)
  ultimately show ?thesis using find_cell_queue(1) [OF assms] by (simp add: pop_from_msgq_def)
qed

lemma pop_head:
  assumes "queue_rep True q (v # ms)" "for_conn con v"
  shows "\<exists>a q'. pop_from_msgq q con = Inr (a, q') \<and> queue_rep True q' ms \<and> a \<noteq> 0 \<and>
           cells (qmem q') a = Some \<lparr>c_val = v, c_prev = 0, c_next = 0\<rparr> \<and>
           (\<exists>m. free_cell (qmem q') a = Inr m \<and> queue_rep True (q'\<lparr>qmem := m\<rparr>) ms)"
proof -
  from assms(1) obtain x xs where x: "chain True (qmem q) (qhead q) (x # xs)"
    "map snd xs = ms" "snd x = v" and ok: "mem_ok (qmem q)"
    by (auto simp: queue_rep_def)
  obtain a where a: "x = (a, v)" using x(3) by (cases x) auto
  let ?m = "qmem q"
  from x(1) a obtain c where c: "qhead q = a" "a \<noteq> 0" "cells ?m a = Some c" "c_val c = v"
    "seg True ?m a (c_next c) xs 0" by (auto simp: chain_def seg_Cons_iff)
  have na: "a \<notin> fst ` set xs" using chain_distinct [OF x(1)] a by simp
  show ?thesis
  proof (cases xs)
    case Nil
    then have n: "c_next c = 0" using c(5) by simp
    let ?m1 = "?m\<lparr>cells := (cells ?m)(a \<mapsto> c\<lparr>c_prev := 0, c_next := 0\<rparr>)\<rparr>"
    have "pop_from_msgq q con = Inr (a, \<lparr>qhead = 0, qmem = ?m1\<rparr>)"
      using c n assms(2)
      by (simp add: pop_from_msgq_def set_prev_def set_next_def modify_def Let_def)
    moreover have "queue_rep True \<lparr>qhead = 0, qmem = ?m1\<rparr> ms"
      using Nil x(2) mem_ok_upd [OF ok c(3)] by (simp add: queue_rep_def)
    moreover have "\<exists>m. free_cell ?m1 a = Inr m \<and> queue_rep True (\<lparr>qhead = 0, qmem = m\<rparr> :: msgque_t lqueue) ms"
      using queue_rep_free [of True "\<lparr>qhead = 0, qmem = ?m1\<rparr>" "[]" a] c Nil x(2)
        mem_ok_upd [OF ok c(3)] by simp
    ultimately show ?thesis using c
      by (intro exI [of _ a] exI [of _ "\<lparr>qhead = 0, qmem = ?m1\<rparr>"]) simp
  next
    case (Cons y ys)
    obtain b w where y: "y = (b, w)" by force
    from c(5) Cons y obtain d where d: "c_next c = b" "b \<noteq> 0" "cells ?m b = Some d" "c_val d = w"
      "seg True ?m b (c_next d) ys 0" by (auto simp: seg_Cons_iff)
    have nb: "b \<noteq> a" "b \<notin> fst ` set ys" "a \<notin> fst ` set ys"
      using chain_distinct [OF x(1)] a Cons y by auto
    let ?m1 = "?m\<lparr>cells := (cells ?m)(b \<mapsto> d\<lparr>c_prev := 0\<rparr>)\<rparr>"
    let ?m2 = "?m1\<lparr>cells := (cells ?m1)(a \<mapsto> c\<lparr>c_prev := 0, c_next := 0\<rparr>)\<rparr>"
    have "pop_from_msgq q con = Inr (a, \<lparr>qhead = b, qmem = ?m2\<rparr>)"
      using c d nb assms(2)
      by (simp add: pop_from_msgq_def set_prev_def set_next_def modify_def Let_def)
    moreover have "mem_ok ?m2"
    proof (rule mem_ok_upd [OF mem_ok_upd [OF ok d(3)]])
      show "cells ?m1 a = Some c" using c nb by simp
    qed
    moreover have "seg True ?m2 b (c_next d) ys 0 = seg True ?m b (c_next d) ys 0"
      by (rule seg_cong) (use nb in auto)
    then have "chain True ?m2 b xs"
      using d nb Cons y by (simp add: chain_def seg_Cons_iff)
    moreover from this queue_rep_free [of True "\<lparr>qhead = b, qmem = ?m2\<rparr>" xs a] na c
    have "\<exists>m. free_cell ?m2 a = Inr m \<and> queue_rep True (\<lparr>qhead = b, qmem = m\<rparr> :: msgque_t lqueue) (map snd xs)"
      using \<open>mem_ok ?m2\<close> by simp
    ultimately show ?thesis using c x(2)
      by (intro exI [of _ a] exI [of _ "\<lparr>qhead = b, qmem = ?m2\<rparr>"]) (auto simp: queue_rep_def)
  qed
qed

text \<open>The chain around a node that is not the head.\<close>

lemma chain_inner:
  assumes "chain True m h (ys @ (a, v) # zs)" and "ys \<noteq> []"
  shows "\<exists>ws z u c d. ys = ws @ [(z, u)] \<and> z \<noteq> 0 \<and> a \<noteq> 0 \<and>
    cells m z = Some c \<and> c_val c = u \<and> c_prev c = lastp 0 ws \<and> c_next c = a \<and>
    cells m a = Some d \<and> c_val d = v \<and> c_prev d = z \<and>
    seg True m 0 h ws z \<and> seg True m a (c_next d) zs 0"
proof -
  from assms(2) obtain ws z u where ys: "ys = ws @ [(z, u)]"
    by (cases ys rule: rev_cases) auto
  with assms(1) show ?thesis
    by (auto simp: chain_def seg_append seg_Cons_iff)
qed

lemma pop_inner:
  assumes "queue_rep True q ms" "find (for_conn con) ms = Some v" "\<not> for_conn con (hd ms)"
  shows "\<exists>a ys zs c. chain True (qmem q) (qhead q) (ys @ (a, v) # zs) \<and> ys \<noteq> [] \<and> mem_ok (qmem q) \<and>
    ms = map snd ys @ v # map snd zs \<and> (\<forall>w \<in> snd ` set ys. \<not> for_conn con w) \<and> for_conn con v \<and>
    cells (qmem q) a = Some c \<and>
    pop_from_msgq q con =
      bindE (if c_next c \<noteq> 0
             then bindE (set_prev (qmem q) (c_next c) (c_prev c)) (\<lambda>m1. set_next m1 (c_prev c) (c_next c))
             else Inr (qmem q)) (\<lambda>m1.
      bindE (set_prev m1 a 0) (\<lambda>m1. bindE (set_next m1 a 0) (\<lambda>m1. Inr (a, q\<lparr>qmem := m1\<rparr>))))"
proof -
  from find_cell_queue(2) [OF assms(1,2)] obtain a ys zs c where
    a: "find_cell (brk (qmem q)) (qmem q) (for_conn con) (qhead q) = Inr a"
    "chain True (qmem q) (qhead q) (ys @ (a, v) # zs)" "ms = map snd ys @ v # map snd zs"
    "a \<noteq> 0" "cells (qmem q) a = Some c" "for_conn con v" "\<forall>w \<in> snd ` set ys. \<not> for_conn con w"
    by blast
  have ys: "ys \<noteq> []" using a(3,6) assms(3) by auto
  then obtain b w ys' where ys': "ys = (b, w) # ys'" by (cases ys) auto
  with a(2) obtain d where d: "qhead q = b" "b \<noteq> 0" "cells (qmem q) b = Some d" "c_val d = w"
    by (auto simp: chain_def seg_Cons_iff)
  have "\<not> for_conn con w" using a(7) ys' by auto
  then have "pop_from_msgq q con =
      bindE (if c_next c \<noteq> 0
             then bindE (set_prev (qmem q) (c_next c) (c_prev c)) (\<lambda>m1. set_next m1 (c_prev c) (c_next c))
             else Inr (qmem q)) (\<lambda>m1.
      bindE (set_prev m1 a 0) (\<lambda>m1. bindE (set_next m1 a 0) (\<lambda>m1. Inr (a, q\<lparr>qmem := m1\<rparr>))))"
    using a d by (simp add: pop_from_msgq_def)
  moreover have "mem_ok (qmem q)" using assms(1) by (simp add: queue_rep_def)
  ultimately show ?thesis using a ys by blast
qed

lemma pop_middle:
  assumes "queue_rep True q ms" "find (for_conn con) ms = Some v" "\<not> for_conn con (hd ms)"
    "\<not> tail_only con ms"
  shows "\<exists>a q'. pop_from_msgq q con = Inr (a, q') \<and> queue_rep True q' (rem_first (for_conn con) ms) \<and>
           a \<noteq> 0 \<and> cells (qmem q') a = Some \<lparr>c_val = v, c_prev = 0, c_next = 0\<rparr> \<and>
           (\<exists>m. free_cell (qmem q') a = Inr m \<and>
                queue_rep True (q'\<lparr>qmem := m\<rparr>) (rem_first (for_conn con) ms))"
proof -
  from pop_inner [OF assms(1-3)] obtain a ys zs d where
    a: "chain True (qmem q) (qhead q) (ys @ (a, v) # zs)" "ys \<noteq> []" "mem_ok (qmem q)"
    "ms = map snd ys @ v # map snd zs" "\<forall>w \<in> snd ` set ys. \<not> for_conn con w" "for_conn con v"
    "cells (qmem q) a = Some d"
    and pop: "pop_from_msgq q con =
      bindE (if c_next d \<noteq> 0
             then bindE (set_prev (qmem q) (c_next d) (c_prev d)) (\<lambda>m1. set_next m1 (c_prev d) (c_next d))
             else Inr (qmem q)) (\<lambda>m1.
      bindE (set_prev m1 a 0) (\<lambda>m1. bindE (set_next m1 a 0) (\<lambda>m1. Inr (a, q\<lparr>qmem := m1\<rparr>))))"
    by blast
  let ?m = "qmem q"
  have "zs \<noteq> []"
  proof
    assume "zs = []"
    then have "tail_only con ms"
      using a(2,4-6) by (cases ys) (auto simp: tail_only_def butlast_append)
    with assms(4) show False by simp
  qed
  then obtain b w zs' where zs: "zs = (b, w) # zs'" by (cases zs) auto
  from chain_inner [OF a(1,2)] a(7) obtain ws z u c where
    z: "ys = ws @ [(z, u)]" "z \<noteq> 0" "a \<noteq> 0" "cells ?m z = Some c" "c_val c = u" "c_prev c = lastp 0 ws"
    "c_next c = a" "c_val d = v" "c_prev d = z" "seg True ?m 0 (qhead q) ws z"
    "seg True ?m a (c_next d) zs 0" by auto
  from z(11) zs obtain e where e: "c_next d = b" "b \<noteq> 0" "cells ?m b = Some e" "c_val e = w"
    "seg True ?m b (c_next e) zs' 0" by (auto simp: seg_Cons_iff)
  have dist: "distinct (map fst (ws @ (z, u) # (a, v) # (b, w) # zs'))"
    using chain_distinct [OF a(1)] z(1) zs by simp
  then have ne: "z \<noteq> a" "z \<noteq> b" "a \<noteq> b" by auto
  let ?m1 = "?m\<lparr>cells := (cells ?m)(b \<mapsto> e\<lparr>c_prev := z\<rparr>)\<rparr>"
  let ?m2 = "?m1\<lparr>cells := (cells ?m1)(z \<mapsto> c\<lparr>c_next := b\<rparr>)\<rparr>"
  let ?m3 = "?m2\<lparr>cells := (cells ?m2)(a \<mapsto> d\<lparr>c_prev := 0, c_next := 0\<rparr>)\<rparr>"
  have popped: "pop_from_msgq q con = Inr (a, q\<lparr>qmem := ?m3\<rparr>)"
    unfolding pop using z e a(7) ne by (simp add: set_prev_def set_next_def modify_def)
  have ok3: "mem_ok ?m3"
  proof (rule mem_ok_upd [OF mem_ok_upd [OF mem_ok_upd [OF a(3) e(3)]]])
    show "cells ?m1 z = Some c" using z ne by simp
    show "cells ?m2 a = Some d" using a(7) ne by simp
  qed
  have "seg True ?m3 0 (qhead q) ws z = seg True ?m 0 (qhead q) ws z"
    by (rule seg_cong) (use dist in auto)
  moreover have "seg True ?m3 b (c_next e) zs' 0 = seg True ?m b (c_next e) zs' 0"
    by (rule seg_cong) (use dist in auto)
  ultimately have ch: "chain True ?m3 (qhead q) (ws @ (z, u) # (b, w) # zs')"
    using z e ne by (simp add: chain_def seg_append seg_Cons_iff)
  have "rem_first (for_conn con) ms = map snd (ws @ (z, u) # (b, w) # zs')"
    using rem_first_split [of "map snd ys" "for_conn con" v "map snd zs"] a(4-6) z(1) zs by auto
  with ch ok3 have "queue_rep True (q\<lparr>qmem := ?m3\<rparr>) (rem_first (for_conn con) ms)"
    unfolding queue_rep_def by auto
  moreover have "\<exists>m. free_cell ?m3 a = Inr m \<and>
      queue_rep True (q\<lparr>qmem := m\<rparr>) (rem_first (for_conn con) ms)"
    using queue_rep_free [of True "q\<lparr>qmem := ?m3\<rparr>" "ws @ (z, u) # (b, w) # zs'" a]
      ch ok3 z(3) dist ne \<open>rem_first (for_conn con) ms = _\<close> by auto
  moreover have "cells ?m3 a = Some \<lparr>c_val = v, c_prev = 0, c_next = 0\<rparr>" using z(8) by simp
  ultimately show ?thesis using popped z(3)
    by (intro exI [of _ a] exI [of _ "q\<lparr>qmem := ?m3\<rparr>"]) simp
qed

lemma pop_some:
  assumes "queue_rep True q ms" "find (for_conn con) ms = Some v" "\<not> tail_only con ms"
  shows "\<exists>a q'. pop_from_msgq q con = Inr (a, q') \<and> queue_rep True q' (rem_first (for_conn con) ms) \<and>
           a \<noteq> 0 \<and> cells (qmem q') a = Some \<lparr>c_val = v, c_prev = 0, c_next = 0\<rparr> \<and>
           (\<exists>m. free_cell (qmem q') a = Inr m \<and>
                queue_rep True (q'\<lparr>qmem := m\<rparr>) (rem_first (for_conn con) ms))"
proof (cases "for_conn con (hd ms)")
  case True
  with assms(2) obtain vs where "ms = v # vs" by (cases ms) auto
  with pop_head [of q v vs con] assms(1) True show ?thesis by simp
next
  case False
  with pop_middle [OF assms(1,2)] assms(3) show ?thesis by blast
qed

text \<open>
  The last message behind others: the node is returned with its links cleared, but the list
  still leads to it.
\<close>

lemma pop_tail:
  assumes "queue_rep True q ms" "tail_only con ms"
  shows "\<exists>a q' ys. pop_from_msgq q con = Inr (a, q') \<and> queue_rep False q' ms \<and> a \<noteq> 0 \<and>
           cells (qmem q') a = Some \<lparr>c_val = last ms, c_prev = 0, c_next = 0\<rparr> \<and>
           ys \<noteq> [] \<and> chain False (qmem q') (qhead q') (ys @ [(a, last ms)])"
proof -
  obtain v vs where vs: "ms = vs @ [v]"
    using assms(2) by (cases ms rule: rev_cases) (auto simp: tail_only_def)
  with assms(2) have ms: "ms = vs @ [v]" "vs \<noteq> []" "for_conn con v" "\<forall>e \<in> set vs. \<not> for_conn con e"
    by (auto simp: tail_only_def)
  then have "find (for_conn con) ms = Some v" "\<not> for_conn con (hd ms)"
    by (auto simp: find_skip hd_append)
  from pop_inner [OF assms(1) this] obtain a ys zs d where
    a: "chain True (qmem q) (qhead q) (ys @ (a, v) # zs)" "ys \<noteq> []" "mem_ok (qmem q)"
    "ms = map snd ys @ v # map snd zs" "cells (qmem q) a = Some d"
    and pop: "pop_from_msgq q con =
      bindE (if c_next d \<noteq> 0
             then bindE (set_prev (qmem q) (c_next d) (c_prev d)) (\<lambda>m1. set_next m1 (c_prev d) (c_next d))
             else Inr (qmem q)) (\<lambda>m1.
      bindE (set_prev m1 a 0) (\<lambda>m1. bindE (set_next m1 a 0) (\<lambda>m1. Inr (a, q\<lparr>qmem := m1\<rparr>))))"
    by blast
  have zs: "zs = []"
  proof (rule ccontr)
    assume "zs \<noteq> []"
    then have "v \<in> set vs" using a(4) ms(1) by (cases zs rule: rev_cases) auto
    with ms(3,4) show False by blast
  qed
  let ?m = "qmem q"
  from chain_inner [OF a(1,2)] a(5) obtain ws z u c where
    z: "ys = ws @ [(z, u)]" "z \<noteq> 0" "a \<noteq> 0" "cells ?m z = Some c" "c_val c = u"
    "c_next c = a" "c_val d = v" "seg True ?m 0 (qhead q) ws z" "seg True ?m a (c_next d) zs 0" by auto
  then have n: "c_next d = 0" using zs by simp
  have dist: "distinct (map fst (ws @ [(z, u), (a, v)]))"
    using chain_distinct [OF a(1)] z(1) zs by simp
  let ?m1 = "?m\<lparr>cells := (cells ?m)(a \<mapsto> d\<lparr>c_prev := 0, c_next := 0\<rparr>)\<rparr>"
  have "pop_from_msgq q con = Inr (a, q\<lparr>qmem := ?m1\<rparr>)"
    unfolding pop using z n a(5) by (simp add: set_prev_def set_next_def modify_def)
  moreover have "seg False ?m1 0 (qhead q) ws z"
    using dist seg_weaken [OF z(8)] by simp
  then have ch: "chain False ?m1 (qhead q) (ys @ [(a, v)])"
    using z dist by (simp add: chain_def seg_append seg_Cons_iff)
  moreover have "queue_rep False (q\<lparr>qmem := ?m1\<rparr>) ms"
    using ch mem_ok_upd [OF a(3) a(5)] a(4) zs unfolding queue_rep_def
    by (auto intro!: exI [of _ "ys @ [(a, v)]"])
  moreover have "cells ?m1 a = Some \<lparr>c_val = last ms, c_prev = 0, c_next = 0\<rparr>"
    using z(7) ms(1) by simp
  ultimately show ?thesis using z(3) a(2) ms(1)
    by (intro exI [of _ a] exI [of _ "q\<lparr>qmem := ?m1\<rparr>"] exI [of _ ys]) simp
qed

text \<open>A list that leads to a freed node: every walk to its end reads the freed node.\<close>

lemma last_cell_dangling:
  "seg d m q p xs a \<Longrightarrow> a \<noteq> 0 \<Longrightarrow> cells m a = None \<Longrightarrow> length xs < k \<Longrightarrow>
   last_cell k m p = Inl (UB Invalid_Access)"
proof (induction xs arbitrary: q p k)
  case Nil
  then show ?case by (cases k) auto
next
  case (Cons x xs)
  obtain b v where x: "x = (b, v)" by force
  obtain j where k: "k = Suc j" using Cons.prems(4) by (cases k) auto
  from Cons.prems(1) x obtain c where c: "p = b" "b \<noteq> 0" "cells m b = Some c"
    "seg d m b (c_next c) xs a" by (auto simp: seg_Cons_iff)
  have "c_next c \<noteq> 0"
    using c(4) Cons.prems(2) by (cases xs) (auto simp: seg_Cons_iff)
  with c Cons.IH [OF c(4)] Cons.prems k show ?case by simp
qed

lemma enqueue_dangling:
  assumes "mem_ok (qmem q)" "chain False (qmem q) (qhead q) (ys @ [(a, v)])" "ys \<noteq> []"
    and "free_cell (qmem q) a = Inr m"
  shows "enqueue (q\<lparr>qmem := m\<rparr>) w = Inl (UB Invalid_Access)"
proof -
  let ?xs = "ys @ [(a, v)]"
  from assms(2) obtain c where a: "a \<noteq> 0" "cells (qmem q) a = Some c" "seg False (qmem q) 0 (qhead q) ys a"
    by (auto simp: chain_def seg_append seg_Cons_iff)
  with assms(4) have m: "m = (qmem q)\<lparr>cells := (cells (qmem q))(a := None)\<rparr>"
    by (simp add: free_cell_def)
  have na: "a \<notin> fst ` set ys" using chain_distinct [OF assms(2)] by auto
  have len: "length ys < brk (qmem q)" using chain_fuel [OF assms(2,1)] by simp
  have ab: "a < brk (qmem q)" using mem_okD [OF assms(1) a(2)] by simp
  have hd: "qhead q \<noteq> 0"
    using a(3) assms(3) by (cases ys) (auto simp: seg_Cons_iff)
  have nb: "brk (qmem q) \<notin> fst ` set ys"
    using seg_cells [OF a(3)] mem_ok_brk [OF assms(1)] by force
  let ?t = "brk (qmem q)"
  define m1 where "m1 = m\<lparr>cells := (cells m)(?t \<mapsto> \<lparr>c_val = msg_zero, c_prev = 0, c_next = 0\<rparr>),
    brk := Suc ?t\<rparr>"
  define m2 where "m2 = m1\<lparr>cells := (cells m1)(?t \<mapsto> \<lparr>c_val = w, c_prev = 0, c_next = 0\<rparr>)\<rparr>"
  have al: "calloc_cell msg_zero m = (?t, m1)" by (simp add: calloc_cell_def m m1_def)
  have sv: "set_val m1 ?t w = Inr m2"
    using ab by (simp add: set_val_def modify_def m1_def m2_def)
  have "seg False m2 0 (qhead q) ys a = seg False (qmem q) 0 (qhead q) ys a"
    by (rule seg_cong) (use na nb in \<open>force simp: m1_def m2_def m\<close>)
  moreover have "cells m2 a = None" using ab by (simp add: m1_def m2_def m)
  moreover have "length ys < brk m2" using len by (simp add: m1_def m2_def)
  ultimately have "last_cell (brk m2) m2 (qhead q) = Inl (UB Invalid_Access)"
    using last_cell_dangling a(1,3) by blast
  then show ?thesis using hd al sv by (simp add: enqueue_def link_last_def)
qed

subsection \<open>The contract of the message queue\<close>

text \<open>
  What the sender threads rely on: a dequeue for a connection takes its first message and
  nothing else. The code keeps this contract outside the tail case; the client's lemmas are
  the order of delivery of one connection and the independence of the others.
\<close>

locale message_queue =
  fixes rep :: "'q \<Rightarrow> msgque_t list \<Rightarrow> bool"
    and enq :: "'q \<Rightarrow> msgque_t \<Rightarrow> 'q res"
    and deq :: "'q \<Rightarrow> int \<Rightarrow> (addr \<times> 'q) res"
    and payload :: "'q \<Rightarrow> addr \<Rightarrow> msgque_t res"
  assumes enq_law: "rep q ms \<Longrightarrow> \<exists>q'. enq q v = Inr q' \<and> rep q' (ms @ [v])"
    and deq_none: "rep q ms \<Longrightarrow> find (for_conn con) ms = None \<Longrightarrow> deq q con = Inr (0, q)"
    and deq_some: "rep q ms \<Longrightarrow> find (for_conn con) ms = Some v \<Longrightarrow> \<not> tail_only con ms \<Longrightarrow>
      \<exists>a q'. deq q con = Inr (a, q') \<and> a \<noteq> 0 \<and> payload q' a = Inr v \<and>
             rep q' (rem_first (for_conn con) ms)"
begin

lemma rem_first_fifo:
  "find P ms = Some v \<Longrightarrow> filter P ms = v # filter P (rem_first P ms)"
  by (induction ms) (auto split: if_splits)

lemma rem_first_others:
  "(\<And>x. P x \<Longrightarrow> \<not> Q x) \<Longrightarrow> filter Q (rem_first P ms) = filter Q ms"
  by (induction ms) auto

lemma deq_fifo:
  assumes "rep q ms" "filter (for_conn con) ms = v # vs" "\<not> tail_only con ms"
  shows "\<exists>a q' ms'. deq q con = Inr (a, q') \<and> a \<noteq> 0 \<and> payload q' a = Inr v \<and> rep q' ms' \<and>
           filter (for_conn con) ms' = vs \<and>
           (\<forall>con'. con' \<noteq> con \<longrightarrow> filter (for_conn con') ms' = filter (for_conn con') ms)"
proof -
  have "find (for_conn con) ms \<noteq> None"
    using assms(2) by (metis filter_empty_conv find_None_iff list.distinct(1))
  then obtain w where w: "find (for_conn con) ms = Some w" by blast
  from rem_first_fifo [OF w] assms(2) have "w = v" "filter (for_conn con) (rem_first (for_conn con) ms) = vs"
    by auto
  moreover have "filter (for_conn con') (rem_first (for_conn con) ms) = filter (for_conn con') ms"
    if "con' \<noteq> con" for con'
    using that by (intro rem_first_others) (simp add: for_conn_def)
  ultimately show ?thesis using deq_some [OF assms(1) w assms(3)] by blast
qed

lemma enq_deq_empty:
  assumes "rep q []"
  shows "\<exists>q1 a q2. enq q v = Inr q1 \<and> deq q1 (mq_conn v) = Inr (a, q2) \<and> payload q2 a = Inr v \<and> rep q2 []"
proof -
  from enq_law [OF assms, of v] obtain q1 where q1: "enq q v = Inr q1" "rep q1 [v]" by auto
  with deq_some [OF q1(2), of "mq_conn v" v] show ?thesis
    by (auto simp: for_conn_def tail_only_def)
qed

end

definition msg_payload :: "msgque_t lqueue \<Rightarrow> addr \<Rightarrow> msgque_t res" where
  "msg_payload q a = bindE (load (qmem q) a) (\<lambda>c. Inr (c_val c))"

interpretation msgq: message_queue "queue_rep True" enqueue pop_from_msgq msg_payload
proof
  fix q :: "msgque_t lqueue" and ms v
  assume "queue_rep True q ms"
  then show "\<exists>q'. enqueue q v = Inr q' \<and> queue_rep True q' (ms @ [v])" by (rule enqueue_rep)
next
  fix q :: "msgque_t lqueue" and ms con
  assume "queue_rep True q ms" "find (for_conn con) ms = None"
  then show "pop_from_msgq q con = Inr (0, q)" by (rule pop_none)
next
  fix q :: "msgque_t lqueue" and ms con v
  assume "queue_rep True q ms" "find (for_conn con) ms = Some v" "\<not> tail_only con ms"
  from pop_some [OF this] show "\<exists>a q'. pop_from_msgq q con = Inr (a, q') \<and> a \<noteq> 0 \<and>
      msg_payload q' a = Inr v \<and> queue_rep True q' (rem_first (for_conn con) ms)"
    by (fastforce simp: msg_payload_def)
qed

subsection \<open>Properties\<close>

definition msg_demo :: "int \<Rightarrow> string \<Rightarrow> msgque_t" where
  "msg_demo con s = \<lparr>mq_data = 5, mq_id = s, mq_len = 2, mq_conn = con\<rparr>"

text \<open>C7. A pop for a connection takes the oldest message of that connection and leaves every
  other message in its order, also those of the other connections, unless the only message for
  the connection is the last of several.\<close>

theorem pop_is_fifo_per_connection:
  assumes "queue_rep True q ms" "filter (for_conn con) ms = v # vs" "\<not> tail_only con ms"
  shows "\<exists>a q' ms'. pop_from_msgq q con = Inr (a, q') \<and> a \<noteq> 0 \<and> msg_payload q' a = Inr v \<and>
           queue_rep True q' ms' \<and> filter (for_conn con) ms' = vs \<and>
           (\<forall>con'. con' \<noteq> con \<longrightarrow> filter (for_conn con') ms' = filter (for_conn con') ms)"
  using assms by (rule msgq.deq_fifo)

theorem pop_is_fifo_per_connection_witness:
  "\<exists>a q' ms'. pop_from_msgq (mk_queue [msg_demo 0 ''a'', msg_demo 1 ''b'', msg_demo 0 ''c'']) 1 = Inr (a, q') \<and>
     a \<noteq> 0 \<and> msg_payload q' a = Inr (msg_demo 1 ''b'') \<and> queue_rep True q' ms' \<and>
     filter (for_conn 1) ms' = [] \<and>
     (\<forall>con'. con' \<noteq> 1 \<longrightarrow> filter (for_conn con') ms' =
        filter (for_conn con') [msg_demo 0 ''a'', msg_demo 1 ''b'', msg_demo 0 ''c''])"
  by (rule pop_is_fifo_per_connection [OF queue_rep_mk])
    (simp_all add: msg_demo_def for_conn_def tail_only_def)

text \<open>When the only message for a connection is the last of several, \<open>pop_from_msgq\<close> returns
  it without unlinking it. Once the sender has freed the node, the queue leads to freed memory,
  and the next push reads it: a use after free.\<close>

lemma pop_tail_leaves_dangling_node:
  assumes "queue_rep True q ms" "tail_only con ms"
  shows "\<exists>a q' m. pop_from_msgq q con = Inr (a, q') \<and> a \<noteq> 0 \<and> queue_rep False q' ms \<and>
           free_cell (qmem q') a = Inr m \<and>
           (\<forall>w. enqueue (q'\<lparr>qmem := m\<rparr>) w = Inl (UB Invalid_Access))"
proof -
  from pop_tail [OF assms] obtain a q' ys where
    p: "pop_from_msgq q con = Inr (a, q')" "queue_rep False q' ms" "a \<noteq> 0"
    "cells (qmem q') a = Some \<lparr>c_val = last ms, c_prev = 0, c_next = 0\<rparr>"
    "ys \<noteq> []" "chain False (qmem q') (qhead q') (ys @ [(a, last ms)])" by blast
  then obtain m where m: "free_cell (qmem q') a = Inr m" by (simp add: free_cell_def)
  have "mem_ok (qmem q')" using p(2) by (simp add: queue_rep_def)
  from enqueue_dangling [OF this p(6,5) m] p m show ?thesis by blast
qed

end
