(* ===== verification/Xml.thy ===== *)
theory Xml
  imports Types
begin

section \<open>Attribute extraction: \<open>parse_xml_attribute\<close>, \<^verbatim>\<open>task.c\<close> lines 413 to 438\<close>

text \<open>
  One pass over a message for \<^verbatim>\<open><KEY>value</KEY>\<close>. The message is the list of its
  \<open>in_len\<close> bytes, the buffer having one more byte, a NUL; NULL is \<open>None\<close>. \<open>i\<close> and \<open>j\<close> are
  the code's: after a match of the start key the loop's \<open>++i\<close> skips the first byte of the
  value. The result is the return code and \<open>*out\<close>, whose \<open>s\<close> is an offset.
\<close>

function parse_loop ::
  "string \<Rightarrow> int \<Rightarrow> string \<Rightarrow> string \<Rightarrow> nat \<Rightarrow> nat \<Rightarrow> int \<times> xchar" where
  "parse_loop inb in_len startKey endKey i j =
     (if int i < in_len then
        if strncmp (drop i inb) startKey (length startKey) = 0
        then parse_loop inb in_len startKey endKey (i + length startKey + 1) (i + length startKey)
        else if strncmp (drop i inb) endKey (length endKey) = 0
        then (1, \<lparr>xc_s = Some j, xc_len = int i - int j\<rparr>)
        else parse_loop inb in_len startKey endKey (i + 1) j
      else (0, \<lparr>xc_s = None, xc_len = 0\<rparr>))"
  by pat_completeness auto
termination
  by (relation "measure (\<lambda>(b, n, s, e, i, j). nat n - i)") auto

declare parse_loop.simps [simp del]

definition parse_xml_attribute ::
  "string option \<Rightarrow> int \<Rightarrow> string \<Rightarrow> string \<Rightarrow> int \<times> xchar" where
  "parse_xml_attribute inp in_len startKey endKey =
     (case inp of
        None \<Rightarrow> (0, \<lparr>xc_s = None, xc_len = 0\<rparr>)
      | Some b \<Rightarrow>
          if b = [] \<or> hd b = NUL then (0, \<lparr>xc_s = None, xc_len = 0\<rparr>)
          else parse_loop b in_len startKey endKey 0 0)"

text \<open>
  The callers copy the value: \<^verbatim>\<open>calloc(out.len+1)\<close> and \<^verbatim>\<open>memcpy(.., out.s, out.len)\<close>, then
  use it as a C string.
\<close>

definition xc_bytes :: "string \<Rightarrow> xchar \<Rightarrow> string" where
  "xc_bytes b x = (case xc_s x of None \<Rightarrow> [] | Some j \<Rightarrow> take (nat (xc_len x)) (drop j b))"

definition xc_string :: "string option \<Rightarrow> xchar \<Rightarrow> string" where
  "xc_string inp x = (case inp of None \<Rightarrow> [] | Some b \<Rightarrow> cut_nul (xc_bytes b x))"

subsection \<open>Lemmas\<close>

lemma parse_loop_end:
  "in_len \<le> int i \<Longrightarrow> parse_loop b in_len sk ek i j = (0, \<lparr>xc_s = None, xc_len = 0\<rparr>)"
  by (simp add: parse_loop.simps [of b in_len sk ek i j])

lemma parse_loop_skip:
  "i \<le> k \<Longrightarrow> int k \<le> in_len \<Longrightarrow> NUL \<notin> set sk \<Longrightarrow> NUL \<notin> set ek \<Longrightarrow>
   (\<And>l. i \<le> l \<Longrightarrow> l < k \<Longrightarrow> \<not> prefix sk (drop l b) \<and> \<not> prefix ek (drop l b)) \<Longrightarrow>
   parse_loop b in_len sk ek i j = parse_loop b in_len sk ek k j"
proof (induction "k - i" arbitrary: i)
  case 0
  then show ?case by simp
next
  case (Suc n)
  then have "i < k" by simp
  then have "\<not> prefix sk (drop i b)" "\<not> prefix ek (drop i b)" "int i < in_len"
    using Suc.prems by auto
  then have "parse_loop b in_len sk ek i j = parse_loop b in_len sk ek (i + 1) j"
    using Suc.prems by (simp add: parse_loop.simps [of b in_len sk ek i j] strncmp_prefix)
  also have "\<dots> = parse_loop b in_len sk ek k j"
    using Suc.hyps(2) \<open>i < k\<close> Suc.prems by (intro Suc.hyps(1)) auto
  finally show ?case .
qed

text \<open>
  Whatever the message, a found value lies inside it: the two copies never read outside the
  buffer.
\<close>

lemma parse_loop_bounds:
  "parse_loop b in_len sk ek i j = (rc, x) \<Longrightarrow> j \<le> i \<Longrightarrow> NUL \<notin> set sk \<Longrightarrow>
   (rc = 0 \<and> x = \<lparr>xc_s = None, xc_len = 0\<rparr>) \<or>
   (rc = 1 \<and> (\<exists>j'. xc_s x = Some j' \<and> 0 \<le> xc_len x \<and> int j' + xc_len x < in_len))"
proof (induction b in_len sk ek i j rule: parse_loop.induct)
  case (1 b n sk ek i j)
  then show ?case
    by (auto simp: parse_loop.simps [of b n sk ek i j] split: if_splits)
qed

text \<open>
  \<open>clear k xs ys\<close>: no occurrence of the key \<open>k\<close> starts in the part \<open>xs\<close> of \<open>xs @ ys\<close>.
\<close>

fun clear :: "string \<Rightarrow> string \<Rightarrow> string \<Rightarrow> bool" where
  "clear k [] ys = True"
| "clear k (c # xs) ys = (\<not> prefix k (c # xs @ ys) \<and> clear k xs ys)"

lemma clear_nth: "clear k xs ys \<Longrightarrow> l < length xs \<Longrightarrow> \<not> prefix k (drop l (xs @ ys))"
proof (induction xs arbitrary: l)
  case Nil
  then show ?case by simp
next
  case (Cons c xs)
  then show ?case by (cases l) auto
qed

lemma clear_byte: "c \<notin> set xs \<Longrightarrow> clear (c # k) xs ys"
  by (induction xs) auto

lemma clear_append: "clear k (xs @ ys) zs \<longleftrightarrow> clear k xs (ys @ zs) \<and> clear k ys zs"
  by (induction xs) auto

lemma parse_loop_clear:
  assumes "NUL \<notin> set sk" "NUL \<notin> set ek" "clear sk xs ys" "clear ek xs ys"
    and "i = length pre" "b = pre @ xs @ ys"
  shows "parse_loop b (int (length b)) sk ek i j = parse_loop b (int (length b)) sk ek (i + length xs) j"
proof (rule parse_loop_skip)
  fix l assume l: "i \<le> l" "l < i + length xs"
  have "drop l b = drop (l - i) (xs @ ys)" using l assms(5,6) by simp
  with l clear_nth [OF assms(3), of "l - i"] clear_nth [OF assms(4), of "l - i"]
  show "\<not> prefix sk (drop l b) \<and> \<not> prefix ek (drop l b)" by simp
qed (use assms in auto)

text \<open>No key in the message: the attribute is absent.\<close>

lemma parse_loop_absent:
  assumes "NUL \<notin> set sk" "NUL \<notin> set ek" "clear sk b []" "clear ek b []"
  shows "parse_loop b (int (length b)) sk ek 0 0 = (0, \<lparr>xc_s = None, xc_len = 0\<rparr>)"
  using parse_loop_clear [OF assms, of 0 "[]"] by (simp add: parse_loop_end)

text \<open>The loop at the start key, and at the end key.\<close>

lemma parse_loop_start:
  "NUL \<notin> set sk \<Longrightarrow> sk \<noteq> [] \<Longrightarrow> b = pre @ sk @ r \<Longrightarrow>
   parse_loop b (int (length b)) sk ek (length pre) j =
   parse_loop b (int (length b)) sk ek (length pre + length sk + 1) (length pre + length sk)"
  by (subst parse_loop.simps) (cases sk; simp add: strncmp_prefix)

lemma parse_loop_stop:
  "NUL \<notin> set sk \<Longrightarrow> NUL \<notin> set ek \<Longrightarrow> ek \<noteq> [] \<Longrightarrow> b = pre @ ek @ r \<Longrightarrow> \<not> prefix sk (ek @ r) \<Longrightarrow>
   parse_loop b (int (length b)) sk ek (length pre) j =
     (1, \<lparr>xc_s = Some j, xc_len = int (length pre) - int j\<rparr>)"
  by (subst parse_loop.simps) (cases ek; simp add: strncmp_prefix)

text \<open>The value the code is written for: start key, a non-empty value, end key.\<close>

lemma parse_loop_found:
  assumes keys: "NUL \<notin> set sk" "NUL \<notin> set ek" "sk \<noteq> []" "ek \<noteq> []"
    and b: "b = pre @ sk @ (c # v) @ ek @ post"
    and pre: "clear sk pre (sk @ (c # v) @ ek @ post)" "clear ek pre (sk @ (c # v) @ ek @ post)"
    and val: "clear sk v (ek @ post)" "clear ek v (ek @ post)"
    and ends: "\<not> prefix sk (ek @ post)"
  shows "parse_loop b (int (length b)) sk ek 0 0 =
           (1, \<lparr>xc_s = Some (length pre + length sk), xc_len = int (length (c # v))\<rparr>)"
proof -
  let ?n = "int (length b)" and ?p = "length pre" and ?s = "length sk"
  have "parse_loop b ?n sk ek 0 0 = parse_loop b ?n sk ek ?p 0"
    using parse_loop_clear [OF keys(1,2) pre, of 0 "[]" b 0] b by simp
  also have "\<dots> = parse_loop b ?n sk ek (?p + ?s + 1) (?p + ?s)"
    by (rule parse_loop_start [OF keys(1,3) b])
  also have "\<dots> = parse_loop b ?n sk ek (?p + ?s + 1 + length v) (?p + ?s)"
    by (rule parse_loop_clear [OF keys(1,2) val, of _ "pre @ sk @ [c]"]) (simp_all add: b)
  also have "\<dots> = (1, \<lparr>xc_s = Some (?p + ?s), xc_len = int (length (c # v))\<rparr>)"
    using parse_loop_stop [OF keys(1,2,4), of b "pre @ sk @ c # v" post "?p + ?s"] b ends
    by (simp add: add.assoc)
  finally show ?thesis .
qed

text \<open>An element with an empty value: its end key is stepped over, and the search goes on.\<close>

lemma parse_loop_empty_value:
  assumes keys: "NUL \<notin> set sk" "NUL \<notin> set (c # ek)" "sk \<noteq> []"
    and b: "b = pre @ sk @ (c # ek) @ post"
    and pre: "clear sk pre (sk @ (c # ek) @ post)" "clear (c # ek) pre (sk @ (c # ek) @ post)"
    and rest: "clear sk (ek @ post) []" "clear (c # ek) (ek @ post) []"
  shows "parse_loop b (int (length b)) sk (c # ek) 0 0 = (0, \<lparr>xc_s = None, xc_len = 0\<rparr>)"
proof -
  let ?n = "int (length b)" and ?p = "length pre" and ?s = "length sk"
  have "parse_loop b ?n sk (c # ek) 0 0 = parse_loop b ?n sk (c # ek) ?p 0"
    using parse_loop_clear [OF keys(1,2) pre, of 0 "[]" b 0] b by simp
  also have "\<dots> = parse_loop b ?n sk (c # ek) (?p + ?s + 1) (?p + ?s)"
    by (rule parse_loop_start [OF keys(1,3) b])
  also have "\<dots> = parse_loop b ?n sk (c # ek) (?p + ?s + 1 + length (ek @ post)) (?p + ?s)"
    by (rule parse_loop_clear [OF keys(1,2) rest, of _ "pre @ sk @ [c]"]) (simp_all add: b)
  also have "\<dots> = (0, \<lparr>xc_s = None, xc_len = 0\<rparr>)"
    by (rule parse_loop_end) (simp add: b)
  finally show ?thesis .
qed

lemma xc_bytes_found:
  "xc_bytes (pre @ sk @ v @ rest)
     \<lparr>xc_s = Some (length pre + length sk), xc_len = int (length v)\<rparr> = v"
  by (simp add: xc_bytes_def)

subsection \<open>Properties\<close>

text \<open>C10. For a message that holds \<^verbatim>\<open><KEY>value</KEY>\<close> with a value of at least one byte,
  and no other occurrence of the two keys before the value's end, \<open>parse_xml_attribute\<close>
  returns 1 and an \<open>xchar\<close> that designates exactly the value.\<close>

theorem parse_finds_value:
  assumes "NUL \<notin> set sk" "NUL \<notin> set ek" "sk \<noteq> []" "ek \<noteq> []"
    and "b = pre @ sk @ (c # v) @ ek @ post" "hd b \<noteq> NUL"
    and "clear sk pre (sk @ (c # v) @ ek @ post)" "clear ek pre (sk @ (c # v) @ ek @ post)"
    and "clear sk v (ek @ post)" "clear ek v (ek @ post)" "\<not> prefix sk (ek @ post)"
  shows "fst (parse_xml_attribute (Some b) (int (length b)) sk ek) = 1 \<and>
         xc_bytes b (snd (parse_xml_attribute (Some b) (int (length b)) sk ek)) = c # v"
proof -
  have "b \<noteq> []" using assms(3,5) by auto
  then have "parse_xml_attribute (Some b) (int (length b)) sk ek =
      (1, \<lparr>xc_s = Some (length pre + length sk), xc_len = int (length (c # v))\<rparr>)"
    using parse_loop_found [OF assms(1-5,7-11)] assms(6) by (simp add: parse_xml_attribute_def)
  then show ?thesis using xc_bytes_found [of pre sk "c # v" "ek @ post"] assms(5) by simp
qed

theorem parse_finds_value_witness:
  "fst (parse_xml_attribute (Some ''<S><TYPE>2</TYPE><TID>t-1</TID></S>'') 35 ''<TID>'' ''</TID>'') = 1 \<and>
   xc_bytes ''<S><TYPE>2</TYPE><TID>t-1</TID></S>''
     (snd (parse_xml_attribute (Some ''<S><TYPE>2</TYPE><TID>t-1</TID></S>'') 35 ''<TID>'' ''</TID>'')) = ''t-1''"
  using parse_finds_value [of "''<TID>''" "''</TID>''" "''<S><TYPE>2</TYPE><TID>t-1</TID></S>''"
      "''<S><TYPE>2</TYPE>''" "CHR ''t''" "''-1''" "''</S>''"] by simp

text \<open>Whatever the message and the keys, the result of \<open>parse_xml_attribute\<close> is 0 with
  a NULL, empty value, or 1 with a value that lies wholly inside the first \<open>in_len\<close> bytes:
  the callers' \<open>memcpy\<close> never reads outside the message.\<close>

theorem parse_value_in_bounds:
  assumes "parse_xml_attribute inp in_len sk ek = (rc, x)" "NUL \<notin> set sk"
  shows "rc = 0 \<and> xc_s x = None \<and> xc_len x = 0 \<or>
         rc = 1 \<and> (\<exists>j. xc_s x = Some j \<and> 0 \<le> xc_len x \<and> int j + xc_len x < in_len)"
proof (cases "inp = None \<or> (\<exists>b. inp = Some b \<and> (b = [] \<or> hd b = NUL))")
  case True
  with assms(1) show ?thesis by (auto simp: parse_xml_attribute_def)
next
  case False
  then obtain b where "inp = Some b" "parse_loop b in_len sk ek 0 0 = (rc, x)"
    using assms(1) by (cases inp) (auto simp: parse_xml_attribute_def)
  with parse_loop_bounds [of b in_len sk ek 0 0 rc x] assms(2) show ?thesis by auto
qed

theorem parse_value_in_bounds_witness:
  "\<exists>rc x. parse_xml_attribute (Some ''</A>x<A>y</A>'') 13 ''<A>'' ''</A>'' = (rc, x) \<and>
     (rc = 0 \<and> xc_s x = None \<and> xc_len x = 0 \<or>
      rc = 1 \<and> (\<exists>j. xc_s x = Some j \<and> 0 \<le> xc_len x \<and> int j + xc_len x < 13))"
proof -
  obtain rc x where r: "parse_xml_attribute (Some ''</A>x<A>y</A>'') 13 ''<A>'' ''</A>'' = (rc, x)"
    by force
  have "NUL \<notin> set ''<A>''" by simp
  from parse_value_in_bounds [OF r this] r show ?thesis by blast
qed

text \<open>An element whose value is empty is not found: the loop's \<open>++i\<close> steps over the first
  byte of its end key, so when no other key follows the result is 0, as for a missing element.\<close>

theorem parse_empty_is_absent:
  assumes "NUL \<notin> set sk" "NUL \<notin> set (c # ek)" "sk \<noteq> []"
    and "b = pre @ sk @ (c # ek) @ post"
    and "clear sk pre (sk @ (c # ek) @ post)" "clear (c # ek) pre (sk @ (c # ek) @ post)"
    and "clear sk (ek @ post) []" "clear (c # ek) (ek @ post) []"
  shows "parse_xml_attribute (Some b) (int (length b)) sk (c # ek) = (0, \<lparr>xc_s = None, xc_len = 0\<rparr>)"
  using parse_loop_empty_value [OF assms] by (simp add: parse_xml_attribute_def)

theorem parse_empty_is_absent_witness:
  "parse_xml_attribute (Some ''<S><SID></SID></S>'') 18 ''<SID>'' ''</SID>'' =
     (0, \<lparr>xc_s = None, xc_len = 0\<rparr>)"
  using parse_empty_is_absent [of "''<SID>''" "CHR ''<''" "''/SID>''" "''<S><SID></SID></S>''"
      "''<S>''" "''</S>''"] by simp

end
