(* ===== verification/Wire.thy ===== *)
theory Wire
  imports Types
begin

section \<open>Framing over a socket: \<open>send_to_fd\<close> and \<open>receive_from_fd\<close>, \<^verbatim>\<open>work.c\<close>\<close>

text \<open>
  A frame is the length of the message as four decimal digits, then the message. What the
  operating system does on a socket is an argument: for receiving, the bytes the peer has
  sent (\<open>inq\<close>) and a plan of the results of the next \<open>recv\<close> calls; for sending, a plan of
  the results of the next \<open>send\<close> calls. \<open>Deliver k\<close> hands over at most \<open>k + 1\<close> bytes, as
  many as are asked for and left; with no byte left it returns 0, the end of the stream. A
  call the plan does not answer blocks. \<open>errno\<close> keeps the value of the last failed call.
\<close>

datatype errno = E_none | EAGAIN | EWOULDBLOCK | EINTR | E_other nat

definition try_again :: "errno \<Rightarrow> bool" where
  "try_again e \<longleftrightarrow> e = EWOULDBLOCK \<or> e = EAGAIN \<or> e = EINTR"

subsection \<open>Receiving\<close>

datatype recv_step = Deliver nat | Recv_fail errno

record rsock =
  inq :: string
  rplan :: "recv_step list"
  rerrno :: errno

definition c_recv :: "nat \<Rightarrow> rsock \<Rightarrow> (int \<times> string \<times> rsock) res" where
  "c_recv n s = (case rplan s of
       [] \<Rightarrow> Inl Hang
     | Deliver k # p \<Rightarrow>
         let d = take (min (Suc k) n) (inq s) in
         Inr (int (length d), d, s\<lparr>inq := drop (length d) (inq s), rplan := p\<rparr>)
     | Recv_fail e # p \<Rightarrow> Inr (-1, [], s\<lparr>rplan := p, rerrno := e\<rparr>))"

lemma c_recv_plan: "c_recv n s = Inr (r, d, s') \<Longrightarrow> length (rplan s') < length (rplan s)"
  by (auto simp: c_recv_def Let_def split: list.splits recv_step.splits)

text \<open>
  Lines 478 to 499, the header: \<open>lenbuf\<close> are the bytes read so far, so \<open>total_read\<close> is its
  length and \<open>total_size\<close> is \<open>4 - total_read\<close>. The result is the buffer, or \<open>None\<close> for
  \<^verbatim>\<open>return NULL\<close>. A failed or a short \<open>recv\<close> is repeated when \<open>errno\<close> says so; for a
  short one that is the \<open>errno\<close> of an earlier call.
\<close>

function read_header :: "string \<Rightarrow> rsock \<Rightarrow> (string option \<times> rsock) res" where
  "read_header lenbuf s =
     bindE (c_recv (4 - length lenbuf) s) (\<lambda>(read_bytes, d, s').
       if read_bytes = int (4 - length lenbuf) then Inr (Some (lenbuf @ d), s')
       else if read_bytes = 0 then Inr (None, s')
       else if try_again (rerrno s') then read_header (lenbuf @ d) s'
       else Inr (Some (lenbuf @ d), s'))"
  by pat_completeness auto
termination
  by (relation "measure (\<lambda>(b, s). length (rplan s))") (auto dest: c_recv_plan)

text \<open>Lines 504 to 520, the message: \<open>buf\<close> are the bytes read so far.\<close>

function read_body :: "nat \<Rightarrow> string \<Rightarrow> rsock \<Rightarrow> (string option \<times> rsock) res" where
  "read_body received buf s =
     (if length buf < received then
        bindE (c_recv (received - length buf) s) (\<lambda>(burst_len, d, s').
          if 0 < burst_len then read_body received (buf @ d) s'
          else if burst_len = 0 then Inr (None, s')
          else read_body received buf s')
      else Inr (Some buf, s))"
  by pat_completeness auto
termination
  by (relation "measure (\<lambda>(n, b, s). length (rplan s))") (auto dest: c_recv_plan)

declare read_header.simps [simp del] read_body.simps [simp del]

text \<open>
  \<open>ret\<close> is the value of \<open>*ret\<close> before the call. The result is the buffer, \<open>*ret\<close> and the
  socket. A length of \<open>-1\<close> allocates nothing, and the last log line reads it; a smaller one makes \<open>calloc\<close>
  fail, and the log line reads a string at NULL.
\<close>

definition receive_from_fd :: "rsock \<Rightarrow> int \<Rightarrow> (string option \<times> int \<times> rsock) res" where
  "receive_from_fd s ret =
     bindE (read_header [] s) (\<lambda>(lenbuf, s).
       case lenbuf of
         None \<Rightarrow> Inr (None, ret, s)
       | Some lb \<Rightarrow>
           let received = atoi (cut_nul lb) in
           if received < -1 then Inl (UB Null_Deref)
           else if received = -1 then Inl (UB Invalid_Access)
           else bindE (read_body (nat received) [] s) (\<lambda>(b, s).
                  case b of None \<Rightarrow> Inr (None, ret, s) | Some b \<Rightarrow> Inr (Some b, received, s)))"

subsection \<open>Sending\<close>

datatype send_step = Accept nat | Send_fail errno

record wsock =
  outq :: string
  wplan :: "send_step list"

text \<open>
  The loop of \<open>send_to_fd\<close>: \<open>rest\<close> are the bytes of the buffer not yet sent, \<open>total_sent\<close>
  counts the others.
\<close>

fun send_loop :: "send_step list \<Rightarrow> string \<Rightarrow> string \<Rightarrow> int \<Rightarrow> (int \<times> wsock) res" where
  "send_loop plan out [] total_sent = Inr (total_sent, \<lparr>outq = out, wplan = plan\<rparr>)"
| "send_loop [] out (c # rest) total_sent = Inl Hang"
| "send_loop (Accept k # plan) out (c # rest) total_sent =
     (let d = take k (c # rest) in
      if d = [] then Inr (-1, \<lparr>outq = out, wplan = plan\<rparr>)
      else send_loop plan (out @ d) (drop k (c # rest)) (total_sent + int (length d)))"
| "send_loop (Send_fail e # plan) out (c # rest) total_sent =
     (if e = EAGAIN \<or> e = EWOULDBLOCK then send_loop plan out (c # rest) total_sent
      else Inr (-1, \<lparr>outq = out, wplan = plan\<rparr>))"

text \<open>\<open>buf\<close> is the array that is sent from; sending more than it holds reads past it.\<close>

definition send_to_fd :: "wsock \<Rightarrow> string \<Rightarrow> int \<Rightarrow> (int \<times> wsock) res" where
  "send_to_fd s buf len =
     (if int (length buf) < len then Inl (UB Invalid_Access)
      else send_loop (wplan s) (outq s) (take (nat len) buf) 0)"

subsection \<open>Lemmas: sending\<close>

lemma send_loop_out:
  "send_loop plan out buf t = Inr (rc, s') \<Longrightarrow> 0 \<le> t \<Longrightarrow>
   \<exists>k. outq s' = out @ take k buf \<and> k \<le> length buf \<and>
       (rc = t + int (length buf) \<and> k = length buf \<or> rc = -1 \<and> k < length buf)"
proof (induction plan out buf t rule: send_loop.induct)
  case (1 plan out t)
  then show ?case by auto
next
  case (2 out c rest t)
  then show ?case by simp
next
  case (3 k plan out c rest t)
  show ?case
  proof (cases "k = 0")
    case True
    with 3(2) show ?thesis by (auto intro: exI [of _ 0])
  next
    case False
    let ?d = "take k (c # rest)"
    have ne: "?d \<noteq> []" using False by (cases k) auto
    with 3(2) have run: "send_loop plan (out @ ?d) (drop k (c # rest)) (t + int (length ?d)) = Inr (rc, s')"
      by (simp only: send_loop.simps Let_def if_False)
    from 3(1) [OF refl ne run] 3(3) obtain j where
      j: "outq s' = (out @ ?d) @ take j (drop k (c # rest))" "j \<le> length (drop k (c # rest))"
      "rc = t + int (length ?d) + int (length (drop k (c # rest))) \<and> j = length (drop k (c # rest)) \<or>
       rc = -1 \<and> j < length (drop k (c # rest))" by auto
    have "length ?d + length (drop k (c # rest)) = length (c # rest)"
      by (metis append_take_drop_id length_append)
    moreover have "out @ take (length ?d + j) (c # rest) = (out @ ?d) @ take j (drop k (c # rest))"
      using j(2) by (cases "k \<le> length (c # rest)") (simp_all add: take_add del: take_Suc_Cons)
    ultimately show ?thesis using j by (intro exI [of _ "length ?d + j"]) auto
  qed
next
  case (4 e plan out c rest t)
  then show ?case by (auto split: if_splits intro: exI [of _ 0])
qed

text \<open>
  Sending ends, as long as the kernel goes on accepting bytes: a plan that accepts something as
  often as there are bytes is long enough.
\<close>

definition accepts :: "send_step list \<Rightarrow> nat" where
  "accepts p = length (filter (\<lambda>x. case x of Accept k \<Rightarrow> 0 < k | _ \<Rightarrow> False) p)"

lemma send_loop_total:
  "(send_loop plan out buf t = Inl Hang \<and> accepts plan < length buf) \<or>
   (\<exists>rc s'. send_loop plan out buf t = Inr (rc, s') \<and> accepts plan \<le> accepts (wplan s') + length buf)"
proof (induction plan out buf t rule: send_loop.induct)
  case (3 k plan out c rest t)
  show ?case
  proof (cases "k = 0")
    case False
    then obtain j where k: "k = Suc j" by (cases k) auto
    let ?d = "take k (c # rest)"
    have ne: "?d \<noteq> []" using k by simp
    have run: "send_loop (Accept k # plan) out (c # rest) t =
        send_loop plan (out @ ?d) (drop k (c # rest)) (t + int (length ?d))"
      using ne by (simp only: send_loop.simps Let_def if_False)
    have a: "accepts (Accept k # plan) = Suc (accepts plan)" using k by (simp add: accepts_def)
    have l: "length (drop k (c # rest)) < length (c # rest)" using k by simp
    show ?thesis using 3 [OF refl ne] l unfolding run a by fastforce
  qed (auto simp: accepts_def)
qed (auto simp: accepts_def)

lemma send_to_fd_total:
  assumes "0 \<le> len" "len \<le> int (length buf)"
  shows "(send_to_fd ws buf len = Inl Hang \<and> accepts (wplan ws) < nat len) \<or>
    (\<exists>rc ws'. send_to_fd ws buf len = Inr (rc, ws') \<and>
       accepts (wplan ws) \<le> accepts (wplan ws') + nat len)"
  using send_loop_total [of "wplan ws" "outq ws" "take (nat len) buf" 0] assms
  by (auto simp: send_to_fd_def min_def split: if_splits)

lemma send_to_fd_prefix:
  assumes "send_to_fd ws buf len = Inr (rc, ws')" "0 \<le> len"
  shows "\<exists>k. outq ws' = outq ws @ take k buf \<and>
           (rc = len \<and> int k = len \<or> rc = -1 \<and> int k < len)"
proof -
  from assms(1) have l: "len \<le> int (length buf)"
    and s: "send_loop (wplan ws) (outq ws) (take (nat len) buf) 0 = Inr (rc, ws')"
    by (auto simp: send_to_fd_def split: if_splits)
  have n: "length (take (nat len) buf) = nat len" using l by simp
  from send_loop_out [OF s] obtain k where
    k: "outq ws' = outq ws @ take k (take (nat len) buf)" "k \<le> nat len"
    "rc = int (nat len) \<and> k = nat len \<or> rc = -1 \<and> k < nat len"
    unfolding n by auto
  then show ?thesis using assms(2) by (intro exI [of _ k]) (auto simp: min_def)
qed

subsection \<open>Lemmas: receiving\<close>

lemma read_body_done: "length buf = n \<Longrightarrow> read_body n buf s = Inr (Some buf, s)"
  by (simp add: read_body.simps)

text \<open>
  What the plan has left, with \<open>errno\<close>, after \<open>n\<close> more bytes of a header have been read (\<open>None\<close> if it
  ends before, or if the code gives the header up: a \<open>recv\<close> failed or was short while \<open>errno\<close> does
  not say to try again), and after \<open>n\<close> bytes of a message (\<open>None\<close> only if it ends before).
\<close>

fun header_rest :: "errno \<Rightarrow> nat \<Rightarrow> recv_step list \<Rightarrow> (errno \<times> recv_step list) option" where
  "header_rest e n [] = None"
| "header_rest e n (Deliver k # p) =
     (if n \<le> Suc k then Some (e, p) else if try_again e then header_rest e (n - Suc k) p else None)"
| "header_rest e n (Recv_fail e' # p) = (if try_again e' then header_rest e' n p else None)"

fun body_rest :: "errno \<Rightarrow> nat \<Rightarrow> recv_step list \<Rightarrow> (errno \<times> recv_step list) option" where
  "body_rest e 0 p = Some (e, p)"
| "body_rest e (Suc n) [] = None"
| "body_rest e (Suc n) (Deliver k # p) = body_rest e (n - k) p"
| "body_rest e (Suc n) (Recv_fail e' # p) = body_rest e' (Suc n) p"

text \<open>The plan is enough for frames with messages of these lengths.\<close>

fun serves :: "errno \<Rightarrow> nat list \<Rightarrow> recv_step list \<Rightarrow> bool" where
  "serves e [] p \<longleftrightarrow> True"
| "serves e (n # ns) p \<longleftrightarrow> (case header_rest e 4 p of None \<Rightarrow> False
     | Some (e, p) \<Rightarrow> (case body_rest e n p of None \<Rightarrow> False | Some (e, p) \<Rightarrow> serves e ns p))"

lemma read_header_rest:
  "header_rest e n p = Some (e', p') \<Longrightarrow> n = 4 - length buf \<Longrightarrow> 0 < n \<Longrightarrow> length h = n \<Longrightarrow>
   read_header buf \<lparr>inq = h @ rest, rplan = p, rerrno = e\<rparr> = Inr (Some (buf @ h), \<lparr>inq = rest, rplan = p', rerrno = e'\<rparr>)"
proof (induction e n p arbitrary: buf h rule: header_rest.induct)
  case (2 e n k p)
  show ?case
  proof (cases "n \<le> Suc k")
    case True
    with 2 show ?thesis by (subst read_header.simps) (auto simp: c_recv_def Let_def min_def)
  next
    case False
    let ?d = "take (Suc k) h" and ?r = "drop (Suc k) h"
    have t: "try_again e" "header_rest e (n - Suc k) p = Some (e', p')"
      using 2(2) False by (auto split: if_splits)
    have "read_header (buf @ ?d) \<lparr>inq = ?r @ rest, rplan = p, rerrno = e\<rparr> =
        Inr (Some ((buf @ ?d) @ ?r), \<lparr>inq = rest, rplan = p', rerrno = e'\<rparr>)"
      by (rule 2(1) [OF False t(1,2)]) (use 2(3-5) False in auto)
    then have "read_header (buf @ ?d) \<lparr>inq = ?r @ rest, rplan = p, rerrno = e\<rparr> =
        Inr (Some (buf @ h), \<lparr>inq = rest, rplan = p', rerrno = e'\<rparr>)" by simp
    moreover have "int k \<noteq> 3 - int (length buf)" using 2(3) False by linarith
    ultimately show ?thesis using 2(3-5) False t(1)
      by (subst read_header.simps) (simp add: c_recv_def Let_def min_def)
  qed
next
  case (3 e n e1 p)
  then have "try_again e1" "header_rest e1 n p = Some (e', p')" by (auto split: if_splits)
  with 3 show ?case by (subst read_header.simps) (auto simp: c_recv_def)
qed simp

lemma read_body_rest:
  "body_rest e n p = Some (e', p') \<Longrightarrow> length h = n \<Longrightarrow>
   read_body (length buf + n) buf \<lparr>inq = h @ rest, rplan = p, rerrno = e\<rparr> = Inr (Some (buf @ h), \<lparr>inq = rest, rplan = p', rerrno = e'\<rparr>)"
proof (induction e n p arbitrary: buf h rule: body_rest.induct)
  case (1 e p)
  then show ?case by (simp add: read_body.simps)
next
  case (3 e n k p)
  let ?d = "take (Suc k) h" and ?r = "drop (Suc k) h"
  have l: "length ?r = n - k" "length (buf @ ?d) + (n - k) = length buf + Suc n" "0 < length ?d" using 3(3) by auto
  have "read_body (length buf + Suc n) (buf @ ?d) \<lparr>inq = ?r @ rest, rplan = p, rerrno = e\<rparr> =
      Inr (Some (buf @ h), \<lparr>inq = rest, rplan = p', rerrno = e'\<rparr>)"
    using 3(1) [of ?r "buf @ ?d"] 3(2) l(1) unfolding l(2) by simp
  moreover have "take (min (Suc k) (Suc n)) (h @ rest) = ?d" "drop (length ?d) (h @ rest) = ?r @ rest"
    using 3(3) by (auto simp: min_def)
  ultimately show ?case using l(3) by (subst read_body.simps) (simp add: c_recv_def Let_def)
next
  case (4 e n e1 p)
  then show ?case by (subst read_body.simps) (simp add: c_recv_def)
qed simp

definition deliveries :: "recv_step list \<Rightarrow> nat" where
  "deliveries p = length (filter (\<lambda>x. case x of Deliver k \<Rightarrow> True | _ \<Rightarrow> False) p)"

lemma deliveries_simps [simp]:
  "deliveries [] = 0" "deliveries (Deliver k # p) = Suc (deliveries p)" "deliveries (Recv_fail e # p) = deliveries p"
  by (simp_all add: deliveries_def)

text \<open>A plan with as many deliveries as bytes is long enough for a message.\<close>

lemma body_rest_deliveries: "n \<le> deliveries p \<Longrightarrow> body_rest e n p \<noteq> None"
  by (induction e n p rule: body_rest.induct) auto

lemma read_header_whole:
  "rplan s = Deliver k # p \<Longrightarrow> 3 \<le> k \<Longrightarrow> 4 \<le> length (inq s) \<Longrightarrow>
   read_header [] s = Inr (Some (take 4 (inq s)), s\<lparr>inq := drop 4 (inq s), rplan := p\<rparr>)"
  by (subst read_header.simps) (auto simp: c_recv_def Let_def min_def)

lemma read_header_closed:
  "rplan s = Deliver k # p \<Longrightarrow> inq s = [] \<Longrightarrow> read_header [] s = Inr (None, s\<lparr>rplan := p\<rparr>)"
  by (subst read_header.simps) (simp add: c_recv_def)

lemma receive_closed:
  "inq s = [] \<Longrightarrow> rplan s = Deliver k # p \<Longrightarrow> receive_from_fd s ret = Inr (None, ret, s\<lparr>rplan := p\<rparr>)"
  by (simp add: receive_from_fd_def read_header_closed)

text \<open>The bytes of a frame.\<close>

definition frame :: "string \<Rightarrow> string" where
  "frame msg = fmt_04d (int (length msg)) @ msg"

lemma receive_frame:
  assumes "length msg \<le> 9999" "header_rest e 4 p = Some (e1, p1)" "body_rest e1 (length msg) p1 = Some (e2, p2)"
  shows "receive_from_fd \<lparr>inq = frame msg @ rest, rplan = p, rerrno = e\<rparr> ret =
    Inr (Some msg, int (length msg), \<lparr>inq = rest, rplan = p2, rerrno = e2\<rparr>)"
proof -
  let ?n = "int (length msg)"
  let ?h = "fmt_04d ?n"
  have h: "length ?h = 4" "\<forall>c \<in> set ?h. c_isdigit c" "atoi ?h = ?n"
    using fmt_04d_nonneg [of ?n] assms(1) by auto
  have cut: "cut_nul ?h = ?h" using h(2) digit_facts by (intro cut_nul_id) auto
  have "read_header [] \<lparr>inq = ?h @ msg @ rest, rplan = p, rerrno = e\<rparr> =
      Inr (Some ([] @ ?h), \<lparr>inq = msg @ rest, rplan = p1, rerrno = e1\<rparr>)"
    by (rule read_header_rest [OF assms(2)]) (simp_all add: h(1))
  moreover from read_body_rest [OF assms(3) refl, of "[]" rest]
  have "read_body (length msg) [] \<lparr>inq = msg @ rest, rplan = p1, rerrno = e1\<rparr> =
      Inr (Some msg, \<lparr>inq = rest, rplan = p2, rerrno = e2\<rparr>)" by simp
  ultimately show ?thesis using h(3) cut by (simp add: receive_from_fd_def frame_def Let_def)
qed

text \<open>
  A header that \<open>recv\<close> cuts short while \<open>errno\<close> holds no code to try again (it tells nothing about a
  call that did not fail) is not read on: the digits so far are taken for the length.
\<close>

lemma cut_header_is_misread:
  assumes "length msg \<le> 999" "\<not> try_again e"
  shows "receive_from_fd \<lparr>inq = frame msg @ rest, rplan = Deliver 0 # p, rerrno = e\<rparr> ret =
    Inr (Some [], 0, \<lparr>inq = tl (frame msg) @ rest, rplan = p, rerrno = e\<rparr>)"
proof -
  have "length (dec_nat (length msg)) \<le> 3" using assms(1) by (subst length_dec_nat) auto
  then have "4 - length (dec_nat (length msg)) = Suc (3 - length (dec_nat (length msg)))" by simp
  then have "\<exists>t. frame msg = CHR ''0'' # t" by (simp add: frame_def fmt_04d_def zero_pad_def)
  then obtain t where t: "frame msg = CHR ''0'' # t" by blast
  have "atoi (cut_nul ''0'') = 0" by code_simp
  moreover have "read_header [] \<lparr>inq = frame msg @ rest, rplan = Deliver 0 # p, rerrno = e\<rparr> =
      Inr (Some ''0'', \<lparr>inq = t @ rest, rplan = p, rerrno = e\<rparr>)"
    using assms(2) by (subst read_header.simps) (simp add: t c_recv_def Let_def)
  ultimately show ?thesis by (simp add: t receive_from_fd_def read_body_done)
qed

subsection \<open>Properties\<close>

text \<open>\<open>send_to_fd\<close> returns \<open>len\<close> when exactly the first \<open>len\<close> bytes of the buffer have gone
  out, in order, however the kernel cuts them, and \<open>-1\<close> when a strict prefix of them has;
  nothing else is ever written.\<close>

theorem send_to_fd_writes_prefix:
  assumes "send_to_fd ws buf len = Inr (rc, ws')" "0 \<le> len"
  shows "\<exists>k. outq ws' = outq ws @ take k buf \<and>
           (rc = len \<and> int k = len \<or> rc = -1 \<and> int k < len)"
  using assms by (rule send_to_fd_prefix)

theorem send_to_fd_writes_prefix_witness:
  "\<exists>k. outq \<lparr>outq = ''hello'', wplan = []\<rparr> = outq \<lparr>outq = [], wplan = [Accept 2, Send_fail EAGAIN, Accept 9]\<rparr> @ take k ''hello'' \<and>
     ((5::int) = 5 \<and> int k = 5 \<or> (5::int) = -1 \<and> int k < 5)"
proof (rule send_to_fd_writes_prefix)
  show "send_to_fd \<lparr>outq = [], wplan = [Accept 2, Send_fail EAGAIN, Accept 9]\<rparr> ''hello'' 5 =
      Inr (5, \<lparr>outq = ''hello'', wplan = []\<rparr>)"
    by (simp add: send_to_fd_def eval_nat_numeral)
qed simp

text \<open>C8. Framing round trip: when the sender's two writes succeed for a length of up to four
  digits, the receiver assembles exactly the message and leaves the bytes after it. The plan of the
  \<open>recv\<close> calls may cut the message in any way, with any errors in between. It may cut the header only
  while \<open>errno\<close> holds a code to try again, left by some earlier call; this is what \<open>header_rest\<close> says, and a header
  that is delivered whole always passes. (\<open>cut_header_is_misread\<close>: otherwise the message is lost.)\<close>

theorem frame_roundtrip:
  assumes "0 \<le> len" "len \<le> 9999" "outq ws = []"
    and "send_to_fd ws (fmt_04d len) 4 = Inr (rc1, ws1)" "rc1 \<noteq> -1"
    and "send_to_fd ws1 buf len = Inr (rc2, ws2)" "rc2 \<noteq> -1"
    and "inq s = outq ws2 @ rest" "header_rest (rerrno s) 4 (rplan s) = Some (e1, p1)"
    and "body_rest e1 (nat len) p1 = Some (e2, p2)"
  shows "receive_from_fd s ret = Inr (Some (take (nat len) buf), len, \<lparr>inq = rest, rplan = p2, rerrno = e2\<rparr>)"
proof -
  have h: "length (fmt_04d len) = 4" using fmt_04d_nonneg(1) [OF assms(1,2)] .
  have send: "outq w' = outq w @ take (nat l) b"
    if "send_to_fd w b l = Inr (rc, w')" "0 \<le> l" "rc \<noteq> -1" for w b l rc w'
    using send_to_fd_prefix [OF that(1,2)] that(2,3) by auto
  have "outq ws2 = fmt_04d len @ take (nat len) buf"
    using send [OF assms(6,1,7)] send [OF assms(4) _ assms(5)] assms(3) h by simp
  moreover have l: "length (take (nat len) buf) = nat len"
    using assms(6,1) by (simp add: send_to_fd_def split: if_splits)
  ultimately have "s = \<lparr>inq = frame (take (nat len) buf) @ rest, rplan = rplan s, rerrno = rerrno s\<rparr>"
    "int (length (take (nat len) buf)) = len"
    using assms(1,8) by (simp_all add: frame_def)
  with receive_frame [of "take (nat len) buf", OF _ assms(9)] assms(2,10) show ?thesis by (metis l of_nat_le_iff of_nat_numeral)
qed

theorem frame_roundtrip_witness:
  "receive_from_fd \<lparr>inq = ''0002hi'' @ ''00'', rplan = [Recv_fail EINTR, Deliver 1, Deliver 1, Recv_fail (E_other 5), Deliver 0, Deliver 0],
       rerrno = E_none\<rparr> 0 = Inr (Some (take (nat 2) ''hi''), 2, \<lparr>inq = ''00'', rplan = [], rerrno = E_other 5\<rparr>)"
proof (rule frame_roundtrip)
  have f: "fmt_04d 2 = ''0002''" by code_simp
  show "send_to_fd \<lparr>outq = [], wplan = [Accept 9, Accept 9]\<rparr> (fmt_04d 2) 4 =
      Inr (4, \<lparr>outq = ''0002'', wplan = [Accept 9]\<rparr>)"
    unfolding f by (simp add: send_to_fd_def eval_nat_numeral)
  show "send_to_fd \<lparr>outq = ''0002'', wplan = [Accept 9]\<rparr> ''hi'' 2 = Inr (2, \<lparr>outq = ''0002hi'', wplan = []\<rparr>)"
    by (simp add: send_to_fd_def eval_nat_numeral)
  have "nat 2 = Suc (Suc 0)" by simp
  then show "body_rest EINTR (nat 2) [Recv_fail (E_other 5), Deliver 0, Deliver 0] = Some (E_other 5, [])"
    by (simp only: body_rest.simps diff_zero)
qed (simp_all add: try_again_def eval_nat_numeral)

end
