(* ===== verification/Worker.thy ===== *)
theory Worker
  imports MsgQueue Xml Wire
begin

section \<open>The threads: \<^verbatim>\<open>work.c\<close>\<close>

text \<open>
  The global state of the module and the work of its threads, one round of each loop at a
  time: the client's \<open>ready_to_send\<close>, the receiver and the sender of a peer, the queue
  manager. A call of a client callback is an event; a call through a NULL function pointer is
  a fault. The functions here are the bodies between two visits of the loop head; \<open>Reach\<close> runs
  them in any order.
\<close>

subsection \<open>Global state and events\<close>

record glob =
  cfg :: configurator               \<comment> \<open>\<open>gconfig\<close>, \<open>ref_gcfg\<close>\<close>
  conns :: "con_t list"             \<comment> \<open>\<open>gconn_list\<close>, \<open>gcl\<close>\<close>
  glast_con_rr :: int
  gmsgq :: "msgque_t lqueue"
  gtsidq :: "tsidque_t lqueue"
  requests :: reqs
  c_strs :: "addr \<Rightarrow> bool"           \<comment> \<open>the strings of the client, as far as \<^verbatim>\<open>%s\<close> reads them\<close>
  reg_req_cb :: addr                \<comment> \<open>\<open>req_cb\<close>\<close>
  reg_res_cb :: addr                \<comment> \<open>\<open>res_cb\<close>\<close>
  reg_res_param :: addr

datatype event =
    Call_req addr int request_t int           \<comment> \<open>\<open>reg_req_cb (is_timeout, req, elapsed)\<close>\<close>
  | Call_res addr int addr response_t int     \<comment> \<open>\<open>callback_f (is_timeout, param, res, elapsed)\<close>\<close>

definition call_req :: "addr \<Rightarrow> int \<Rightarrow> request_t \<Rightarrow> int \<Rightarrow> event list res" where
  "call_req f is_timeout req elapsed =
     (if f = 0 then Inl (UB Null_Deref) else Inr [Call_req f is_timeout req elapsed])"

definition call_res :: "addr \<Rightarrow> int \<Rightarrow> addr \<Rightarrow> response_t \<Rightarrow> int \<Rightarrow> event list res" where
  "call_res f is_timeout param res elapsed =
     (if f = 0 then Inl (UB Null_Deref) else Inr [Call_res f is_timeout param res elapsed])"

subsection \<open>Client side\<close>

definition register_callback_request :: "addr \<Rightarrow> glob \<Rightarrow> int \<times> glob" where
  "register_callback_request f g = (1, g\<lparr>reg_req_cb := f\<rparr>)"

definition register_callback_responses :: "addr \<Rightarrow> addr \<Rightarrow> glob \<Rightarrow> int \<times> glob" where
  "register_callback_responses f p g = (1, g\<lparr>reg_res_cb := f, reg_res_param := p\<rparr>)"

text \<open>
  \<open>ready_to_send\<close>: the part under \<open>qtex\<close>, then the test that decides whether a sender is
  woken. The result is the return value, whether \<open>condition_cond\<close> is signalled, and the state.
\<close>

definition push_request :: "addr \<Rightarrow> addr \<Rightarrow> addr \<Rightarrow> timeval \<Rightarrow> glob \<Rightarrow> glob res" where
  "push_request req f p now g =
     bindE (load_req (requests g) req) (\<lambda>r.
     bindE (c_str (req_id r)) (\<lambda>s.
     bindE (push_to_msgq (conns g) (num_peers (cfg g)) (gmsgq g) (gtsidq g) (glast_con_rr g)
              (Some s) (msg_len r) req now f p) (\<lambda>(mq, iq, rr).
       Inr (g\<lparr>gmsgq := mq, gtsidq := iq, glast_con_rr := rr\<rparr>))))"

definition signal_test :: "glob \<Rightarrow> bool res" where
  "signal_test g = bindE (load (qmem (gmsgq g)) (qhead (gmsgq g))) (\<lambda>c. Inr (c_next c = 0))"

definition ready_to_send :: "addr \<Rightarrow> addr \<Rightarrow> addr \<Rightarrow> timeval \<Rightarrow> glob \<Rightarrow> (int \<times> bool \<times> glob) res" where
  "ready_to_send req f p now g =
     bindE (push_request req f p now g) (\<lambda>g.
     bindE (signal_test g) (\<lambda>b. Inr (1, b, g)))"

text \<open>
  \<open>rcv_pipe_thread\<close>, one \<open>read\<close> of at most 8 bytes: the text of an address. \<open>None\<close> is the
  end of the pipe, which the code reopens. (The thread is not started by \<open>manage\<close>.)
\<close>

definition rcv_pipe_round :: "string option \<Rightarrow> timeval \<Rightarrow> glob \<Rightarrow> glob res" where
  "rcv_pipe_round rd now g = (case rd of None \<Rightarrow> Inr g
     | Some bytes \<Rightarrow> push_request (nat (atol (cut_nul (take 8 bytes)))) 0 0 now g)"

definition qmanager_round :: "(nat \<Rightarrow> timeval) \<Rightarrow> glob \<Rightarrow> glob res" where
  "qmanager_round nows g =
     bindE (list_expired_idq (c_strs g) (gtsidq g) nows) (\<lambda>q. Inr (g\<lparr>gtsidq := q\<rparr>))"

subsection \<open>Receiver: dispatch of one message\<close>

definition attr :: "string option \<Rightarrow> int \<Rightarrow> string \<Rightarrow> string \<Rightarrow> xchar" where
  "attr message rc sk ek = snd (parse_xml_attribute message rc sk ek)"

definition attr_text :: "string option \<Rightarrow> int \<Rightarrow> string \<Rightarrow> string \<Rightarrow> string" where
  "attr_text message rc sk ek = xc_string message (attr message rc sk ek)"

definition new_request :: "string \<Rightarrow> int \<Rightarrow> int \<Rightarrow> int \<Rightarrow> request_t" where
  "new_request message rc no_trans picked =
     \<lparr>req_buf = message, msg_len = rc, picked_up = picked, no_transaction = no_trans,
      req_id = replicate KEY_SIZE NUL\<rparr>"

definition msg_bytes :: "string option \<Rightarrow> string" where
  "msg_bytes message = (case message of None \<Rightarrow> [] | Some b \<Rightarrow> b)"

text \<open>Lines 95 to 119: an event request.\<close>

definition event_request :: "timeval \<Rightarrow> string option \<Rightarrow> int \<Rightarrow> glob \<Rightarrow> (glob \<times> event list) res" where
  "event_request now message rc g =
     (let tid = attr_text message rc ''<TID>'' ''</TID>'' in
      bindE (lookup_ID_idq (gtsidq g) (Some tid) now tsid_zero) (\<lambda>(lookup, elapsed, n).
        if lookup = 1
        then bindE (call_req (reg_req_cb g) 1 (new_request (msg_bytes message) rc 1 1) elapsed)
               (\<lambda>ev. Inr (g, ev))
        else bindE (call_req (reg_req_cb g) 0 (new_request (msg_bytes message) rc 0 0) elapsed)
               (\<lambda>ev. Inr (g, ev))))"

text \<open>
  Lines 132 to 151 and again 215 to 236: the response with transaction id \<open>tid\<close> goes to the
  callback registered for it, and the session is removed. The \<open>strcpy\<close> into \<open>res->id\<close>
  comes before the test of \<open>lookup\<close>.
\<close>

definition deliver_response ::
  "timeval \<Rightarrow> string option \<Rightarrow> string \<Rightarrow> int \<Rightarrow> glob \<Rightarrow> (glob \<times> event list) res" where
  "deliver_response now message tid retc g =
     bindE (lookup_ID_idq (gtsidq g) (Some tid) now tsid_zero) (\<lambda>(lookup, elapsed, n).
     bindE (store_str KEY_SIZE tid) (\<lambda>rid.
       let res = \<lparr>res_id = rid, retcode = retc, query_res = msg_bytes message\<rparr> in
       if lookup = 1 then
         bindE (call_res (callback_f n) (if is_expired n = 0 then 0 else 1) (callback_param n) res elapsed)
           (\<lambda>ev. bindE (rem_id (gtsidq g) tid) (\<lambda>q. Inr (g\<lparr>gtsidq := q\<rparr>, ev)))
       else Inr (g, [])))"

text \<open>Lines 124 to 152: an event response.\<close>

definition event_response :: "timeval \<Rightarrow> string option \<Rightarrow> int \<Rightarrow> glob \<Rightarrow> (glob \<times> event list) res" where
  "event_response now message rc g =
     (let retc = atoi (attr_text message rc ''<REPLY_CODE>'' ''</REPLY_CODE>'');
          tid = attr_text message rc ''<TID>'' ''</TID>''
      in deliver_response now message tid retc g)"

text \<open>Lines 170 to 188: a session request.\<close>

definition session_request :: "timeval \<Rightarrow> string option \<Rightarrow> int \<Rightarrow> glob \<Rightarrow> (glob \<times> event list) res" where
  "session_request now message rc g =
     (if 0 < xc_len (attr message rc ''<SID>'' ''</SID>'')
      then bindE (call_req (reg_req_cb g) 0 (new_request (msg_bytes message) rc 0 1) 0)
             (\<lambda>ev. Inr (g, ev))
      else Inr (g, []))"

text \<open>Lines 193 to 236: a session response; with a session id it goes to the request callback.\<close>

definition session_response :: "timeval \<Rightarrow> string option \<Rightarrow> int \<Rightarrow> glob \<Rightarrow> (glob \<times> event list) res" where
  "session_response now message rc g =
     (let retc = atoi (attr_text message rc ''<REPLY_CODE>'' ''</REPLY_CODE>'');
          tid = attr_text message rc ''<TID>'' ''</TID>''
      in if 0 < xc_len (attr message rc ''<SID>'' ''</SID>'')
         then bindE (call_req (reg_req_cb g) 0 (new_request (msg_bytes message) rc 0 1) 0)
                (\<lambda>ev. Inr (g, ev))
         else deliver_response now message tid retc g)"

text \<open>The \<open>default\<close> case of the \<open>switch\<close>, lines 81 to 239.\<close>

definition handle_message :: "timeval \<Rightarrow> string option \<Rightarrow> int \<Rightarrow> glob \<Rightarrow> (glob \<times> event list) res" where
  "handle_message now message rc g =
     (let typ = attr message rc ''<TYPE>'' ''</TYPE>'';
          type1 = (atoi (attr_text message rc ''<TYPE>'' ''</TYPE>'') = 1)
      in if 0 < xc_len (attr message rc ''<EVENT>'' ''</EVENT>'') then
           (if 0 < xc_len typ then
              (if type1 then event_request now message rc g else event_response now message rc g)
            else Inr (g, []))
         else
           (if 0 < xc_len typ then
              (if type1 then session_request now message rc g else session_response now message rc g)
            else Inr (g, [])))"

subsection \<open>Receiver: one round\<close>

definition set_con_state :: "nat \<Rightarrow> int \<Rightarrow> con_t list \<Rightarrow> con_t list" where
  "set_con_state i x cl = cl[i := (cl ! i)\<lparr>state := x\<rparr>]"

text \<open>
  Lines 60 to 68: the receiver of entry \<open>i\<close> recreates the connection numbered by the entry's
  \<open>peer_id\<close> until its own entry is up. \<open>ds\<close> are the outcomes of the attempts; after them the
  loop still runs.
\<close>

fun reconnect_loop :: "nat \<Rightarrow> configurator \<Rightarrow> dial list \<Rightarrow> con_t list \<Rightarrow> con_t list res" where
  "reconnect_loop i cf ds cl =
     (if length cl \<le> i then Inl (UB Invalid_Access)
      else if state (cl ! i) = 1 then Inr cl
      else case ds of [] \<Rightarrow> Inl Hang
        | d # ds' \<Rightarrow> bindE (recreate_conn (peer_id (cl ! i)) cf d cl) (reconnect_loop i cf ds'))"

declare reconnect_loop.simps [simp del]

text \<open>
  A round from the label \<open>reconn\<close>: \<open>rc\<close> is the local variable, which \<open>receive_from_fd\<close> may
  leave as it was; \<open>socks\<close> gives the socket behind a descriptor.
\<close>

definition recv_round ::
  "nat \<Rightarrow> dial list \<Rightarrow> (int \<Rightarrow> rsock) \<Rightarrow> timeval \<Rightarrow> int \<Rightarrow> glob \<Rightarrow> (glob \<times> int \<times> rsock \<times> event list) res" where
  "recv_round i ds socks now rc g =
     bindE (reconnect_loop i (cfg g) ds (conns g)) (\<lambda>cl.
       let g = g\<lparr>conns := cl\<rparr> in
       bindE (receive_from_fd (socks (fd (cl ! i))) rc) (\<lambda>(message, rc, s).
         if rc = 0 then Inr (g\<lparr>conns := set_con_state i 0 cl\<rparr>, rc, s, [])
         else bindE (handle_message now message rc g) (\<lambda>(g, ev). Inr (g, rc, s, ev))))"

subsection \<open>Sender: one round\<close>

text \<open>
  Lines 263 to 293, after the wait for a non-empty queue. \<open>d\<close> is the outcome of the attempt to
  recreate the connection, \<open>ws\<close> the socket. The result tells whether a message was taken. The
  logging call reads \<open>req_buf\<close> as a C string.
\<close>

definition send_node :: "nat \<Rightarrow> addr \<Rightarrow> wsock \<Rightarrow> glob \<Rightarrow> (glob \<times> wsock) res" where
  "send_node i node ws g =
     bindE (load (qmem (gmsgq g)) node) (\<lambda>c. let v = c_val c in
     bindE (store_str 5 (fmt_04d (mq_len v))) (\<lambda>msglen.
     bindE (send_to_fd ws msglen (int (length msglen))) (\<lambda>(rc1, ws).
       let cl1 = (if rc1 = -1 then set_con_state i 0 (conns g) else conns g) in
     bindE (load_req (requests g) (mq_data v)) (\<lambda>r.
     bindE (c_str (req_buf r)) (\<lambda>_.
     bindE (send_to_fd ws (req_buf r) (mq_len v)) (\<lambda>(rc2, ws).
       let cl2 = (if rc2 = -1 then set_con_state i 0 cl1 else cl1) in
     bindE (free_req (requests g) (mq_data v)) (\<lambda>h.
     bindE (free_cell (qmem (gmsgq g)) node) (\<lambda>m.
       Inr (g\<lparr>conns := cl2, requests := h, gmsgq := (gmsgq g)\<lparr>qmem := m\<rparr>\<rparr>, ws)))))))))"

definition send_round ::
  "nat \<Rightarrow> dial \<Rightarrow> wsock \<Rightarrow> glob \<Rightarrow> (glob \<times> wsock \<times> bool) res" where
  "send_round i d ws g =
     (if length (conns g) \<le> i then Inl (UB Invalid_Access) else
      bindE (if state (conns g ! i) \<noteq> 1
             then recreate_conn (peer_id (conns g ! i)) (cfg g) d (conns g)
             else Inr (conns g)) (\<lambda>cl.
      bindE (pop_from_msgq (gmsgq g) (peer_id (cl ! i))) (\<lambda>(node, mq).
        let g = g\<lparr>conns := cl, gmsgq := mq\<rparr> in
        if node = 0 then Inr (g, ws, False)
        else bindE (send_node i node ws g) (\<lambda>(g, ws). Inr (g, ws, True)))))"

end
