(* ===== verification/Broker.thy ===== *)
theory Broker
  imports Worker
begin

section \<open>What the module promises: the abstract broker\<close>

text \<open>
  Seen from outside, the two queues are a table of sessions and a list of messages. This
  theory states the operations on that view and proves that the pointer code of \<open>IdQueue\<close>,
  \<open>MsgQueue\<close> and \<open>Worker\<close> refines them, and that they keep the invariant of the view.
\<close>

record broker =
  b_sessions :: "tsidque_t list"
  b_queue :: "msgque_t list"
  b_rr :: int

definition broker_rep :: "glob \<Rightarrow> broker \<Rightarrow> bool" where
  "broker_rep g b \<longleftrightarrow> queue_rep False (gtsidq g) (b_sessions b) \<and>
     queue_rep True (gmsgq g) (b_queue b) \<and> glast_con_rr g = b_rr b"

text \<open>
  Ids are distinct and not empty, every connection number is one of a peer, and so is the
  round-robin position.
\<close>

definition broker_ok :: "int \<Rightarrow> broker \<Rightarrow> bool" where
  "broker_ok n b \<longleftrightarrow> 0 \<le> b_rr b \<and> b_rr b < n \<and> distinct (map tq_id (b_sessions b)) \<and>
     (\<forall>e \<in> set (b_sessions b). tq_id e \<noteq> [] \<and> 0 \<le> tq_conn e \<and> tq_conn e < n) \<and>
     (\<forall>e \<in> set (b_queue b). 0 \<le> mq_conn e \<and> mq_conn e < n)"

subsection \<open>The operations\<close>

definition b_session ::
  "con_t list \<Rightarrow> int \<Rightarrow> string \<Rightarrow> timeval \<Rightarrow> addr \<Rightarrow> addr \<Rightarrow> broker \<Rightarrow> (int \<times> broker) res" where
  "b_session cl n s now f p b =
     (case find (has_id s) (b_sessions b) of
        Some e \<Rightarrow> Inr (tq_conn e,
          b\<lparr>b_sessions := upd_first (has_id s) (refresh now f p) (b_sessions b)\<rparr>)
      | None \<Rightarrow> bindE (assign_conn cl n (b_rr b)) (\<lambda>(con, rr).
          Inr (con, b\<lparr>b_sessions := b_sessions b @ [new_entry s con now f p], b_rr := rr\<rparr>)))"

definition b_push ::
  "con_t list \<Rightarrow> int \<Rightarrow> string \<Rightarrow> int \<Rightarrow> addr \<Rightarrow> timeval \<Rightarrow> addr \<Rightarrow> addr \<Rightarrow> broker \<Rightarrow> broker res" where
  "b_push cl n s len data now f p b =
     bindE (b_session cl n s now f p b) (\<lambda>(con, b).
       Inr (b\<lparr>b_queue := b_queue b @
         [\<lparr>mq_data = data, mq_id = s, mq_len = len, mq_conn = con\<rparr>]\<rparr>))"

definition b_take :: "int \<Rightarrow> broker \<Rightarrow> broker" where
  "b_take con b = b\<lparr>b_queue := rem_first (for_conn con) (b_queue b)\<rparr>"

definition b_close :: "string \<Rightarrow> broker \<Rightarrow> broker" where
  "b_close s b = b\<lparr>b_sessions := rem_first (has_id s) (b_sessions b)\<rparr>"

definition b_expire :: "(nat \<Rightarrow> timeval) \<Rightarrow> broker \<Rightarrow> broker" where
  "b_expire nows b = b\<lparr>b_sessions := mark_all nows 0 (b_sessions b)\<rparr>"

subsection \<open>The invariant\<close>

lemma set_rem_first: "set (rem_first P xs) \<subseteq> set xs"
  by (induction xs) auto

lemma rem_first_map_distinct: "distinct (map f xs) \<Longrightarrow> distinct (map f (rem_first P xs))"
proof (induction xs)
  case Nil
  then show ?case by simp
next
  case (Cons x xs)
  have "f ` set (rem_first P xs) \<subseteq> f ` set xs" by (rule image_mono [OF set_rem_first])
  with Cons show ?case by auto
qed

lemma map_upd_first: "(\<And>x. f (g x) = f x) \<Longrightarrow> map f (upd_first P g xs) = map f xs"
  by (induction xs) auto

lemma set_upd_first: "x \<in> set (upd_first P g xs) \<Longrightarrow> x \<in> set xs \<or> (\<exists>y \<in> set xs. x = g y)"
  by (induction xs) (auto split: if_splits)

lemma map_mark_all: "(\<And>t e. f (mark_expired t e) = f e) \<Longrightarrow> map f (mark_all nows i es) = map f es"
  by (induction es arbitrary: i) auto

lemma set_mark_all: "x \<in> set (mark_all nows i es) \<Longrightarrow> \<exists>e \<in> set es. \<exists>t. x = mark_expired t e"
  by (induction es arbitrary: i) auto

lemma broker_ok_session:
  assumes "broker_ok n b" "s \<noteq> []" "n \<le> int (length cl)"
    and "b_session cl n s now f p b = Inr (con, b')"
  shows "broker_ok n b' \<and> 0 \<le> con \<and> con < n \<and> b_queue b' = b_queue b"
proof (cases "find (has_id s) (b_sessions b)")
  case (Some e)
  then have e: "e \<in> set (b_sessions b)" by (auto dest: find_split)
  have "map tq_id (upd_first (has_id s) (refresh now f p) (b_sessions b)) = map tq_id (b_sessions b)"
    by (rule map_upd_first) (simp add: refresh_def)
  moreover have "tq_id x \<noteq> [] \<and> 0 \<le> tq_conn x \<and> tq_conn x < n"
    if "x \<in> set (upd_first (has_id s) (refresh now f p) (b_sessions b))" for x
    using set_upd_first [OF that] assms(1) by (auto simp: broker_ok_def refresh_def)
  ultimately show ?thesis
    using Some e assms(1,4) by (auto simp: b_session_def broker_ok_def)
next
  case None
  with assms(4) obtain rr where a: "assign_conn cl n (b_rr b) = Inr (con, rr)"
    and b': "b' = b\<lparr>b_sessions := b_sessions b @ [new_entry s con now f p], b_rr := rr\<rparr>"
    by (auto simp: b_session_def outcome_iffs)
  have rr: "0 \<le> b_rr b" "b_rr b < n" using assms(1) by (auto simp: broker_ok_def)
  from a assign_conn_find [OF rr assms(3)] obtain c where
    c: "find (con_up cl) (tried n (b_rr b) (nat n)) = Some c" "con = int c" "rr = bump n (int c)"
    by (auto split: option.splits)
  then have "c \<in> set (tried n (b_rr b) (nat n))" by (auto dest: find_split)
  then have "0 \<le> con" "con < n" using tried_set [OF rr] c(2) by auto
  moreover have "0 \<le> rr" "rr < n" using bump_range [of con n] c(2,3) calculation by auto
  moreover have "s \<notin> tq_id ` set (b_sessions b)"
    using None by (auto simp: find_None_iff has_id_def)
  ultimately show ?thesis
    using assms(1,2) b' by (auto simp: broker_ok_def new_entry_def)
qed

lemma broker_ok_push:
  assumes "broker_ok n b" "s \<noteq> []" "n \<le> int (length cl)"
    and "b_push cl n s len data now f p b = Inr b'"
  shows "broker_ok n b'"
proof -
  from assms(4) obtain con b1 where s: "b_session cl n s now f p b = Inr (con, b1)"
    "b' = b1\<lparr>b_queue := b_queue b1 @ [\<lparr>mq_data = data, mq_id = s, mq_len = len, mq_conn = con\<rparr>]\<rparr>"
    by (auto simp: b_push_def outcome_iffs)
  with broker_ok_session [OF assms(1-3) s(1)] show ?thesis by (auto simp: broker_ok_def)
qed

lemma broker_ok_take: "broker_ok n b \<Longrightarrow> broker_ok n (b_take con b)"
  using set_rem_first [of "for_conn con" "b_queue b"] by (auto simp: broker_ok_def b_take_def)

lemma broker_ok_close: "broker_ok n b \<Longrightarrow> broker_ok n (b_close s b)"
  using set_rem_first [of "has_id s" "b_sessions b"]
  by (auto simp: broker_ok_def b_close_def rem_first_map_distinct)

lemma broker_ok_expire:
  assumes "broker_ok n b" shows "broker_ok n (b_expire nows b)"
proof -
  have "map tq_id (mark_all nows 0 (b_sessions b)) = map tq_id (b_sessions b)"
    by (rule map_mark_all) (simp add: mark_expired_def)
  moreover have "tq_id x \<noteq> [] \<and> 0 \<le> tq_conn x \<and> tq_conn x < n"
    if "x \<in> set (mark_all nows 0 (b_sessions b))" for x
    using set_mark_all [OF that] assms by (auto simp: broker_ok_def mark_expired_def split: if_splits)
  ultimately show ?thesis using assms by (auto simp: broker_ok_def b_expire_def)
qed

subsection \<open>Refinement\<close>

text \<open>
  Pushing: the code ends exactly as the abstract operation does, faults and endless loop
  included, and leaves queues that represent the abstract result.
\<close>

lemma push_refines:
  assumes rep: "broker_rep g b" and ok: "broker_ok n b" and s: "s \<noteq> []" "length s < KEY_SIZE"
  shows "case b_push cl n s len data now f p b of
      Inl e \<Rightarrow> push_to_msgq cl n (gmsgq g) (gtsidq g) (glast_con_rr g) (Some s) len data now f p = Inl e
    | Inr b' \<Rightarrow> \<exists>mq iq rr.
        push_to_msgq cl n (gmsgq g) (gtsidq g) (glast_con_rr g) (Some s) len data now f p = Inr (mq, iq, rr) \<and>
        broker_rep (g\<lparr>gmsgq := mq, gtsidq := iq, glast_con_rr := rr\<rparr>) b'"
proof -
  from rep have r: "queue_rep False (gtsidq g) (b_sessions b)" "queue_rep True (gmsgq g) (b_queue b)"
    "glast_con_rr g = b_rr b" by (auto simp: broker_rep_def)
  have st: "store_str KEY_SIZE s = Inr s" using s by (simp add: store_str_def)
  have enq: "\<exists>mq. enqueue (gmsgq g) v = Inr mq \<and> queue_rep True mq (b_queue b @ [v])" for v
    by (rule enqueue_rep [OF r(2)])
  show ?thesis
  proof (cases "find (has_id s) (b_sessions b)")
    case (Some e)
    then have "e \<in> set (b_sessions b)" by (auto dest: find_split)
    then have "tq_conn e \<noteq> -1" using ok by (auto simp: broker_ok_def)
    from session_conn_known [OF r(1) s(1) Some this] obtain iq where
      iq: "session_conn cl n (gtsidq g) (glast_con_rr g) s now f p = Inr (tq_conn e, iq, glast_con_rr g)"
      "queue_rep False iq (upd_first (has_id s) (refresh now f p) (b_sessions b))" by blast
    from enq [of "\<lparr>mq_data = data, mq_id = s, mq_len = len, mq_conn = tq_conn e\<rparr>"] obtain mq where
      mq: "enqueue (gmsgq g) \<lparr>mq_data = data, mq_id = s, mq_len = len, mq_conn = tq_conn e\<rparr> = Inr mq"
      "queue_rep True mq (b_queue b @ [\<lparr>mq_data = data, mq_id = s, mq_len = len, mq_conn = tq_conn e\<rparr>])"
      by blast
    show ?thesis using iq mq st s Some r(3)
      by (simp add: push_to_msgq_def b_push_def b_session_def broker_rep_def)
  next
    case None
    show ?thesis
    proof (cases "assign_conn cl n (b_rr b)")
      case (Inl e)
      with None idq.present_law [OF r(1) s(1), of "-1"] st s r(3) show ?thesis
        by (simp add: push_to_msgq_def session_conn_def add_entry_idq_def b_push_def b_session_def
            calloc_cell_def)
    next
      case (Inr x)
      then obtain con rr where a: "assign_conn cl n (glast_con_rr g) = Inr (con, rr)"
        using r(3) by (cases x) auto
      from session_conn_new [OF r(1) s(1) None a] obtain iq where
        iq: "session_conn cl n (gtsidq g) (glast_con_rr g) s now f p = Inr (con, iq, rr)"
        "queue_rep False iq (b_sessions b @ [new_entry s con now f p])" by blast
      from enq [of "\<lparr>mq_data = data, mq_id = s, mq_len = len, mq_conn = con\<rparr>"] obtain mq where
        mq: "enqueue (gmsgq g) \<lparr>mq_data = data, mq_id = s, mq_len = len, mq_conn = con\<rparr> = Inr mq"
        "queue_rep True mq (b_queue b @ [\<lparr>mq_data = data, mq_id = s, mq_len = len, mq_conn = con\<rparr>])"
        by blast
      show ?thesis using iq mq st s None a r(3)
        by (simp add: push_to_msgq_def b_push_def b_session_def broker_rep_def)
    qed
  qed
qed

lemma pop_refines:
  assumes "broker_rep g b" "find (for_conn con) (b_queue b) = Some v" "\<not> tail_only con (b_queue b)"
  shows "\<exists>a mq. pop_from_msgq (gmsgq g) con = Inr (a, mq) \<and> a \<noteq> 0 \<and> msg_payload mq a = Inr v \<and>
           broker_rep (g\<lparr>gmsgq := mq\<rparr>) (b_take con b)"
  using msgq.deq_some [of "gmsgq g" "b_queue b" con v] assms
  by (auto simp: broker_rep_def b_take_def)

lemma rem_id_refines:
  "broker_rep g b \<Longrightarrow> \<exists>iq. rem_id (gtsidq g) s = Inr iq \<and> broker_rep (g\<lparr>gtsidq := iq\<rparr>) (b_close s b)"
  using idq.remove_law [of "gtsidq g" "b_sessions b" s] by (auto simp: broker_rep_def b_close_def)

lemma qmanager_refines:
  "broker_rep g b \<Longrightarrow>
   if marks_ok (c_strs g) nows 0 (b_sessions b)
   then \<exists>g'. qmanager_round nows g = Inr g' \<and> broker_rep g' (b_expire nows b)
   else \<exists>x. qmanager_round nows g = Inl (UB x)"
  using idq.expire_law [of "gtsidq g" "b_sessions b" "c_strs g" nows]
  by (auto simp: broker_rep_def b_expire_def qmanager_round_def split: if_splits)

lemma qmanager_round_expires:
  assumes "broker_rep g b" "qmanager_round nows g = Inr g'"
  shows "broker_rep g' (b_expire nows b) \<and> cfg g' = cfg g \<and> conns g' = conns g \<and> gmsgq g' = gmsgq g \<and> c_strs g' = c_strs g"
  using qmanager_refines [OF assms(1), of nows] assms(2)
  by (auto simp: qmanager_round_def outcome_iffs split: if_splits)

text \<open>
  A response: the callback of the session is called with the timeout flag of the entry, and
  the session is closed.
\<close>

lemma deliver_refines:
  assumes rep: "broker_rep g b" and e: "find (has_id s) (b_sessions b) = Some e"
    and s: "s \<noteq> []" "length s < KEY_SIZE" and f: "callback_f e \<noteq> 0"
  shows "\<exists>g'. deliver_response now message s retc g = Inr (g',
      [Call_res (callback_f e) (if is_expired e = 0 then 0 else 1) (callback_param e)
         \<lparr>res_id = s, retcode = retc, query_res = msg_bytes message\<rparr> (elapsed_ms now (ATime e))]) \<and>
      broker_rep g' (b_close s b)"
proof -
  from rep have "queue_rep False (gtsidq g) (b_sessions b)" by (simp add: broker_rep_def)
  from idq.lookup_law [OF this s(1), of now tsid_zero] e
  have "lookup_ID_idq (gtsidq g) (Some s) now tsid_zero = Inr (1, elapsed_ms now (ATime e),
      tsid_zero\<lparr>tq_id := s, is_expired := is_expired e, callback_f := callback_f e,
                callback_param := callback_param e\<rparr>)" by simp
  moreover from rem_id_refines [OF rep, of s] obtain iq where
    "rem_id (gtsidq g) s = Inr iq" "broker_rep (g\<lparr>gtsidq := iq\<rparr>) (b_close s b)" by blast
  ultimately show ?thesis
    using s f by (auto simp: deliver_response_def store_str_def call_res_def)
qed

lemma deliver_unknown:
  assumes rep: "broker_rep g b" and e: "find (has_id s) (b_sessions b) = None"
    and s: "s \<noteq> []" "length s < KEY_SIZE"
  shows "deliver_response now message s retc g = Inr (g, [])"
proof -
  from rep have "queue_rep False (gtsidq g) (b_sessions b)" by (simp add: broker_rep_def)
  from idq.lookup_law [OF this s(1), of now tsid_zero] e
  have "lookup_ID_idq (gtsidq g) (Some s) now tsid_zero = Inr (0, 0, tsid_zero)" by simp
  then show ?thesis using s by (simp add: deliver_response_def store_str_def)
qed

subsection \<open>Properties\<close>

text \<open>A small module state: two peers that are up, empty queues, one request at address 5.\<close>

definition req_demo :: "string \<Rightarrow> request_t" where
  "req_demo s = \<lparr>req_buf = ''hi'' @ [NUL], msg_len = 2, picked_up = 0, no_transaction = 0,
     req_id = s @ replicate (KEY_SIZE - length s) NUL\<rparr>"

definition glob_demo :: glob where
  "glob_demo = \<lparr>cfg = cfg_demo, conns = peers_up, glast_con_rr = 0, gmsgq = mk_queue [],
     gtsidq = mk_queue [], requests = (\<lambda>a. if a \<in> {5, 6, 7} then Some (req_demo (if a = 5 then ''a'' else if a = 6 then ''b'' else ''c'')) else None),
     c_strs = (\<lambda>a. a \<noteq> 0), reg_req_cb = 0, reg_res_cb = 0, reg_res_param = 0\<rparr>"

definition broker_empty :: broker where
  "broker_empty = \<lparr>b_sessions = [], b_queue = [], b_rr = 0\<rparr>"

lemma req_demo_id: "NUL \<notin> set s \<Longrightarrow> length s < KEY_SIZE \<Longrightarrow> c_str (req_id (req_demo s)) = Inr s"
  using c_str_append [of s "replicate (KEY_SIZE - length s - 1) NUL"]
  by (cases "KEY_SIZE - length s") (simp_all add: req_demo_def)

lemma glob_demo_rep: "broker_rep glob_demo broker_empty" "broker_ok 2 broker_empty"
  by (simp_all add: broker_rep_def broker_ok_def glob_demo_def broker_empty_def)

lemma glob_demo_facts:
  "num_peers (cfg glob_demo) = 2" "conns glob_demo = peers_up" "length peers_up = 2"
  "load_req (requests glob_demo) 5 = Inr (req_demo ''a'')"
  "load_req (requests glob_demo) 6 = Inr (req_demo ''b'')"
  "load_req (requests glob_demo) 7 = Inr (req_demo ''c'')"
  by (simp_all add: glob_demo_def cfg_demo_def peers_up_def load_req_def)

lemma req_demo_facts:
  "NUL \<notin> set s \<Longrightarrow> length s < KEY_SIZE \<Longrightarrow> c_str (req_id (req_demo s)) = Inr s"
  "msg_len (req_demo s) = 2" "c_str (req_buf (req_demo s)) = Inr ''hi''"
  by (simp_all add: req_demo_id) (simp_all add: req_demo_def c_str_def)

text \<open>C4. Pushing a request implements the abstract push: it ends in exactly the same way
  (in particular it hangs exactly when a new session finds no peer up), and when it ends
  the session table, the message list and the round-robin position are those of the abstract
  operation, which keeps the invariant: distinct ids, connection numbers of peers only.\<close>

theorem push_refines_broker:
  assumes "broker_rep g b" "broker_ok (num_peers (cfg g)) b" "num_peers (cfg g) \<le> int (length (conns g))"
    and "load_req (requests g) req = Inr r" "c_str (req_id r) = Inr s" "s \<noteq> []" "length s < KEY_SIZE"
  shows "case b_push (conns g) (num_peers (cfg g)) s (msg_len r) req now f p b of
      Inl e \<Rightarrow> push_request req f p now g = Inl e
    | Inr b' \<Rightarrow> broker_ok (num_peers (cfg g)) b' \<and>
        (\<exists>g'. push_request req f p now g = Inr g' \<and> broker_rep g' b')"
  using push_refines [OF assms(1,2,6,7), of "conns g" "msg_len r" req now f p]
    broker_ok_push [OF assms(2,6,3), of "msg_len r" req now f p] assms(4,5)
  by (auto simp: push_request_def split: sum.splits)

theorem push_refines_broker_witness:
  "case b_push peers_up 2 ''a'' 2 5 (Timeval 1 0) 11 12 broker_empty of
      Inl e \<Rightarrow> push_request 5 11 12 (Timeval 1 0) glob_demo = Inl e
    | Inr b' \<Rightarrow> broker_ok 2 b' \<and>
        (\<exists>g'. push_request 5 11 12 (Timeval 1 0) glob_demo = Inr g' \<and> broker_rep g' b')"
  using push_refines_broker [of glob_demo broker_empty 5 "req_demo ''a''" "''a''"
      11 12 "Timeval 1 0"]
    glob_demo_rep glob_demo_facts req_demo_facts [of "''a''"] by (simp add: KEY_SIZE_def cong: sum.case_cong)

end
