(* ===== verification/Rounds.thy ===== *)
theory Rounds
  imports Broker
begin

section \<open>One round of each thread\<close>

text \<open>
  What a sender, a receiver and a client do in one round, on top of the refinement of
  \<open>Broker\<close>: which bytes go out, what happens to the message, the request and the connection,
  which callback is called, and where the code ends in a fault.
\<close>

subsection \<open>The sender\<close>

lemma load_node:
  "a \<noteq> 0 \<Longrightarrow> cells m a = Some \<lparr>c_val = v, c_prev = x, c_next = y\<rparr> \<Longrightarrow>
   load m a = Inr \<lparr>c_val = v, c_prev = x, c_next = y\<rparr>"
  by simp

text \<open>The part of a round after the pop, for a message whose length has at most four digits.\<close>

definition send_frame :: "nat \<Rightarrow> request_t \<Rightarrow> int \<Rightarrow> wsock \<Rightarrow> con_t list \<Rightarrow> (con_t list \<times> wsock) res" where
  "send_frame i r len ws cl =
     bindE (send_to_fd ws (fmt_04d len) 4) (\<lambda>(rc1, ws).
       let cl1 = (if rc1 = -1 then set_con_state i 0 cl else cl) in
     bindE (send_to_fd ws (req_buf r) len) (\<lambda>(rc2, ws).
       Inr (if rc2 = -1 then set_con_state i 0 cl1 else cl1, ws)))"

lemma set_con_state_again [simp]: "set_con_state i x (set_con_state i x cl) = set_con_state i x cl"
  by (cases "i < length cl") (simp_all add: set_con_state_def list_update_beyond)

lemma send_frame_cases:
  assumes "0 \<le> len" "len \<le> 9999" "len \<le> int (length (req_buf r))"
  shows "case send_frame i r len ws cl of
      Inl e \<Rightarrow> e = Hang \<and> accepts (wplan ws) < 4 + nat len
    | Inr (cl', ws') \<Rightarrow> \<exists>k j. outq ws' = outq ws @ take k (fmt_04d len) @ take j (req_buf r) \<and>
        (k = 4 \<and> int j = len \<and> cl' = cl \<or>
         k \<le> 4 \<and> int j \<le> len \<and> (k < 4 \<or> int j < len) \<and> cl' = set_con_state i 0 cl)"
proof -
  have h: "length (fmt_04d len) = 4" using fmt_04d_nonneg(1) [OF assms(1,2)] .
  from send_to_fd_total [of 4 "fmt_04d len" ws] h
  have "(send_to_fd ws (fmt_04d len) 4 = Inl Hang \<and> accepts (wplan ws) < nat 4) \<or>
    (\<exists>rc ws'. send_to_fd ws (fmt_04d len) 4 = Inr (rc, ws') \<and>
       accepts (wplan ws) \<le> accepts (wplan ws') + nat 4)" by simp
  then show ?thesis
  proof (elim disjE conjE exE)
    fix rc1 ws1
    assume s1: "send_to_fd ws (fmt_04d len) 4 = Inr (rc1, ws1)"
      and a1: "accepts (wplan ws) \<le> accepts (wplan ws1) + nat 4"
    from send_to_fd_prefix [OF s1] obtain k where
      k: "outq ws1 = outq ws @ take k (fmt_04d len)" "rc1 = 4 \<and> k = 4 \<or> rc1 = -1 \<and> k < 4" by auto
    from send_to_fd_total [OF assms(1,3), of ws1] show ?thesis
    proof (elim disjE conjE exE)
      assume "send_to_fd ws1 (req_buf r) len = Inl Hang" "accepts (wplan ws1) < nat len"
      with s1 a1 show ?thesis by (simp add: send_frame_def)
    next
      fix rc2 ws2
      assume s2: "send_to_fd ws1 (req_buf r) len = Inr (rc2, ws2)"
      from send_to_fd_prefix [OF s2 assms(1)] obtain j where
        j: "outq ws2 = outq ws1 @ take j (req_buf r)" "rc2 = len \<and> int j = len \<or> rc2 = -1 \<and> int j < len"
        by auto
      have "outq ws2 = outq ws @ take k (fmt_04d len) @ take j (req_buf r)" using j(1) k(1) by simp
      moreover have "send_frame i r len ws cl =
          Inr (if rc2 = -1 \<or> rc1 = -1 then set_con_state i 0 cl else cl, ws2)"
        using s1 s2 by (simp add: send_frame_def Let_def)
      moreover have "k = 4 \<and> int j = len \<and> \<not> (rc2 = -1 \<or> rc1 = -1) \<or>
          k \<le> 4 \<and> int j \<le> len \<and> (k < 4 \<or> int j < len) \<and> (rc2 = -1 \<or> rc1 = -1)"
        using k(2) j(2) assms(1) by auto
      ultimately show ?thesis by (simp only: sum.case prod.case) auto
    qed
  qed (simp_all add: send_frame_def)
qed

lemma send_node_frame:
  assumes "load (qmem (gmsgq g)) a = Inr c" "c_val c = v" "0 \<le> mq_len v" "mq_len v \<le> 9999"
    and "load_req (requests g) (mq_data v) = Inr r" "NUL \<in> set (req_buf r)"
    and "free_cell (qmem (gmsgq g)) a = Inr m"
  shows "send_node i a ws g = bindE (send_frame i r (mq_len v) ws (conns g)) (\<lambda>(cl, ws).
    Inr (g\<lparr>conns := cl, requests := (requests g)(mq_data v := None), gmsgq := (gmsgq g)\<lparr>qmem := m\<rparr>\<rparr>, ws))"
proof -
  have h: "length (fmt_04d (mq_len v)) = 4" using fmt_04d_nonneg(1) [OF assms(3,4)] .
  then have "store_str 5 (fmt_04d (mq_len v)) = Inr (fmt_04d (mq_len v))" by (simp add: store_str_def)
  moreover have "\<exists>s. c_str (req_buf r) = Inr s" using assms(6) by (simp add: c_str_def)
  then obtain s where "c_str (req_buf r) = Inr s" by blast
  moreover have "free_req (requests g) (mq_data v) = Inr ((requests g)(mq_data v := None))"
    using assms(5) by (simp add: free_req_def)
  ultimately show ?thesis
    using assms h by (simp add: send_node_def send_frame_def Let_def split_def)
qed

lemma send_round_frame:
  assumes "broker_rep g b" "i < length (conns g)" "state (conns g ! i) = 1"
    and "find (for_conn (peer_id (conns g ! i))) (b_queue b) = Some v"
    and "\<not> tail_only (peer_id (conns g ! i)) (b_queue b)"
    and "0 \<le> mq_len v" "mq_len v \<le> 9999"
    and "load_req (requests g) (mq_data v) = Inr r" "NUL \<in> set (req_buf r)"
  shows "\<exists>g1. send_round i d ws g =
      bindE (send_frame i r (mq_len v) ws (conns g)) (\<lambda>(cl, ws). Inr (g1\<lparr>conns := cl\<rparr>, ws, True)) \<and>
    (\<forall>cl. broker_rep (g1\<lparr>conns := cl\<rparr>) (b_take (peer_id (conns g ! i)) b)) \<and>
    requests g1 = (requests g)(mq_data v := None)"
proof -
  let ?con = "peer_id (conns g ! i)"
  from assms(1) have "queue_rep True (gmsgq g) (b_queue b)" by (simp add: broker_rep_def)
  from pop_some [OF this assms(4,5)] obtain a mq m where
    p: "pop_from_msgq (gmsgq g) ?con = Inr (a, mq)" "a \<noteq> 0"
    "cells (qmem mq) a = Some \<lparr>c_val = v, c_prev = 0, c_next = 0\<rparr>"
    "free_cell (qmem mq) a = Inr m" "queue_rep True (mq\<lparr>qmem := m\<rparr>) (rem_first (for_conn ?con) (b_queue b))"
    by blast
  let ?g = "g\<lparr>conns := conns g, gmsgq := mq\<rparr>"
  let ?g1 = "g\<lparr>requests := (requests g)(mq_data v := None), gmsgq := mq\<lparr>qmem := m\<rparr>\<rparr>"
  have "send_node i a ws ?g = bindE (send_frame i r (mq_len v) ws (conns g)) (\<lambda>(cl, ws).
      Inr (?g1\<lparr>conns := cl\<rparr>, ws))"
    using send_node_frame [of ?g a "\<lparr>c_val = v, c_prev = 0, c_next = 0\<rparr>" v r m i ws]
      load_node [OF p(2,3)] p(4) assms(6-9)
    by (cases "send_frame i r (mq_len v) ws (conns g)") (simp_all add: split_def)
  moreover have "?g1\<lparr>conns := cl\<rparr> = g\<lparr>conns := cl, requests := (requests g)(mq_data v := None),
      gmsgq := mq\<lparr>qmem := m\<rparr>\<rparr>" for cl by simp
  ultimately have "send_round i d ws g =
      bindE (send_frame i r (mq_len v) ws (conns g)) (\<lambda>(cl, ws). Inr (?g1\<lparr>conns := cl\<rparr>, ws, True))"
    using assms(2,3) p(1,2)
    by (cases "send_frame i r (mq_len v) ws (conns g)") (simp_all add: send_round_def Let_def split_def)
  moreover have "broker_rep (?g1\<lparr>conns := cl\<rparr>) (b_take ?con b)" for cl
    using assms(1) p(5) by (simp add: broker_rep_def b_take_def)
  ultimately show ?thesis by (intro exI [of _ ?g1]) simp
qed

lemma send_node_overflow:
  assumes "load (qmem (gmsgq g)) a = Inr c" "10000 \<le> mq_len (c_val c)"
  shows "send_node i a ws g = Inl (UB Buffer_Overflow)"
proof -
  have "\<not> length (dec_nat (nat (mq_len (c_val c)))) \<le> 4"
    using assms(2) by (subst length_dec_nat) auto
  then have "store_str 5 (fmt_04d (mq_len (c_val c))) = Inl (UB Buffer_Overflow)"
    using assms(2) by (simp add: store_str_def fmt_04d_def zero_pad_def)
  with assms(1) show ?thesis by (simp add: send_node_def)
qed

text \<open>
  The tail case, seen from the round: the message goes out as usual, but the queue then leads
  to the node the round has freed.
\<close>

lemma send_round_tail:
  assumes "broker_rep g b" "i < length (conns g)" "state (conns g ! i) = 1"
    and "tail_only (peer_id (conns g ! i)) (b_queue b)"
    and "send_round i d ws g = Inr (g', ws', took)"
  shows "\<exists>a ys v mq. mem_ok (qmem mq) \<and> chain False (qmem mq) (qhead mq) (ys @ [(a, v)]) \<and> ys \<noteq> [] \<and>
    (\<exists>m. free_cell (qmem mq) a = Inr m \<and> gmsgq g' = mq\<lparr>qmem := m\<rparr>) \<and> gtsidq g' = gtsidq g \<and>
    glast_con_rr g' = glast_con_rr g \<and> cfg g' = cfg g"
proof -
  let ?con = "peer_id (conns g ! i)"
  from assms(1) have "queue_rep True (gmsgq g) (b_queue b)" by (simp add: broker_rep_def)
  from pop_tail [OF this assms(4)] obtain a mq ys where
    p: "pop_from_msgq (gmsgq g) ?con = Inr (a, mq)" "queue_rep False mq (b_queue b)" "a \<noteq> 0"
    "ys \<noteq> []" "chain False (qmem mq) (qhead mq) (ys @ [(a, last (b_queue b))])" by blast
  let ?g = "g\<lparr>conns := conns g, gmsgq := mq\<rparr>"
  from assms(2,3,5) p(1,3) have "send_node i a ws ?g = Inr (g', ws')"
    by (auto simp: send_round_def Let_def outcome_iffs)
  then obtain m where "free_cell (qmem mq) a = Inr m" "gmsgq g' = mq\<lparr>qmem := m\<rparr>"
    "gtsidq g' = gtsidq g" "glast_con_rr g' = glast_con_rr g" "cfg g' = cfg g"
    by (auto simp: send_node_def outcome_iffs Let_def)
  moreover have "mem_ok (qmem mq)" using p(2) by (simp add: queue_rep_def)
  ultimately show ?thesis using p(4,5)
    by (intro exI [of _ a] exI [of _ ys] exI [of _ "last (b_queue b)"] exI [of _ mq]) blast
qed

subsection \<open>The client after a tail pop\<close>

text \<open>
  From then on no message can be queued: every push with a usable id ends in the read of the
  freed node, or does not end at all because no peer is up.
\<close>

lemma push_after_tail:
  assumes "broker_rep g b" "broker_ok (num_peers (cfg g)) b" "num_peers (cfg g) \<le> int (length cl)"
    and "mem_ok (qmem mq)" "chain False (qmem mq) (qhead mq) (ys @ [(a, v)])" "ys \<noteq> []"
    and "free_cell (qmem mq) a = Inr m" "s \<noteq> []" "length s < KEY_SIZE"
  shows "push_to_msgq cl (num_peers (cfg g)) (mq\<lparr>qmem := m\<rparr>) (gtsidq g) (glast_con_rr g) (Some s) len data now f p
    \<in> {Inl (UB Invalid_Access), Inl Hang}"
proof -
  let ?n = "num_peers (cfg g)"
  from assms(1) have r: "queue_rep False (gtsidq g) (b_sessions b)" "glast_con_rr g = b_rr b"
    by (auto simp: broker_rep_def)
  have rr: "0 \<le> b_rr b" "b_rr b < ?n" using assms(2) by (auto simp: broker_ok_def)
  have st: "store_str KEY_SIZE s = Inr s" using assms(9) by (simp add: store_str_def)
  have enq: "enqueue (mq\<lparr>qmem := m\<rparr>) w = Inl (UB Invalid_Access)" for w
    by (rule enqueue_dangling [OF assms(4-7)])
  have "session_conn cl ?n (gtsidq g) (glast_con_rr g) s now f p = Inl Hang \<or>
    (\<exists>x. session_conn cl ?n (gtsidq g) (glast_con_rr g) s now f p = Inr x)"
  proof (cases "find (has_id s) (b_sessions b)")
    case (Some e)
    then have "e \<in> set (b_sessions b)" by (auto dest: find_split)
    then have "tq_conn e \<noteq> -1" using assms(2) by (auto simp: broker_ok_def)
    from session_conn_known [OF r(1) assms(8) Some this] show ?thesis by blast
  next
    case None
    show ?thesis
    proof (cases "assign_conn cl ?n (b_rr b)")
      case (Inl e)
      then have "e = Hang"
        using assign_conn_find [OF rr assms(3)] by (auto split: option.splits)
      with Inl None idq.present_law [OF r(1) assms(8), of "-1"] r(2) assms(8) show ?thesis
        by (simp add: session_conn_def add_entry_idq_def calloc_cell_def)
    next
      case (Inr x)
      then obtain con rr where "assign_conn cl ?n (glast_con_rr g) = Inr (con, rr)"
        using r(2) by (cases x) auto
      from session_conn_new [OF r(1) assms(8) None this] show ?thesis by blast
    qed
  qed
  then show ?thesis using st enq assms(8) by (auto simp: push_to_msgq_def)
qed

subsection \<open>The receiver\<close>

text \<open>
  The receiver of an entry whose \<open>peer_id\<close> is not its index, as the zero entry of a peer that
  could not be connected: the loop recreates another peer's connection for ever.
\<close>

lemma reconnect_loop_other:
  "state (cl ! k) \<noteq> 1 \<Longrightarrow> peer_id (cl ! k) \<noteq> int k \<Longrightarrow> reconnect_loop k cf ds cl \<noteq> Inr cl'"
proof (induction ds arbitrary: cl)
  case Nil
  then show ?case by (subst reconnect_loop.simps) simp
next
  case (Cons d ds)
  show ?case
  proof (cases "recreate_conn (peer_id (cl ! k)) cf d cl")
    case (Inl e)
    with Cons.prems show ?thesis by (subst reconnect_loop.simps) simp
  next
    case (Inr cl1)
    from recreate_conn_facts(3) [OF Inr, of k] Cons.prems(2) have "cl1 ! k = cl ! k" by metis
    with Cons Inr show ?thesis by (subst reconnect_loop.simps) simp
  qed
qed

text \<open>An entry with its own number comes up with the first connection that succeeds.\<close>

lemma con_upd: "peer_id c = p \<Longrightarrow> c\<lparr>fd := f, state := x\<rparr> = \<lparr>fd = f, state = x, peer_id = p\<rparr>"
  by (cases c) simp

lemma reconnect_loop_own:
  assumes "port (peers cf ! k) \<in> {0..9999}" "k < length (peers cf)" "gai_ok d" "0 \<le> connect_rc d 0"
  shows "k < length cl \<Longrightarrow> state (cl ! k) \<noteq> 1 \<Longrightarrow> peer_id (cl ! k) = int k \<Longrightarrow>
    \<forall>x \<in> set fails. gai_ok x \<and> connect_rc x 0 < 0 \<Longrightarrow>
    reconnect_loop k cf (fails @ d # ds) cl = Inr (cl[k := \<lparr>fd = socket_fd d, state = 1, peer_id = int k\<rparr>])"
proof (induction fails arbitrary: cl)
  have p: "port_text (port (peers cf ! k)) = Inr (fmt_d (port (peers cf ! k)))"
    using assms(1) by (auto intro: port_text_ok)
  {
    case Nil
    with p assms show ?case
      by (simp add: con_upd [OF Nil(3)] reconnect_loop.simps [of k cf "d # ds"] reconnect_loop.simps [of k cf ds]
          recreate_conn_def redial_def)
  next
    case (Cons x fails)
    with p assms show ?case
      by (simp add: reconnect_loop.simps [of k cf "x # _"] recreate_conn_def redial_def)
  }
qed

lemma reconnect_loop_up:
  "k < length cl \<Longrightarrow> state (cl ! k) = 1 \<Longrightarrow> reconnect_loop k cf ds cl = Inr cl"
  by (subst reconnect_loop.simps) simp

lemma parse_null [simp]: "parse_xml_attribute None n sk ek = (0, \<lparr>xc_s = None, xc_len = 0\<rparr>)"
  by (simp add: parse_xml_attribute_def)

text \<open>A NULL message, which is what a closed connection gives, is not dispatched at all.\<close>

lemma handle_null: "handle_message now None rc g = Inr (g, [])"
  by (simp add: handle_message_def attr_def Let_def)

lemma recv_round_eof:
  assumes "k < length (conns g)" "state (conns g ! k) = 1"
    and "inq (socks (fd (conns g ! k))) = []" "rplan (socks (fd (conns g ! k))) = Deliver j # p"
  shows "recv_round k ds socks now rc g = Inr
    (if rc = 0 then g\<lparr>conns := set_con_state k 0 (conns g)\<rparr> else g, rc,
     (socks (fd (conns g ! k)))\<lparr>rplan := p\<rparr>, [])"
  using assms receive_closed [OF assms(3,4), of rc]
  by (simp add: recv_round_def reconnect_loop_up handle_null Let_def)

subsection \<open>The client: who is woken\<close>

lemma signal_test_rep:
  assumes "queue_rep d (gmsgq g) (vs @ [v])"
  shows "signal_test g = Inr (vs = [])"
proof -
  obtain w ws where w: "vs @ [v] = w # ws" by (cases "vs @ [v]") auto
  from assms obtain xs where "chain d (qmem (gmsgq g)) (qhead (gmsgq g)) xs" "map snd xs = vs @ [v]"
    by (auto simp: queue_rep_def)
  with w obtain a ys where ys: "chain d (qmem (gmsgq g)) (qhead (gmsgq g)) ((a, w) # ys)" "map snd ys = ws"
    by (cases xs) auto
  then obtain c where "qhead (gmsgq g) = a" "a \<noteq> 0" "cells (qmem (gmsgq g)) a = Some c"
    "seg d (qmem (gmsgq g)) a (c_next c) ys 0"
    by (auto simp: chain_def seg_Cons_iff)
  moreover from this have "c_next c = 0 \<longleftrightarrow> ys = []" by (cases ys) (auto simp: seg_Cons_iff)
  moreover have "ys = [] \<longleftrightarrow> vs = []" using w ys(2) by (cases vs) auto
  ultimately show ?thesis by (simp add: signal_test_def)
qed

lemma b_push_queue:
  "b_push cl n s len data now f p b = Inr b' \<Longrightarrow> \<exists>v. b_queue b' = b_queue b @ [v]"
  by (auto simp: b_push_def b_session_def outcome_iffs split: option.splits)

lemma ready_to_send_signals:
  assumes "broker_rep g b" "broker_ok (num_peers (cfg g)) b" "num_peers (cfg g) \<le> int (length (conns g))"
    and "load_req (requests g) req = Inr r" "c_str (req_id r) = Inr s" "s \<noteq> []" "length s < KEY_SIZE"
  shows "case b_push (conns g) (num_peers (cfg g)) s (msg_len r) req now f p b of
      Inl e \<Rightarrow> ready_to_send req f p now g = Inl e
    | Inr b' \<Rightarrow> \<exists>g'. ready_to_send req f p now g = Inr (1, b_queue b = [], g') \<and> broker_rep g' b'"
proof (cases "b_push (conns g) (num_peers (cfg g)) s (msg_len r) req now f p b")
  case (Inl e)
  with push_refines [OF assms(1,2,6,7), of "conns g" "msg_len r" req now f p] assms(4,5)
  show ?thesis by (simp add: ready_to_send_def push_request_def)
next
  case (Inr b')
  with push_refines [OF assms(1,2,6,7), of "conns g" "msg_len r" req now f p] assms(4,5)
  obtain g' where g': "push_request req f p now g = Inr g'" "broker_rep g' b'"
    by (auto simp: push_request_def)
  from b_push_queue [OF Inr] obtain v where v: "b_queue b' = b_queue b @ [v]" by blast
  with g'(2) have "queue_rep True (gmsgq g') (b_queue b @ [v])" by (simp add: broker_rep_def)
  from signal_test_rep [OF this] g' Inr show ?thesis by (simp add: ready_to_send_def)
qed

text \<open>A request without an id: nothing is queued, and the test reads the head of the queue.\<close>

lemma push_empty_id:
  assumes "broker_rep g b" "load_req (requests g) req = Inr r" "c_str (req_id r) = Inr []"
  shows "\<exists>mq. push_request req f p now g = Inr (g\<lparr>gmsgq := mq\<rparr>) \<and> broker_rep (g\<lparr>gmsgq := mq\<rparr>) b"
proof -
  from assms(1) obtain xs where xs: "chain True (qmem (gmsgq g)) (qhead (gmsgq g)) xs"
    "map snd xs = b_queue b" "mem_ok (qmem (gmsgq g))"
    by (auto simp: queue_rep_def broker_rep_def)
  obtain t m where tm: "calloc_cell msg_zero (qmem (gmsgq g)) = (t, m)" by force
  then have "push_request req f p now g = Inr (g\<lparr>gmsgq := (gmsgq g)\<lparr>qmem := m\<rparr>\<rparr>)"
    using assms(2,3) by (simp add: push_request_def push_to_msgq_def)
  moreover have "queue_rep True ((gmsgq g)\<lparr>qmem := m\<rparr>) (b_queue b)"
    using calloc_cell_chain [OF xs(3,1) tm] xs(2) by (auto simp: queue_rep_def)
  ultimately show ?thesis using assms(1) by (auto simp: broker_rep_def)
qed

lemma ready_to_send_empty_id:
  assumes "broker_rep g b" "load_req (requests g) req = Inr r" "c_str (req_id r) = Inr []" "b_queue b = []"
  shows "ready_to_send req f p now g = Inl (UB Null_Deref)"
proof -
  from push_empty_id [OF assms(1-3), of f p now] obtain mq where
    mq: "push_request req f p now g = Inr (g\<lparr>gmsgq := mq\<rparr>)" "broker_rep (g\<lparr>gmsgq := mq\<rparr>) b" by blast
  then have "queue_rep True mq []" using assms(4) by (simp add: broker_rep_def)
  then have "qhead mq = 0" by (simp add: queue_rep_null)
  with mq show ?thesis by (simp add: ready_to_send_def signal_test_def)
qed

subsection \<open>Properties: the sender\<close>

definition glob_with :: "msgque_t list \<Rightarrow> tsidque_t list \<Rightarrow> glob" where
  "glob_with ms es = glob_demo\<lparr>gmsgq := mk_queue ms, gtsidq := mk_queue es\<rparr>"

definition broker_with :: "msgque_t list \<Rightarrow> tsidque_t list \<Rightarrow> broker" where
  "broker_with ms es = \<lparr>b_sessions = es, b_queue = ms, b_rr = 0\<rparr>"

lemma glob_with_rep: "broker_rep (glob_with ms es) (broker_with ms es)"
  by (simp add: broker_rep_def glob_with_def broker_with_def glob_demo_def)

lemma glob_with_facts:
  "conns (glob_with ms es) = peers_up" "cfg (glob_with ms es) = cfg_demo" "num_peers cfg_demo = 2"
  "requests (glob_with ms es) = requests glob_demo" "b_queue (broker_with ms es) = ms"
  "b_sessions (broker_with ms es) = es" "length peers_up = 2" "peers_up ! 0 = \<lparr>fd = 3, state = 1, peer_id = 0\<rparr>"
  "peers_up ! Suc 0 = \<lparr>fd = 4, state = 1, peer_id = 1\<rparr>"
  by (simp_all add: glob_with_def broker_with_def glob_demo_def cfg_demo_def peers_up_def)

text \<open>C5. A sender's round on a connection that is up takes the oldest message of the connection,
  unless that is the last of the queue behind messages of other connections only (\<open>tail_only\<close>; then the node
  stays linked, see \<open>tail_send_breaks_the_queue\<close>).
  It ends as soon as the kernel accepts bytes often enough, and then either the whole frame has
  gone out and the connection stays up, or a part of it has and the connection is marked down.
  In both outcomes the message is out of the queue and its request is freed: a message whose
  sending fails is lost.\<close>

theorem send_round_sends_next:
  assumes "broker_rep g b" "i < length (conns g)" "state (conns g ! i) = 1"
    and "find (for_conn (peer_id (conns g ! i))) (b_queue b) = Some v"
    and "\<not> tail_only (peer_id (conns g ! i)) (b_queue b)"
    and "0 \<le> mq_len v" "mq_len v \<le> 9999" "mq_len v \<le> int (length (req_buf r))"
    and "load_req (requests g) (mq_data v) = Inr r" "NUL \<in> set (req_buf r)"
  shows "case send_round i d ws g of
      Inl e \<Rightarrow> e = Hang \<and> accepts (wplan ws) < 4 + nat (mq_len v)
    | Inr (g', ws', took) \<Rightarrow> took \<and> broker_rep g' (b_take (peer_id (conns g ! i)) b) \<and>
        requests g' (mq_data v) = None \<and>
        (\<exists>k j. outq ws' = outq ws @ take k (fmt_04d (mq_len v)) @ take j (req_buf r) \<and>
          (k = 4 \<and> int j = mq_len v \<and> conns g' = conns g \<or>
           k \<le> 4 \<and> int j \<le> mq_len v \<and> (k < 4 \<or> int j < mq_len v) \<and>
             conns g' = set_con_state i 0 (conns g)))"
proof -
  from send_round_frame [OF assms(1-7,9,10), of d ws] obtain g1 where
    g1: "send_round i d ws g = bindE (send_frame i r (mq_len v) ws (conns g))
           (\<lambda>(cl, ws). Inr (g1\<lparr>conns := cl\<rparr>, ws, True))"
    "\<And>cl. broker_rep (g1\<lparr>conns := cl\<rparr>) (b_take (peer_id (conns g ! i)) b)"
    "requests g1 = (requests g)(mq_data v := None)" by blast
  from send_frame_cases [OF assms(6-8), where i = i and ws = ws and cl = "conns g"] show ?thesis
    by (cases "send_frame i r (mq_len v) ws (conns g)") (simp_all add: g1 split_beta)
qed

theorem send_round_sends_next_witness:
  "case send_round 1 (dial_ok 9) \<lparr>outq = [], wplan = [Accept 9, Accept 1, Send_fail EAGAIN, Accept 9]\<rparr>
        (glob_with [msg_demo 0 ''a'', msg_demo 1 ''b'', msg_demo 0 ''c''] []) of
      Inl e \<Rightarrow> e = Hang \<and> accepts [Accept 9, Accept 1, Send_fail EAGAIN, Accept 9] < 4 + nat (mq_len (msg_demo 1 ''b''))
    | Inr (g', ws', took) \<Rightarrow> took \<and>
        broker_rep g' (b_take 1 (broker_with [msg_demo 0 ''a'', msg_demo 1 ''b'', msg_demo 0 ''c''] [])) \<and>
        requests g' (mq_data (msg_demo 1 ''b'')) = None \<and>
        (\<exists>k j. outq ws' = [] @ take k (fmt_04d (mq_len (msg_demo 1 ''b''))) @ take j (req_buf (req_demo ''a'')) \<and>
          (k = 4 \<and> int j = mq_len (msg_demo 1 ''b'') \<and> conns g' = peers_up \<or>
           k \<le> 4 \<and> int j \<le> mq_len (msg_demo 1 ''b'') \<and> (k < 4 \<or> int j < mq_len (msg_demo 1 ''b'')) \<and>
             conns g' = set_con_state 1 0 peers_up))"
proof -
  let ?ms = "[msg_demo 0 ''a'', msg_demo 1 ''b'', msg_demo 0 ''c'']"
  have q: "find (for_conn 1) ?ms = Some (msg_demo 1 ''b'')" "\<not> tail_only 1 ?ms"
    "0 \<le> mq_len (msg_demo 1 ''b'')" "mq_len (msg_demo 1 ''b'') \<le> 9999"
    "mq_len (msg_demo 1 ''b'') \<le> int (length (req_buf (req_demo ''a'')))"
    "load_req (requests glob_demo) (mq_data (msg_demo 1 ''b'')) = Inr (req_demo ''a'')"
    "NUL \<in> set (req_buf (req_demo ''a''))"
    by (simp_all add: msg_demo_def for_conn_def tail_only_def glob_demo_facts) (simp_all add: req_demo_def)
  show ?thesis
    using send_round_sends_next [OF glob_with_rep [of ?ms "[]"], of 1 "msg_demo 1 ''b''" "req_demo ''a''"
        "\<lparr>outq = [], wplan = [Accept 9, Accept 1, Send_fail EAGAIN, Accept 9]\<rparr>" "dial_ok 9"] q
    by (simp add: glob_with_facts cong: sum.case_cong)
qed

text \<open>When the header cannot be written, the sender still writes the message: the peer gets
  the bytes of a message with no length in front of it.\<close>

theorem failed_header_still_sends_body:
  assumes "broker_rep g b" "i < length (conns g)" "state (conns g ! i) = 1"
    and "find (for_conn (peer_id (conns g ! i))) (b_queue b) = Some v"
    and "\<not> tail_only (peer_id (conns g ! i)) (b_queue b)"
    and "0 < mq_len v" "mq_len v \<le> 9999" "mq_len v \<le> int (length (req_buf r))"
    and "load_req (requests g) (mq_data v) = Inr r" "NUL \<in> set (req_buf r)"
    and "wplan ws = [Send_fail (E_other n), Accept k]" "mq_len v \<le> int k"
  shows "\<exists>g' ws'. send_round i d ws g = Inr (g', ws', True) \<and>
    outq ws' = outq ws @ take (nat (mq_len v)) (req_buf r) \<and>
    conns g' = set_con_state i 0 (conns g) \<and> broker_rep g' (b_take (peer_id (conns g ! i)) b)"
proof -
  have pos: "0 \<le> mq_len v" using assms(6) by simp
  from send_round_frame [OF assms(1-5) pos assms(7,9,10), of d ws] obtain g1 where
    g1: "send_round i d ws g = bindE (send_frame i r (mq_len v) ws (conns g))
           (\<lambda>(cl, ws). Inr (g1\<lparr>conns := cl\<rparr>, ws, True))"
    "\<And>cl. broker_rep (g1\<lparr>conns := cl\<rparr>) (b_take (peer_id (conns g ! i)) b)" by blast
  have h: "length (fmt_04d (mq_len v)) = 4" using fmt_04d_nonneg(1) [OF pos assms(7)] .
  then obtain c cs where cs: "take (nat 4) (fmt_04d (mq_len v)) = c # cs" by (cases "fmt_04d (mq_len v)") auto
  have s1: "send_to_fd ws (fmt_04d (mq_len v)) 4 = Inr (-1, \<lparr>outq = outq ws, wplan = [Accept k]\<rparr>)"
    using h assms(11) cs by (simp add: send_to_fd_def)
  obtain e es where es: "take (nat (mq_len v)) (req_buf r) = e # es"
    using assms(6,8) by (cases "take (nat (mq_len v)) (req_buf r)") auto
  have l: "length (e # es) = nat (mq_len v)" using assms(8) unfolding es [symmetric] by simp
  then have "take k (e # es) = e # es" "drop k (e # es) = []" using assms(12) by simp_all
  then have s2: "send_to_fd \<lparr>outq = outq ws, wplan = [Accept k]\<rparr> (req_buf r) (mq_len v) =
      Inr (mq_len v, \<lparr>outq = outq ws @ take (nat (mq_len v)) (req_buf r), wplan = []\<rparr>)"
    using assms(8) l pos by (simp add: send_to_fd_def es Let_def del: take_Suc_Cons drop_Suc_Cons)
  have "send_frame i r (mq_len v) ws (conns g) = Inr (set_con_state i 0 (conns g),
      \<lparr>outq = outq ws @ take (nat (mq_len v)) (req_buf r), wplan = []\<rparr>)"
    using s1 s2 assms(6) by (simp add: send_frame_def)
  with g1 show ?thesis by simp
qed

theorem failed_header_still_sends_body_witness:
  "\<exists>g' ws'. send_round 0 (dial_ok 9) \<lparr>outq = [], wplan = [Send_fail (E_other 32), Accept 7]\<rparr>
      (glob_with [msg_demo 0 ''a''] []) = Inr (g', ws', True) \<and>
    outq ws' = [] @ take (nat (mq_len (msg_demo 0 ''a''))) (req_buf (req_demo ''a'')) \<and>
    conns g' = set_con_state 0 0 peers_up \<and> broker_rep g' (b_take 0 (broker_with [msg_demo 0 ''a''] []))"
proof -
  have q: "find (for_conn 0) [msg_demo 0 ''a''] = Some (msg_demo 0 ''a'')" "\<not> tail_only 0 [msg_demo 0 ''a'']"
    "0 < mq_len (msg_demo 0 ''a'')" "mq_len (msg_demo 0 ''a'') \<le> 9999" "mq_len (msg_demo 0 ''a'') \<le> int 7"
    "mq_len (msg_demo 0 ''a'') \<le> int (length (req_buf (req_demo ''a'')))"
    "load_req (requests glob_demo) (mq_data (msg_demo 0 ''a'')) = Inr (req_demo ''a'')"
    "NUL \<in> set (req_buf (req_demo ''a''))"
    by (simp_all add: msg_demo_def for_conn_def tail_only_def glob_demo_facts) (simp_all add: req_demo_def)
  show ?thesis
    using failed_header_still_sends_body [OF glob_with_rep [of "[msg_demo 0 ''a'']" "[]"], of 0 "msg_demo 0 ''a''"
        "req_demo ''a''" "\<lparr>outq = [], wplan = [Send_fail (E_other 32), Accept 7]\<rparr>" 32 7 "dial_ok 9"] q
    by (simp add: glob_with_facts)
qed

text \<open>A message of ten thousand bytes or more overflows the five-byte \<open>msglen\<close> of the sender
  that takes it.\<close>

theorem long_message_overflows:
  assumes "broker_rep g b" "i < length (conns g)" "state (conns g ! i) = 1"
    and "find (for_conn (peer_id (conns g ! i))) (b_queue b) = Some v" "10000 \<le> mq_len v"
  shows "send_round i d ws g = Inl (UB Buffer_Overflow)"
proof -
  let ?con = "peer_id (conns g ! i)"
  from assms(1) have q: "queue_rep True (gmsgq g) (b_queue b)" by (simp add: broker_rep_def)
  have "\<exists>a mq. pop_from_msgq (gmsgq g) ?con = Inr (a, mq) \<and> a \<noteq> 0 \<and>
      cells (qmem mq) a = Some \<lparr>c_val = v, c_prev = 0, c_next = 0\<rparr>"
  proof (cases "tail_only ?con (b_queue b)")
    case True
    then have "find (for_conn ?con) (b_queue b) = Some (last (b_queue b))"
      by (cases "b_queue b" rule: rev_cases) (auto simp: tail_only_def find_skip)
    with assms(4) pop_tail [OF q True] show ?thesis by auto
  qed (use pop_some [OF q assms(4)] in blast)
  then obtain a mq where "pop_from_msgq (gmsgq g) ?con = Inr (a, mq)" "a \<noteq> 0"
    "cells (qmem mq) a = Some \<lparr>c_val = v, c_prev = 0, c_next = 0\<rparr>" by blast
  with assms(2,3,5) show ?thesis
    using send_node_overflow [of "g\<lparr>conns := conns g, gmsgq := mq\<rparr>" a "\<lparr>c_val = v, c_prev = 0, c_next = 0\<rparr>" i ws]
    by (simp add: send_round_def Let_def)
qed

theorem long_message_overflows_witness:
  "send_round 0 (dial_ok 9) \<lparr>outq = [], wplan = [Accept 9]\<rparr>
     (glob_with [(msg_demo 0 ''a'')\<lparr>mq_len := 10000\<rparr>] []) = Inl (UB Buffer_Overflow)"
  using long_message_overflows [OF glob_with_rep [of "[(msg_demo 0 ''a'')\<lparr>mq_len := 10000\<rparr>]" "[]"], of 0
      "(msg_demo 0 ''a'')\<lparr>mq_len := 10000\<rparr>"]
  by (simp add: glob_with_facts for_conn_def msg_demo_def)

text \<open>When the only message for a sender's connection is the last of several and the sender
  has sent it, no request can be queued any more: every later push with a usable id reads the
  freed node, or never ends because no peer is up.\<close>

theorem tail_send_breaks_the_queue:
  assumes "broker_rep g b" "broker_ok (num_peers (cfg g)) b" "i < length (conns g)" "state (conns g ! i) = 1"
    and "tail_only (peer_id (conns g ! i)) (b_queue b)" "send_round i d ws g = Inr (g', ws', took)"
    and "num_peers (cfg g) \<le> int (length (conns g'))"
    and "load_req (requests g') req = Inr r" "c_str (req_id r) = Inr s" "s \<noteq> []" "length s < KEY_SIZE"
  shows "ready_to_send req f p now g' \<in> {Inl (UB Invalid_Access), Inl Hang}"
proof -
  from send_round_tail [OF assms(1,3-6)] obtain a ys v mq m where
    t: "mem_ok (qmem mq)" "chain False (qmem mq) (qhead mq) (ys @ [(a, v)])" "ys \<noteq> []"
    "free_cell (qmem mq) a = Inr m" "gmsgq g' = mq\<lparr>qmem := m\<rparr>" "gtsidq g' = gtsidq g"
    "glast_con_rr g' = glast_con_rr g" "cfg g' = cfg g" by blast
  from push_after_tail [OF assms(1,2,7) t(1-4) assms(10,11), of "msg_len r" req now f p]
  show ?thesis using t assms(8,9) by (auto simp: ready_to_send_def push_request_def)
qed

theorem tail_send_breaks_the_queue_witness:
  "\<exists>g' ws'. send_round 1 (dial_ok 9) \<lparr>outq = [], wplan = [Accept 9, Accept 9]\<rparr>
      (glob_with [msg_demo 0 ''a'', msg_demo 1 ''b''] []) = Inr (g', ws', True) \<and>
    ready_to_send 6 11 12 (Timeval 1 0) g' \<in> {Inl (UB Invalid_Access), Inl Hang}"
proof -
  let ?ms = "[msg_demo 0 ''a'', msg_demo 1 ''b'']"
  let ?ws = "\<lparr>outq = [], wplan = [Accept 9, Accept 9]\<rparr>"
  have "\<exists>g' ws'. send_round 1 (dial_ok 9) ?ws (glob_with ?ms []) = Inr (g', ws', True) \<and>
      conns g' = peers_up \<and> requests g' 6 = Some (req_demo ''b'')"
  proof -
    have "case send_round 1 (dial_ok 9) ?ws (glob_with ?ms []) of Inl e \<Rightarrow> False
      | Inr (g', ws', took) \<Rightarrow> took \<and> conns g' = peers_up \<and> requests g' 6 = Some (req_demo ''b'')"
      by code_simp
    then show ?thesis by (auto split: sum.splits)
  qed
  then obtain g' ws' where g': "send_round 1 (dial_ok 9) ?ws (glob_with ?ms []) = Inr (g', ws', True)"
    "conns g' = peers_up" "requests g' 6 = Some (req_demo ''b'')" by blast
  have "broker_ok 2 (broker_with ?ms [])" "tail_only 1 ?ms"
    by (simp_all add: broker_ok_def broker_with_def msg_demo_def tail_only_def for_conn_def)
  with g' tail_send_breaks_the_queue [OF glob_with_rep, of ?ms "[]" 1 "dial_ok 9" ?ws g' ws' True 6
      "req_demo ''b''" "''b''" 11 12 "Timeval 1 0"] req_demo_facts [of "''b''"]
  have "ready_to_send 6 11 12 (Timeval 1 0) g' \<in> {Inl (UB Invalid_Access), Inl Hang}"
    by (simp add: glob_with_facts load_req_def KEY_SIZE_def)
  with g'(1) show ?thesis by blast
qed

subsection \<open>Properties: the client\<close>

text \<open>\<open>ready_to_send\<close> queues the request as the abstract push does and returns 1; it wakes a
  sender only if the queue was empty before. All senders wait on one condition variable, so a
  message queued behind another wakes nobody, also when the connection it is for is idle.\<close>

theorem wakes_only_when_queue_was_empty:
  assumes "broker_rep g b" "broker_ok (num_peers (cfg g)) b" "num_peers (cfg g) \<le> int (length (conns g))"
    and "load_req (requests g) req = Inr r" "c_str (req_id r) = Inr s" "s \<noteq> []" "length s < KEY_SIZE"
  shows "case b_push (conns g) (num_peers (cfg g)) s (msg_len r) req now f p b of
      Inl e \<Rightarrow> ready_to_send req f p now g = Inl e
    | Inr b' \<Rightarrow> \<exists>g'. ready_to_send req f p now g = Inr (1, b_queue b = [], g') \<and> broker_rep g' b'"
  using assms by (rule ready_to_send_signals)

theorem wakes_only_when_queue_was_empty_witness:
  "case b_push peers_up 2 ''b'' 2 6 (Timeval 1 0) 11 12 (broker_with [msg_demo 0 ''a''] []) of
      Inl e \<Rightarrow> ready_to_send 6 11 12 (Timeval 1 0) (glob_with [msg_demo 0 ''a''] []) = Inl e
    | Inr b' \<Rightarrow> \<exists>g'. ready_to_send 6 11 12 (Timeval 1 0) (glob_with [msg_demo 0 ''a''] []) =
          Inr (1, b_queue (broker_with [msg_demo 0 ''a''] []) = [], g') \<and> broker_rep g' b'"
proof -
  have "broker_ok 2 (broker_with [msg_demo 0 ''a''] [])"
    by (simp add: broker_ok_def broker_with_def msg_demo_def)
  then show ?thesis
    using wakes_only_when_queue_was_empty [OF glob_with_rep [of "[msg_demo 0 ''a'']" "[]"],
        of 6 "req_demo ''b''" "''b''" 11 12 "Timeval 1 0"] req_demo_facts [of "''b''"] glob_demo_facts
    by (simp add: glob_with_facts KEY_SIZE_def cong: sum.case_cong)
qed

text \<open>A request whose id is empty is not queued; with an empty queue the wake-up test of
  \<open>ready_to_send\<close> then reads through a NULL \<open>gmsgq\<close>.\<close>

theorem empty_id_on_empty_queue_faults:
  assumes "broker_rep g b" "load_req (requests g) req = Inr r" "c_str (req_id r) = Inr []" "b_queue b = []"
  shows "ready_to_send req f p now g = Inl (UB Null_Deref)"
  using assms by (rule ready_to_send_empty_id)

theorem empty_id_on_empty_queue_faults_witness:
  "ready_to_send 5 11 12 (Timeval 1 0) (glob_demo\<lparr>requests := (\<lambda>a. Some (req_demo []))\<rparr>) = Inl (UB Null_Deref)"
  using empty_id_on_empty_queue_faults [of "glob_demo\<lparr>requests := (\<lambda>a. Some (req_demo []))\<rparr>" broker_empty 5
      "req_demo []"] glob_demo_rep(1) req_demo_facts [of "[]"]
  by (simp add: load_req_def broker_rep_def broker_empty_def KEY_SIZE_def)

subsection \<open>Properties: the receiver\<close>

text \<open>The shape of every handler's result: at most one call, only the session queue changes.\<close>

definition one_event :: "glob \<Rightarrow> (glob \<times> event list) res \<Rightarrow> bool" where
  "one_event g r \<longleftrightarrow> (\<forall>g' ev. r = Inr (g', ev) \<longrightarrow> length ev \<le> 1 \<and> g' = g\<lparr>gtsidq := gtsidq g'\<rparr>)"

lemma one_event_call_req:
  "one_event g (bindE (call_req h x y z) (\<lambda>ev. Inr (g, ev)))"
  by (auto simp: one_event_def call_req_def)

lemma one_event_deliver: "one_event g (deliver_response now message s retc g)"
  by (auto simp: one_event_def deliver_response_def outcome_iffs call_res_def Let_def split: if_splits)

lemma one_event_none: "one_event g (Inr (g, []))"
  by (simp add: one_event_def)

lemma one_event_request: "one_event g (event_request now message rc g)"
  by (auto simp: one_event_def event_request_def outcome_iffs call_req_def Let_def split: if_splits)

lemmas one_event_intros = one_event_call_req one_event_deliver one_event_none one_event_request

lemma handle_one_event: "one_event g (handle_message now message rc g)"
  using one_event_intros
  by (simp add: handle_message_def event_response_def session_request_def session_response_def Let_def)

text \<open>Whatever the message, the receiver calls at most one client callback for it and changes
  nothing of the module but the session queue.\<close>

theorem message_calls_at_most_one_callback:
  assumes "handle_message now message rc g = Inr (g', ev)"
  shows "length ev \<le> 1 \<and> g' = g\<lparr>gtsidq := gtsidq g'\<rparr>"
  using handle_one_event [of g now message rc] assms by (simp add: one_event_def)

theorem message_calls_at_most_one_callback_witness:
  "\<exists>g' ev. handle_message (Timeval 12 0) (Some ''<TYPE>2</TYPE><TID>t1</TID>'') 27 (glob_with [] [entry_demo]) =
      Inr (g', ev) \<and> length ev \<le> 1 \<and> g' = (glob_with [] [entry_demo])\<lparr>gtsidq := gtsidq g'\<rparr>"
proof -
  have "case handle_message (Timeval 12 0) (Some ''<TYPE>2</TYPE><TID>t1</TID>'') 27 (glob_with [] [entry_demo])
    of Inl e \<Rightarrow> False | Inr (g', ev) \<Rightarrow> ev \<noteq> []" by code_simp
  then obtain g' ev where h: "handle_message (Timeval 12 0) (Some ''<TYPE>2</TYPE><TID>t1</TID>'') 27
    (glob_with [] [entry_demo]) = Inr (g', ev)" by (auto split: sum.splits)
  from message_calls_at_most_one_callback [OF h] h show ?thesis by blast
qed

text \<open>C6. A response goes to the callback registered with its transaction id, called once, with the
  timeout flag of the session, its parameter and the time since the last push, and the session
  is closed; an unknown id is dropped; a session registered without a callback, as the
  pipe thread registers them, is called through NULL.\<close>

theorem response_reaches_its_callback:
  assumes "broker_rep g b" "s \<noteq> []" "length s < KEY_SIZE"
  shows "case find (has_id s) (b_sessions b) of
      None \<Rightarrow> deliver_response now message s retc g = Inr (g, [])
    | Some e \<Rightarrow>
        if callback_f e = 0 then deliver_response now message s retc g = Inl (UB Null_Deref)
        else \<exists>g'. deliver_response now message s retc g = Inr (g',
            [Call_res (callback_f e) (if is_expired e = 0 then 0 else 1) (callback_param e)
               \<lparr>res_id = s, retcode = retc, query_res = msg_bytes message\<rparr> (elapsed_ms now (ATime e))]) \<and>
          broker_rep g' (b_close s b)"
proof (cases "find (has_id s) (b_sessions b)")
  case None
  with deliver_unknown [OF assms(1) None assms(2,3)] show ?thesis by simp
next
  case (Some e)
  have "queue_rep False (gtsidq g) (b_sessions b)" using assms(1) by (simp add: broker_rep_def)
  from idq.lookup_law [OF this assms(2), of now tsid_zero] Some assms(3)
  have "deliver_response now message s retc g = Inl (UB Null_Deref)" if "callback_f e = 0"
    using that by (simp add: deliver_response_def store_str_def call_res_def Let_def)
  with Some deliver_refines [OF assms(1) Some assms(2,3)] show ?thesis by simp
qed

theorem response_reaches_its_callback_witness:
  "case find (has_id ''t1'') (b_sessions (broker_with [] [entry_demo])) of
      None \<Rightarrow> deliver_response (Timeval 12 0) (Some ''ok'') ''t1'' 200 (glob_with [] [entry_demo]) =
                Inr (glob_with [] [entry_demo], [])
    | Some e \<Rightarrow>
        if callback_f e = 0
        then deliver_response (Timeval 12 0) (Some ''ok'') ''t1'' 200 (glob_with [] [entry_demo]) = Inl (UB Null_Deref)
        else \<exists>g'. deliver_response (Timeval 12 0) (Some ''ok'') ''t1'' 200 (glob_with [] [entry_demo]) = Inr (g',
            [Call_res (callback_f e) (if is_expired e = 0 then 0 else 1) (callback_param e)
               \<lparr>res_id = ''t1'', retcode = 200, query_res = msg_bytes (Some ''ok'')\<rparr>
               (elapsed_ms (Timeval 12 0) (ATime e))]) \<and>
          broker_rep g' (b_close ''t1'' (broker_with [] [entry_demo]))"
  by (rule response_reaches_its_callback [OF glob_with_rep]) (simp_all add: KEY_SIZE_def)

text \<open>A response whose transaction id has 256 bytes or more overflows \<open>res->id\<close>, whether or
  not the id is one of a session: the copy comes before the test.\<close>

theorem long_tid_overflows:
  assumes "broker_rep g b" "KEY_SIZE \<le> length s"
  shows "deliver_response now message s retc g = Inl (UB Buffer_Overflow)"
proof -
  have "queue_rep False (gtsidq g) (b_sessions b)" using assms(1) by (simp add: broker_rep_def)
  moreover have "s \<noteq> []" using assms(2) by (auto simp: KEY_SIZE_def)
  ultimately obtain x where "lookup_ID_idq (gtsidq g) (Some s) now tsid_zero = Inr x"
    using idq.lookup_law by blast
  with assms(2) show ?thesis by (cases x) (simp add: deliver_response_def store_str_def)
qed

theorem long_tid_overflows_witness:
  "deliver_response (Timeval 1 0) None (replicate 256 (CHR ''x'')) 0 glob_demo = Inl (UB Buffer_Overflow)"
  by (rule long_tid_overflows [OF glob_demo_rep(1)]) (simp add: KEY_SIZE_def)

text \<open>An event request is handed to the request callback exactly once, flagged as a timeout
  when its transaction id belongs to a session; before a request callback is registered it is
  called through NULL.\<close>

theorem event_request_calls_request_callback:
  assumes "broker_rep g b" "attr_text message rc ''<TID>'' ''</TID>'' = s" "s \<noteq> []"
  shows "event_request now message rc g =
    (if reg_req_cb g = 0 then Inl (UB Null_Deref)
     else Inr (g, [case find (has_id s) (b_sessions b) of
         None \<Rightarrow> Call_req (reg_req_cb g) 0 (new_request (msg_bytes message) rc 0 0) 0
       | Some e \<Rightarrow> Call_req (reg_req_cb g) 1 (new_request (msg_bytes message) rc 1 1) (elapsed_ms now (ATime e))]))"
proof -
  have "queue_rep False (gtsidq g) (b_sessions b)" using assms(1) by (simp add: broker_rep_def)
  from idq.lookup_law [OF this assms(3), of now tsid_zero] assms(2) show ?thesis
    by (cases "find (has_id s) (b_sessions b)") (simp_all add: event_request_def call_req_def Let_def)
qed

theorem event_request_calls_request_callback_witness:
  "event_request (Timeval 12 0) (Some ''<TID>t1</TID>'') 13 ((glob_with [] [entry_demo])\<lparr>reg_req_cb := 9\<rparr>) =
    (if reg_req_cb ((glob_with [] [entry_demo])\<lparr>reg_req_cb := 9\<rparr>) = 0 then Inl (UB Null_Deref)
     else Inr ((glob_with [] [entry_demo])\<lparr>reg_req_cb := 9\<rparr>,
       [case find (has_id ''t1'') (b_sessions (broker_with [] [entry_demo])) of
         None \<Rightarrow> Call_req (reg_req_cb ((glob_with [] [entry_demo])\<lparr>reg_req_cb := 9\<rparr>)) 0
                   (new_request (msg_bytes (Some ''<TID>t1</TID>'')) 13 0 0) 0
       | Some e \<Rightarrow> Call_req (reg_req_cb ((glob_with [] [entry_demo])\<lparr>reg_req_cb := 9\<rparr>)) 1
                   (new_request (msg_bytes (Some ''<TID>t1</TID>'')) 13 1 1) (elapsed_ms (Timeval 12 0) (ATime e))]))"
proof (rule event_request_calls_request_callback)
  show "broker_rep ((glob_with [] [entry_demo])\<lparr>reg_req_cb := 9\<rparr>) (broker_with [] [entry_demo])"
    using glob_with_rep [of "[]" "[entry_demo]"] by (simp add: broker_rep_def)
  show "attr_text (Some ''<TID>t1</TID>'') 13 ''<TID>'' ''</TID>'' = ''t1''" by code_simp
qed simp

text \<open>The receiver notices that the peer has closed the connection only if its variable \<open>rc\<close>
  happens to be 0, as before the first message; after a message \<open>rc\<close> keeps that message's
  length, the closed connection stays marked up, and the round changes nothing.\<close>

theorem closed_connection_goes_unnoticed:
  assumes "k < length (conns g)" "state (conns g ! k) = 1"
    and "inq (socks (fd (conns g ! k))) = []" "rplan (socks (fd (conns g ! k))) = Deliver j # p"
  shows "recv_round k ds socks now rc g = Inr
    (if rc = 0 then g\<lparr>conns := set_con_state k 0 (conns g)\<rparr> else g, rc,
     (socks (fd (conns g ! k)))\<lparr>rplan := p\<rparr>, [])"
  using assms by (rule recv_round_eof)

theorem closed_connection_goes_unnoticed_witness:
  "recv_round 1 [] (\<lambda>f. \<lparr>inq = [], rplan = [Deliver 3], rerrno = E_none\<rparr>) (Timeval 1 0) 27 glob_demo =
     Inr (glob_demo, 27, \<lparr>inq = [], rplan = [], rerrno = E_none\<rparr>, [])"
  using closed_connection_goes_unnoticed [of 1 glob_demo "\<lambda>f. \<lparr>inq = [], rplan = [Deliver 3], rerrno = E_none\<rparr>" 3 "[]"
      "[]" "Timeval 1 0" 27]
  by (simp add: glob_demo_def peers_up_def)

text \<open>C38. The receiver of a peer other than the first that could not be connected at start never
  leaves its reconnect loop: its zero entry has the number of the first peer, so it goes on
  recreating that peer's connection, whatever the attempts give.\<close>

theorem failed_peer_never_reconnects:
  assumes "create_peers cf ds = Inr cl" "k < length cl" "0 < k"
    and "connect_rc (ds k) 0 < 0" "connect_rc (ds k) 1 < 0"
  shows "reconnect_loop k cf attempts cl \<noteq> Inr cl'"
proof -
  have "cl ! k = con_zero" by (rule failed_peer_keeps_zero_entry [OF assms(1,2,4,5)])
  then show ?thesis using assms(3) by (intro reconnect_loop_other) (simp_all add: con_zero_def)
qed

theorem failed_peer_never_reconnects_witness:
  "\<nexists>cl'. reconnect_loop 1 cfg_demo [dial_ok 5, dial_ok 6] [\<lparr>fd = 3, state = 1, peer_id = 0\<rparr>, con_zero] = Inr cl'"
  using failed_peer_never_reconnects [OF create_peers_demo, of 1 "[dial_ok 5, dial_ok 6]"]
  by (simp add: dial_refused_def)

text \<open>The receiver of a peer whose entry carries its own number recovers: however many
  attempts fail, the first connection that succeeds is put in its entry and the loop ends.\<close>

theorem dropped_peer_reconnects:
  assumes "port (peers cf ! k) \<in> {0..9999}" "k < length (peers cf)" "gai_ok d" "0 \<le> connect_rc d 0"
    and "k < length cl" "state (cl ! k) \<noteq> 1" "peer_id (cl ! k) = int k"
    and "\<forall>x \<in> set fails. gai_ok x \<and> connect_rc x 0 < 0"
  shows "reconnect_loop k cf (fails @ d # ds) cl =
    Inr (cl[k := \<lparr>fd = socket_fd d, state = 1, peer_id = int k\<rparr>])"
  using assms by (rule reconnect_loop_own)

theorem dropped_peer_reconnects_witness:
  "reconnect_loop 0 cfg_demo ([dial_refused 7, dial_refused 8] @ dial_ok 9 # []) peers_demo =
     Inr (peers_demo[0 := \<lparr>fd = socket_fd (dial_ok 9), state = 1, peer_id = int 0\<rparr>])"
  by (rule dropped_peer_reconnects)
    (simp_all add: cfg_demo_def dial_ok_def dial_refused_def peers_demo_def)

end
