(* ===== verification/Runs.thy ===== *)
theory Runs
  imports Prelude
begin

section \<open>Runs of a step relation\<close>

text \<open>
  The threads of each component are a relation between states (\<open>gstep\<close>, \<open>tnext\<close>, \<open>fnext\<close>,
  \<open>wnext\<close>, \<open>mstep\<close>, \<open>pnext\<close>, \<open>estep\<close>). What is shown of all of them has one of three shapes, each
  a contract: an invariant that every step keeps; a measure that some step can always decrease,
  so that the runs can reach an end; a measure that every step decreases, so that all runs
  do. The components give the contracts of their own relations.
\<close>

subsection \<open>Steps that keep an invariant\<close>

locale safe_steps =
  fixes step :: "'s \<Rightarrow> 's \<Rightarrow> bool"
    and inv :: "'s \<Rightarrow> bool"
  assumes step_keeps: "step s s' \<Longrightarrow> inv s \<Longrightarrow> inv s'"
begin

lemma run_keeps: "step\<^sup>*\<^sup>* s s' \<Longrightarrow> inv s \<Longrightarrow> inv s'"
  by (induction rule: rtranclp_induct) (auto intro: step_keeps)

lemma run_keeps_image:
  assumes "\<And>s s'. step s s' \<Longrightarrow> inv s \<Longrightarrow> f s' = f s" "step\<^sup>*\<^sup>* s s'" "inv s"
  shows "f s' = f s"
  using assms(2,3)
proof (induction rule: rtranclp_induct)
  case (step s1 s2)
  then have "inv s1" by (auto intro: run_keeps)
  with step assms(1) show ?case by simp
qed simp

end

subsection \<open>An invariant that holds at the start\<close>

locale started_steps = safe_steps +
  fixes start :: "'s \<Rightarrow> bool"
  assumes start_inv: "start s \<Longrightarrow> inv s"
begin

lemma reach_inv: "start s \<Longrightarrow> step\<^sup>*\<^sup>* s s' \<Longrightarrow> inv s'"
  by (rule run_keeps [OF _ start_inv])

end

subsection \<open>Steps that can reach an end\<close>

locale ending_steps = safe_steps +
  fixes rank :: "'s \<Rightarrow> nat"
    and ended :: "'s \<Rightarrow> bool"
  assumes goes_on: "inv s \<Longrightarrow> \<not> ended s \<Longrightarrow> \<exists>s'. step s s' \<and> rank s' < rank s"
begin

lemma reaches_end: "inv s \<Longrightarrow> \<exists>s'. step\<^sup>*\<^sup>* s s' \<and> inv s' \<and> ended s'"
proof (induction "rank s" arbitrary: s rule: less_induct)
  case less
  show ?case
  proof (cases "ended s")
    case False
    with goes_on less.prems obtain s1 where s1: "step s s1" "rank s1 < rank s" by blast
    with less step_keeps obtain s' where "step\<^sup>*\<^sup>* s1 s'" "inv s'" "ended s'" by blast
    with s1(1) show ?thesis by (meson converse_rtranclp_into_rtranclp)
  qed (use less.prems in blast)
qed

end

subsection \<open>Steps that always reach an end\<close>

locale terminating_steps = safe_steps +
  fixes rank :: "'s \<Rightarrow> nat"
    and ended :: "'s \<Rightarrow> bool"
  assumes not_stuck: "inv s \<Longrightarrow> \<not> ended s \<Longrightarrow> \<exists>s'. step s s'"
    and decreases: "inv s \<Longrightarrow> \<not> ended s \<Longrightarrow> step s s' \<Longrightarrow> rank s' < rank s"
begin

text \<open>A run that goes on for more steps than the rank of its first state has met an end on the way.\<close>

lemma run_ends:
  assumes "inv (r 0)" "\<And>i. i < n \<Longrightarrow> step (r i) (r (Suc i))" "rank (r 0) < n"
  shows "\<exists>i \<le> n. ended (r i)"
proof (rule ccontr)
  assume "\<not> ?thesis"
  then have live: "\<not> ended (r i)" if "i \<le> n" for i using that by blast
  have "inv (r i) \<and> rank (r i) + i \<le> rank (r 0)" if "i \<le> n" for i
    using that
  proof (induction i)
    case (Suc i)
    with assms(2) [of i] live [of i] decreases [of "r i" "r (Suc i)"] step_keeps [of "r i" "r (Suc i)"]
    show ?case by force
  qed (use assms(1) in simp)
  with assms(3) show False by force
qed

end

sublocale terminating_steps \<subseteq> ending_steps
  by unfold_locales (meson not_stuck decreases)

end
