(* ===== verification/Reach.thy ===== *)
theory Reach
  imports Rounds Runs
begin

section \<open>Reachable states\<close>

text \<open>
  The module as a state machine whose steps are whole rounds of its threads, in any order and
  with any behaviour of the operating system and of the client. The invariant is that the two
  queues represent a broker that is well formed. One peer keeps it for ever; with two peers the
  unlinked tail of \<open>pop_from_msgq\<close> breaks it.
\<close>

inductive gstep :: "glob \<Rightarrow> glob \<Rightarrow> bool" where
  client_allocs: "requests g a = None \<Longrightarrow> gstep g (g\<lparr>requests := (requests g)(a \<mapsto> r)\<rparr>)"
| client_writes: "gstep g (g\<lparr>c_strs := strs\<rparr>)"
| client_registers: "register_callback_request f g = (rc, g') \<Longrightarrow> gstep g g'"
| client_registers_res: "register_callback_responses f p g = (rc, g') \<Longrightarrow> gstep g g'"
| client_sends: "ready_to_send req f p now g = Inr (rc, sig, g') \<Longrightarrow> gstep g g'"
| pipe_reads: "rcv_pipe_round rd now g = Inr g' \<Longrightarrow> gstep g g'"
| manager_marks: "qmanager_round nows g = Inr g' \<Longrightarrow> gstep g g'"
| monitor_redials: "monitor_sock_conn (cfg g) sockopt ds (conns g) = Inr cl \<Longrightarrow> gstep g (g\<lparr>conns := cl\<rparr>)"
| receiver_receives: "recv_round i ds socks now rc g = Inr (g', rc', s, ev) \<Longrightarrow> gstep g g'"
| sender_sends: "send_round i d ws g = Inr (g', ws', took) \<Longrightarrow> gstep g g'"

definition queues_ok :: "glob \<Rightarrow> bool" where
  "queues_ok g \<longleftrightarrow> num_peers (cfg g) = int (length (conns g)) \<and>
     (\<exists>b. broker_rep g b \<and> broker_ok (num_peers (cfg g)) b)"

lemma queues_okI:
  "broker_rep g b \<Longrightarrow> broker_ok (num_peers (cfg g)) b \<Longrightarrow> num_peers (cfg g) = int (length (conns g)) \<Longrightarrow>
   queues_ok g"
  by (auto simp: queues_ok_def)

lemma broker_rep_other [simp]:
  "broker_rep (g\<lparr>requests := h\<rparr>) b = broker_rep g b"
  "broker_rep (g\<lparr>c_strs := strs\<rparr>) b = broker_rep g b"
  "broker_rep (g\<lparr>conns := cl\<rparr>) b = broker_rep g b"
  "broker_rep (g\<lparr>reg_req_cb := f\<rparr>) b = broker_rep g b"
  "broker_rep (g\<lparr>reg_res_cb := f\<rparr>) b = broker_rep g b"
  "broker_rep (g\<lparr>reg_res_param := f\<rparr>) b = broker_rep g b"
  by (simp_all add: broker_rep_def)

subsection \<open>Pushing\<close>

text \<open>What keeps the queues well formed.\<close>

named_theorems keeps_queues "operations that keep queues_ok"

lemma push_request_ok [keeps_queues]:
  assumes "queues_ok g" "push_request req f p now g = Inr g'"
  shows "queues_ok g'"
proof -
  from assms(1) obtain b where b: "broker_rep g b" "broker_ok (num_peers (cfg g)) b"
    "num_peers (cfg g) = int (length (conns g))" by (auto simp: queues_ok_def)
  from assms(2) obtain r s where r: "load_req (requests g) req = Inr r" "c_str (req_id r) = Inr s"
    by (auto simp: push_request_def outcome_iffs)
  show ?thesis
  proof (cases "s = []")
    case True
    with push_empty_id [OF b(1) r(1), of f p now] r(2) obtain mq where
      "push_request req f p now g = Inr (g\<lparr>gmsgq := mq\<rparr>)" "broker_rep (g\<lparr>gmsgq := mq\<rparr>) b" by blast
    with assms(2) b show ?thesis by (auto intro!: queues_okI)
  next
    case False
    have len: "length s < KEY_SIZE"
      using assms(2) r False
      by (auto simp: push_request_def push_to_msgq_def outcome_iffs store_str_def split: if_splits)
    note ref = push_refines [OF b(1,2) False len, of "conns g" "msg_len r" req now f p]
    show ?thesis
    proof (cases "b_push (conns g) (num_peers (cfg g)) s (msg_len r) req now f p b")
      case (Inl e)
      with ref assms(2) r show ?thesis by (simp add: push_request_def)
    next
      case (Inr b')
      with ref obtain mq iq rr where q: "push_to_msgq (conns g) (num_peers (cfg g)) (gmsgq g) (gtsidq g)
          (glast_con_rr g) (Some s) (msg_len r) req now f p = Inr (mq, iq, rr)"
        "broker_rep (g\<lparr>gmsgq := mq, gtsidq := iq, glast_con_rr := rr\<rparr>) b'" by auto
      then have "g' = g\<lparr>gmsgq := mq, gtsidq := iq, glast_con_rr := rr\<rparr>"
        using assms(2) r by (simp add: push_request_def)
      moreover have "broker_ok (num_peers (cfg g)) b'"
        using broker_ok_push [OF b(2) False _ Inr] b(3) by simp
      ultimately show ?thesis using q(2) b(3) by (intro queues_okI [of _ b']) simp_all
    qed
  qed
qed

subsection \<open>The other threads\<close>

lemma deliver_response_ok [keeps_queues]:
  assumes "queues_ok g" "deliver_response now message s retc g = Inr (g', ev)"
  shows "queues_ok g'"
proof -
  from assms(1) obtain b where b: "broker_rep g b" "broker_ok (num_peers (cfg g)) b"
    "num_peers (cfg g) = int (length (conns g))" by (auto simp: queues_ok_def)
  from assms(2) have "g' = g \<or> (\<exists>iq. rem_id (gtsidq g) s = Inr iq \<and> g' = g\<lparr>gtsidq := iq\<rparr>)"
    by (auto simp: deliver_response_def outcome_iffs Let_def split: if_splits)
  then show ?thesis
  proof
    assume "\<exists>iq. rem_id (gtsidq g) s = Inr iq \<and> g' = g\<lparr>gtsidq := iq\<rparr>"
    with rem_id_refines [OF b(1), of s] have "broker_rep g' (b_close s b)" "cfg g' = cfg g" "conns g' = conns g"
      by auto
    with broker_ok_close [OF b(2), of s] b(3) show ?thesis by (auto intro: queues_okI)
  qed (use assms in simp)
qed

lemma call_req_ok [keeps_queues]:
  "queues_ok g \<Longrightarrow> bindE (call_req h x y z) (\<lambda>ev. Inr (g, ev)) = Inr (g', ev') \<Longrightarrow> queues_ok g'"
  by (auto simp: outcome_iffs)

lemma event_request_ok [keeps_queues]: "queues_ok g \<Longrightarrow> event_request now message rc g = Inr (g', ev) \<Longrightarrow> queues_ok g'"
  by (auto simp: event_request_def outcome_iffs Let_def split: if_splits)

lemma handle_message_ok [keeps_queues]: "queues_ok g \<Longrightarrow> handle_message now message rc g = Inr (g', ev) \<Longrightarrow> queues_ok g'"
  by (auto simp: handle_message_def event_response_def session_request_def session_response_def Let_def
      intro: keeps_queues split: if_splits)

lemma reconnect_loop_length: "reconnect_loop k cf ds cl = Inr cl' \<Longrightarrow> length cl' = length cl"
proof (induction ds arbitrary: cl)
  case Nil
  then show ?case by (subst (asm) reconnect_loop.simps) (auto split: if_splits)
next
  case (Cons d ds)
  then show ?case
    by (subst (asm) (2) reconnect_loop.simps)
      (auto simp: outcome_iffs dest: recreate_conn_facts(1) split: if_splits)
qed

lemma queues_ok_conns: "queues_ok g \<Longrightarrow> length cl = length (conns g) \<Longrightarrow> queues_ok (g\<lparr>conns := cl\<rparr>)"
  by (auto simp: queues_ok_def)

lemma recv_round_ok [keeps_queues]:
  assumes "queues_ok g" "recv_round i ds socks now rc g = Inr (g', rc', s, ev)"
  shows "queues_ok g'"
proof -
  from assms(2) obtain cl where cl: "reconnect_loop i (cfg g) ds (conns g) = Inr cl"
    "g' = g\<lparr>conns := set_con_state i 0 cl\<rparr> \<or>
     (\<exists>message rc ev. handle_message now message rc (g\<lparr>conns := cl\<rparr>) = Inr (g', ev))"
    by (auto simp: recv_round_def outcome_iffs Let_def split: if_splits)
  have len: "length cl = length (conns g)" by (rule reconnect_loop_length [OF cl(1)])
  from cl(2) show ?thesis
    using queues_ok_conns [OF assms(1) len] queues_ok_conns [OF assms(1), of "set_con_state i 0 cl"] len
    by (auto simp: set_con_state_def intro: keeps_queues)
qed

lemma monitor_from_length: "monitor_from cf so ds i cl = Inr cl' \<Longrightarrow> length cl' = length cl"
proof (induction cf so ds i cl rule: monitor_from.induct)
  case (1 cf so ds i cl)
  from 1(3) show ?case
    by (subst (asm) monitor_from.simps) (auto simp: outcome_iffs dest: 1(1,2) split: if_splits)
qed

subsection \<open>The sender\<close>

text \<open>A message of another connection stands in front of it: the condition of the tail case.\<close>

definition sends_tail :: "nat \<Rightarrow> dial \<Rightarrow> glob \<Rightarrow> bool" where
  "sends_tail i d g \<longleftrightarrow> (\<exists>ms. queue_rep True (gmsgq g) ms \<and> tail_only (peer_id (conns g ! i)) ms)"

lemma send_round_keeps_peer_id:
  assumes "recreate_conn (peer_id (cl ! i)) cf d cl = Inr cl'" "i < length cl"
  shows "peer_id (cl' ! i) = peer_id (cl ! i)" and "length cl' = length cl"
  using recreate_conn_facts(1,2) [OF assms(1)] assms(2) nth_map [of i cl' peer_id] nth_map [of i cl peer_id]
  by auto

lemma send_round_ok [keeps_queues]:
  assumes "queues_ok g" "\<not> sends_tail i d g" "send_round i d ws g = Inr (g', ws', took)"
  shows "queues_ok g'"
proof -
  from assms(1) obtain b where b: "broker_rep g b" "broker_ok (num_peers (cfg g)) b"
    "num_peers (cfg g) = int (length (conns g))" by (auto simp: queues_ok_def)
  then have q: "queue_rep True (gmsgq g) (b_queue b)" by (simp add: broker_rep_def)
  let ?con = "peer_id (conns g ! i)"
  have nt: "\<not> tail_only ?con (b_queue b)" using assms(2) q by (auto simp: sends_tail_def)
  let ?C = "if state (conns g ! i) \<noteq> 1 then recreate_conn ?con (cfg g) d (conns g) else Inr (conns g)"
  let ?K = "\<lambda>cl. bindE (pop_from_msgq (gmsgq g) (peer_id (cl ! i))) (\<lambda>(node, mq).
      let g = g\<lparr>conns := cl, gmsgq := mq\<rparr> in if node = 0 then Inr (g, ws, False)
      else bindE (send_node i node ws g) (\<lambda>(g, ws). Inr (g, ws, True)))"
  have i: "i < length (conns g)" using assms(3) by (auto simp: send_round_def split: if_splits)
  then have "send_round i d ws g = bindE ?C ?K" by (simp add: send_round_def)
  then have "bindE ?C ?K = Inr (g', ws', took)" using assms(3) by (rule subst)
  then obtain cl where c: "?C = Inr cl" and r: "?K cl = Inr (g', ws', took)"
    unfolding bindE_Inr_iff by blast
  from c i have cl: "length cl = length (conns g)" and con: "peer_id (cl ! i) = ?con"
  proof -
    show "length cl = length (conns g)" and "peer_id (cl ! i) = ?con"
    proof (atomize (full), cases "state (conns g ! i) = 1")
      case True
      with c show "length cl = length (conns g) \<and> peer_id (cl ! i) = ?con" by simp
    next
      case False
      with c have "recreate_conn ?con (cfg g) d (conns g) = Inr cl" by simp
      from send_round_keeps_peer_id [OF this i]
      show "length cl = length (conns g) \<and> peer_id (cl ! i) = ?con" by simp
    qed
  qed
  from r obtain a mq where pop: "pop_from_msgq (gmsgq g) ?con = Inr (a, mq)"
    and run: "if a = 0 then g' = g\<lparr>conns := cl, gmsgq := mq\<rparr>
              else send_node i a ws (g\<lparr>conns := cl, gmsgq := mq\<rparr>) = Inr (g', ws')"
    unfolding con by (cases "pop_from_msgq (gmsgq g) ?con") (auto simp: bindE_Inr_iff Let_def split: if_splits)
  have rep: "broker_rep (g\<lparr>conns := cl', gmsgq := mq'\<rparr>) (b_take ?con b)"
    if "queue_rep True mq' (rem_first (for_conn ?con) (b_queue b))" for cl' mq'
    using that b(1) by (simp add: broker_rep_def b_take_def)
  show ?thesis
  proof (cases "find (for_conn ?con) (b_queue b)")
    case None
    with pop_none [OF q] pop have "a = 0" "mq = gmsgq g" by auto
    with run have "g' = g\<lparr>conns := cl\<rparr>" by simp
    with queues_ok_conns [OF assms(1) cl] show ?thesis by simp
  next
    case (Some v)
    from pop_some [OF q Some nt] pop obtain m where
      m: "a \<noteq> 0" "free_cell (qmem mq) a = Inr m"
      "queue_rep True (mq\<lparr>qmem := m\<rparr>) (rem_first (for_conn ?con) (b_queue b))" by auto
    with run have "\<exists>cl2 h. g' = g\<lparr>conns := cl2, requests := h, gmsgq := mq\<lparr>qmem := m\<rparr>\<rparr> \<and> length cl2 = length cl"
      by (auto simp: send_node_def outcome_iffs Let_def set_con_state_def)
    then obtain cl2 h where g': "g' = g\<lparr>conns := cl2, requests := h, gmsgq := mq\<lparr>qmem := m\<rparr>\<rparr>"
      "length cl2 = length cl" by blast
    then have "broker_rep g' (b_take ?con b)" using rep [OF m(3)] by (simp add: broker_rep_def)
    with g' broker_ok_take [OF b(2), of ?con] b(3) cl show ?thesis by (intro queues_okI) simp_all
  qed
qed

text \<open>With one peer every message is for connection 0, so the tail case cannot arise.\<close>

lemma one_peer_no_tail:
  assumes "queues_ok g" "num_peers (cfg g) = 1"
  shows "\<not> sends_tail i d g"
proof
  assume "sends_tail i d g"
  then obtain ms where ms: "queue_rep True (gmsgq g) ms" "tail_only (peer_id (conns g ! i)) ms"
    by (auto simp: sends_tail_def)
  from assms obtain b where b: "broker_rep g b" "broker_ok 1 b" by (auto simp: queues_ok_def)
  then have "queue_rep True (gmsgq g) (b_queue b)" by (simp add: broker_rep_def)
  with ms(1) have "ms = b_queue b" by (auto simp: queue_rep_def dest: chain_unique)
  with b(2) have all: "\<forall>e \<in> set ms. mq_conn e = 0" by (auto simp: broker_ok_def)
  from ms(2) have len: "2 \<le> length ms" and l: "for_conn (peer_id (conns g ! i)) (last ms)"
    and n: "\<forall>e \<in> set (butlast ms). \<not> for_conn (peer_id (conns g ! i)) e" by (auto simp: tail_only_def)
  from len have "butlast ms \<noteq> []" "ms \<noteq> []" by (auto simp: butlast_conv_take)
  then have x: "hd (butlast ms) \<in> set (butlast ms)" "last ms \<in> set ms" by simp_all
  then have "hd (butlast ms) \<in> set ms" by (auto dest: in_set_butlastD)
  with all x(2) have "mq_conn (hd (butlast ms)) = mq_conn (last ms)" by simp
  with l n x(1) show False by (auto simp: for_conn_def)
qed

lemma recv_round_cfg:
  assumes "recv_round i ds socks now rc g = Inr (g', rc', s, ev)"
  shows "cfg g' = cfg g"
proof -
  from assms obtain cl where "g' = g\<lparr>conns := set_con_state i 0 cl\<rparr> \<or>
     (\<exists>message rc ev. handle_message now message rc (g\<lparr>conns := cl\<rparr>) = Inr (g', ev))"
    by (auto simp: recv_round_def outcome_iffs Let_def split: if_splits)
  then show ?thesis
  proof (elim disjE exE)
    fix message rc ev
    assume "handle_message now message rc (g\<lparr>conns := cl\<rparr>) = Inr (g', ev)"
    with handle_one_event [of "g\<lparr>conns := cl\<rparr>" now message rc]
    have "g' = g\<lparr>conns := cl, gtsidq := gtsidq g'\<rparr>" by (simp add: one_event_def)
    then have "cfg g' = cfg (g\<lparr>conns := cl, gtsidq := gtsidq g'\<rparr>)" by (rule arg_cong)
    then show ?thesis by simp
  qed simp
qed

lemma gstep_cfg: "gstep g g' \<Longrightarrow> cfg g' = cfg g"
proof (induction rule: gstep.induct)
  case (client_sends req f p now g rc sig g')
  then show ?case by (auto simp: ready_to_send_def push_request_def outcome_iffs)
next
  case (pipe_reads rd now g g')
  then show ?case by (auto simp: rcv_pipe_round_def push_request_def outcome_iffs split: option.splits)
next
  case (manager_marks nows g g')
  then show ?case by (auto simp: qmanager_round_def outcome_iffs)
next
  case (receiver_receives i ds socks now rc g g' rc' s ev)
  then show ?case by (rule recv_round_cfg)
next
  case (sender_sends i d ws g g' ws' took)
  then show ?case by (auto simp: send_round_def send_node_def outcome_iffs Let_def split: if_splits)
qed (auto simp: register_callback_request_def register_callback_responses_def)

lemma gstep_queues_ok:
  assumes "gstep g g'" "queues_ok g" "num_peers (cfg g) = 1"
  shows "queues_ok g'"
  using assms
proof (induction rule: gstep.induct)
  case (client_allocs g a r)
  then show ?case by (simp add: queues_ok_def)
next
  case (client_writes g strs)
  then show ?case by (simp add: queues_ok_def)
next
  case (client_registers f g rc g')
  then show ?case by (auto simp: queues_ok_def register_callback_request_def)
next
  case (client_registers_res f p g rc g')
  then show ?case by (auto simp: queues_ok_def register_callback_responses_def)
next
  case (client_sends req f p now g rc sig g')
  then show ?case by (auto simp: ready_to_send_def outcome_iffs intro: keeps_queues)
next
  case (pipe_reads rd now g g')
  then show ?case by (auto simp: rcv_pipe_round_def intro: keeps_queues split: option.splits)
next
  case (manager_marks nows g g')
  then obtain b where b: "broker_rep g b" "broker_ok (num_peers (cfg g)) b" "num_peers (cfg g) = int (length (conns g))"
    by (auto simp: queues_ok_def)
  with qmanager_round_expires [OF b(1) manager_marks(1)] show ?case using broker_ok_expire [OF b(2)] b(3) by (auto intro: queues_okI)
next
  case (monitor_redials g so ds cl)
  then show ?case
    by (intro queues_ok_conns) (simp_all add: monitor_sock_conn_def monitor_from_length)
next
  case (receiver_receives i ds socks now rc g g' rc' s ev)
  then show ?case by (auto intro: keeps_queues)
next
  case (sender_sends i d ws g g' ws' took)
  from send_round_ok [OF sender_sends(2) one_peer_no_tail [OF sender_sends(2,3)] sender_sends(1)]
  show ?case .
qed

subsection \<open>Properties\<close>

interpretation rounds: safe_steps gstep "\<lambda>g. queues_ok g \<and> num_peers (cfg g) = 1"
  by unfold_locales (auto simp: gstep_cfg intro: gstep_queues_ok)

lemma ready_to_send_no_fault:
  assumes "queues_ok g" "load_req (requests g) req = Inr r" "c_str (req_id r) = Inr s" "s \<noteq> []" "length s < KEY_SIZE"
  shows "ready_to_send req f p now g \<noteq> Inl (UB x)"
proof -
  from assms(1) obtain b where b: "broker_rep g b" "broker_ok (num_peers (cfg g)) b"
    "num_peers (cfg g) = int (length (conns g))" by (auto simp: queues_ok_def)
  then have le: "num_peers (cfg g) \<le> int (length (conns g))" by simp
  have rr: "0 \<le> b_rr b" "b_rr b < num_peers (cfg g)" using b(2) by (auto simp: broker_ok_def)
  have "b_push (conns g) (num_peers (cfg g)) s (msg_len r) req now f p b \<noteq> Inl (UB x)"
    using assign_conn_find [OF rr le]
    by (auto simp: b_push_def b_session_def bindE_Inl_iff split: option.splits)
  with ready_to_send_signals [OF b(1,2) le assms(2-5), where now = now and f = f and p = p] show ?thesis
    by (cases "b_push (conns g) (num_peers (cfg g)) s (msg_len r) req now f p b") auto
qed

definition glob_one :: glob where
  "glob_one = glob_demo\<lparr>cfg := \<lparr>num_worker_threads = 4, num_peers = 1, peers = [\<lparr>port = 80, ip = ''10.0.0.1''\<rparr>]\<rparr>,
     conns := [\<lparr>fd = 3, state = 1, peer_id = 0\<rparr>]\<rparr>"

lemma glob_one_ok: "queues_ok glob_one" "num_peers (cfg glob_one) = 1"
proof -
  have "broker_rep glob_one broker_empty" "broker_ok 1 broker_empty"
    using glob_demo_rep(1) by (simp_all add: glob_one_def broker_rep_def broker_ok_def broker_empty_def)
  moreover have "num_peers (cfg glob_one) = 1" "length (conns glob_one) = 1" by (simp_all add: glob_one_def)
  ultimately show "queues_ok glob_one" "num_peers (cfg glob_one) = 1" by (auto intro: queues_okI)
qed

text \<open>C2. With one peer the queues stay well formed for ever: after any sequence of rounds of any
  threads, whatever the network, the clock and the client do, the memory of the two queues
  represents a table of sessions with distinct ids and a list of messages, all for that
  peer, and sending a request with a usable id does not fault.\<close>

theorem one_peer_queues_stay_well_formed:
  assumes "gstep\<^sup>*\<^sup>* g g'" "queues_ok g" "num_peers (cfg g) = 1"
  shows "(\<exists>b. broker_rep g' b \<and> broker_ok 1 b) \<and>
    (\<forall>req r s f p now x. load_req (requests g') req = Inr r \<and> c_str (req_id r) = Inr s \<and> s \<noteq> [] \<and>
        length s < KEY_SIZE \<longrightarrow> ready_to_send req f p now g' \<noteq> Inl (UB x))"
proof -
  from rounds.run_keeps [OF assms(1)] assms(2,3) have "queues_ok g'" "num_peers (cfg g') = 1" by auto
  then show ?thesis using ready_to_send_no_fault by (auto simp: queues_ok_def)
qed

theorem one_peer_queues_stay_well_formed_witness:
  "\<exists>g'. ready_to_send 5 11 12 (Timeval 1 0) glob_one = Inr (1, True, g') \<and>
    (\<exists>b. broker_rep g' b \<and> broker_ok 1 b) \<and>
    (\<forall>req r s f p now x. load_req (requests g') req = Inr r \<and> c_str (req_id r) = Inr s \<and> s \<noteq> [] \<and>
        length s < KEY_SIZE \<longrightarrow> ready_to_send req f p now g' \<noteq> Inl (UB x))"
proof -
  have "case ready_to_send 5 11 12 (Timeval 1 0) glob_one of Inl e \<Rightarrow> False | Inr (rc, sig, g') \<Rightarrow> rc = 1 \<and> sig"
    by code_simp
  then obtain g' where g': "ready_to_send 5 11 12 (Timeval 1 0) glob_one = Inr (1, True, g')"
    by (auto split: sum.splits)
  then have "gstep\<^sup>*\<^sup>* glob_one g'" by (intro r_into_rtranclp) (rule client_sends)
  from one_peer_queues_stay_well_formed [OF this glob_one_ok] g' show ?thesis by blast
qed

text \<open>C3. With two peers that are up this fails after three rounds: two requests are queued, one
  for each peer, the sender of the second peer sends its message, and the client's next request
  makes \<open>push_to_msgq\<close> read the node that sender has freed.\<close>

theorem two_peers_reach_use_after_free:
  "\<exists>g1 g2 g3 ws. ready_to_send 5 11 12 (Timeval 1 0) glob_demo = Inr (1, True, g1) \<and>
     ready_to_send 6 11 12 (Timeval 2 0) g1 = Inr (1, False, g2) \<and>
     send_round 1 (dial_ok 9) \<lparr>outq = [], wplan = [Accept 9, Accept 9]\<rparr> g2 = Inr (g3, ws, True) \<and>
     outq ws = ''0002hi'' \<and> gstep\<^sup>*\<^sup>* glob_demo g3 \<and> requests g3 7 = Some (req_demo ''c'') \<and>
     ready_to_send 7 11 12 (Timeval 3 0) g3 = Inl (UB Invalid_Access)"
proof -
  have "case ready_to_send 5 11 12 (Timeval 1 0) glob_demo of Inl e \<Rightarrow> False | Inr (rc1, sig1, g1) \<Rightarrow>
     (case ready_to_send 6 11 12 (Timeval 2 0) g1 of Inl e \<Rightarrow> False | Inr (rc2, sig2, g2) \<Rightarrow>
     (case send_round 1 (dial_ok 9) \<lparr>outq = [], wplan = [Accept 9, Accept 9]\<rparr> g2 of Inl e \<Rightarrow> False
      | Inr (g3, ws, took) \<Rightarrow> rc1 = 1 \<and> sig1 \<and> rc2 = 1 \<and> \<not> sig2 \<and> took \<and> outq ws = ''0002hi'' \<and>
          requests g3 7 = Some (req_demo ''c'') \<and>
          (case ready_to_send 7 11 12 (Timeval 3 0) g3 of Inl e \<Rightarrow> e = UB Invalid_Access | Inr x \<Rightarrow> False)))"
    by code_simp
  then obtain g1 g2 g3 ws where
    s: "ready_to_send 5 11 12 (Timeval 1 0) glob_demo = Inr (1, True, g1)"
    "ready_to_send 6 11 12 (Timeval 2 0) g1 = Inr (1, False, g2)"
    "send_round 1 (dial_ok 9) \<lparr>outq = [], wplan = [Accept 9, Accept 9]\<rparr> g2 = Inr (g3, ws, True)"
    and e: "outq ws = ''0002hi''" "requests g3 7 = Some (req_demo ''c'')"
    "ready_to_send 7 11 12 (Timeval 3 0) g3 = Inl (UB Invalid_Access)"
    by (auto simp: res_case_iff)
  have "gstep\<^sup>*\<^sup>* glob_demo g3"
    using client_sends [OF s(1)] client_sends [OF s(2)] sender_sends [OF s(3)]
    by (meson rtranclp.rtrancl_into_rtrancl rtranclp.rtrancl_refl)
  with s e show ?thesis by blast
qed

end
