(* ===== verification/Config.thy ===== *)
theory Config
  imports Types
begin

section \<open>The configuration file: \<^verbatim>\<open>stub/src/utils.c\<close> and \<^verbatim>\<open>stub/src/stub.c\<close>\<close>

text \<open>
  The stub reads \<^verbatim>\<open>tcp_clb.cfg\<close> line by line, a line of more than 1023 bytes in pieces, checks each peer and hands the result to
  \<open>mod_init\<close>. The C truth values 1 and 0 are kept as integers; strings are without their
  NUL. \<open>isdigit\<close> is applied to plain \<open>char\<close>s; bytes above 127 count as non-digits. What
  \<open>malloc\<close> leaves in a fresh object is an argument.
\<close>

subsection \<open>\<^verbatim>\<open>utils.c\<close>\<close>

definition chkSubStr :: "string \<Rightarrow> string \<Rightarrow> int" where
  "chkSubStr base srch = (case strstr base srch of None \<Rightarrow> 0 | Some _ \<Rightarrow> 1)"

fun chkCnt :: "string \<Rightarrow> char \<Rightarrow> int" where
  "chkCnt [] ch = 0"
| "chkCnt (c # base) ch = (if c = ch then 1 else 0) + chkCnt base ch"

fun validate_number :: "string \<Rightarrow> int" where
  "validate_number [] = 1"
| "validate_number (c # str) = (if \<not> c_isdigit c then 0 else validate_number str)"

text \<open>
  The \<^verbatim>\<open>while (ptr)\<close> loop of \<open>chkIP\<close>: \<open>ptr\<close> is the token, \<open>endstr\<close> what \<open>strtok_r\<close>
  has left. The result is \<open>dots\<close>, or \<open>None\<close> for \<^verbatim>\<open>return 0\<close>.
\<close>

function ip_loop :: "string option \<Rightarrow> string \<Rightarrow> int \<Rightarrow> int option" where
  "ip_loop None endstr dots = Some dots"
| "ip_loop (Some ptr) endstr dots =
     (if validate_number ptr = 0 then None
      else if 0 \<le> atoi ptr \<and> atoi ptr \<le> 255 then
        (case strtok_r endstr ''.'' of (ptr', endstr') \<Rightarrow>
           ip_loop ptr' endstr' (if ptr' \<noteq> None then dots + 1 else dots))
      else None)"
  by pat_completeness auto
termination
  by (relation "measure (\<lambda>(p, e, d). if p = None then 0 else Suc (length e))")
    (auto dest!: strtok_r_shorter [OF sym])

definition chkIP :: "string option \<Rightarrow> int" where
  "chkIP ipstr = (case ipstr of None \<Rightarrow> 0
     | Some s \<Rightarrow> (case strtok_r s ''.'' of
           (None, _) \<Rightarrow> 0
         | (Some ptr, endstr) \<Rightarrow>
             (case ip_loop (Some ptr) endstr 0 of None \<Rightarrow> 0
              | Some dots \<Rightarrow> if dots \<noteq> 3 then 0 else 1)))"

definition chkPort :: "int \<Rightarrow> int" where
  "chkPort portno = (if 0 \<le> portno \<and> portno \<le> 65535 then 1 else 0)"

definition chkWT :: "int \<Rightarrow> int" where
  "chkWT val = (if 0 \<le> val \<and> val \<le> 32 then 1 else 0)"

subsection \<open>\<^verbatim>\<open>stub.c\<close>\<close>

definition invalid :: "'a res" where
  "invalid = Inl (Exit 1)"

text \<open>The result is the return value and the entry \<open>*p\<close>.\<close>

definition validateIpPort :: "string \<Rightarrow> end_peers \<Rightarrow> (int \<times> end_peers) res" where
  "validateIpPort endpt p =
     (case strtok_r endpt '':'' of
        (None, _) \<Rightarrow> Inl (UB Null_Deref)
      | (Some tok, endstr) \<Rightarrow>
          bindE (store_str 16 tok) (\<lambda>s. let p = p\<lparr>ip := s\<rparr> in
            if chkIP (Some tok) = 0 then Inr (0, p)
            else (case strtok_r endstr '':'' of
                (None, _) \<Rightarrow> Inl (UB Null_Deref)
              | (Some tok, _) \<Rightarrow> let p = p\<lparr>port := atoi tok\<rparr> in
                  if chkPort (atoi tok) = 0 then Inr (0, p) else Inr (1, p))))"

text \<open>
  The loop over the peers of a line; \<open>i\<close> is \<open>main\<close>'s variable, which starts at 0 once, not
  at each line, \<open>ps\<close> the array \<open>config->peers\<close>.
\<close>

function gw_loop :: "string option \<Rightarrow> string \<Rightarrow> nat \<Rightarrow> end_peers list \<Rightarrow> (nat \<times> end_peers list) res" where
  "gw_loop None end_str i ps = Inr (i, ps)"
| "gw_loop (Some token1) end_str i ps =
     (if chkCnt token1 (CHR '':'') \<noteq> 1 then invalid
      else if length ps \<le> i then Inl (UB Invalid_Access)
      else bindE (validateIpPort token1 (ps ! i)) (\<lambda>(ok, p).
        if ok = 0 then invalid
        else (case strtok_r end_str '','' of (token1', end_str') \<Rightarrow>
                gw_loop token1' end_str' (Suc i) (ps[i := p]))))"
  by pat_completeness auto
termination
  by (relation "measure (\<lambda>(t, e, i, ps). if t = None then 0 else Suc (length e))")
    (auto dest!: strtok_r_shorter [OF sym])

definition gw_line :: "end_peers \<Rightarrow> string \<Rightarrow> nat \<Rightarrow> configurator \<Rightarrow> (nat \<times> configurator) res" where
  "gw_line junk buf i config =
     (let cnt = chkCnt buf (CHR '','');
          ps = replicate (nat (cnt + 1)) junk in
      if chkCnt buf (CHR ''='') \<noteq> 1 then invalid
      else (case strtok_r buf ''='' of (_, end_str) \<Rightarrow>
           (case strtok_r end_str ''=,'' of (token1, end_str) \<Rightarrow>
             bindE (gw_loop token1 end_str i ps) (\<lambda>(i, ps).
               Inr (i, config\<lparr>num_peers := cnt + 1, peers := ps\<rparr>)))))"

definition wt_line :: "string \<Rightarrow> configurator \<Rightarrow> configurator res" where
  "wt_line buf config =
     (if chkCnt buf (CHR ''='') \<noteq> 1 then invalid
      else (case strtok_r buf ''='' of (_, rest) \<Rightarrow>
           (case strtok_r rest ''='' of
              (None, _) \<Rightarrow> Inl (UB Null_Deref)
            | (Some token1, _) \<Rightarrow>
                if chkWT (atoi token1) = 0 then invalid
                else Inr (config\<lparr>num_worker_threads := atoi token1\<rparr>))))"

text \<open>
  What \<^verbatim>\<open>fgets (buf, 1024, fptr)\<close> stores, one call after the other: the bytes up to a newline, which is
  kept, but at most 1023 of them. The code then reads \<open>buf\<close> as a string, up to its first NUL.
\<close>

abbreviation NL :: char where "NL \<equiv> CHR 0x0A"

fun fgets_take :: "nat \<Rightarrow> string \<Rightarrow> string \<times> string" where
  "fgets_take 0 s = ([], s)"
| "fgets_take (Suc n) [] = ([], [])"
| "fgets_take (Suc n) (c # s) = (if c = NL then ([c], s) else (case fgets_take n s of (l, r) \<Rightarrow> (c # l, r)))"

lemma fgets_take_shorter: "fgets_take n s = (l, r) \<Longrightarrow> length r \<le> length s"
  by (induction n s arbitrary: l r rule: fgets_take.induct) (auto split: if_splits prod.splits)

definition BUF :: nat where "BUF = 1024"

lemma fgets_take_less: "fgets_take (BUF - 1) (c # s) = (l, r) \<Longrightarrow> length r < Suc (length s)"
proof -
  assume "fgets_take (BUF - 1) (c # s) = (l, r)"
  moreover have "BUF - 1 = Suc (BUF - 2)" by (simp add: BUF_def)
  ultimately have "fgets_take (Suc (BUF - 2)) (c # s) = (l, r)" by simp
  then show ?thesis using fgets_take_shorter by (fastforce split: if_splits prod.splits)
qed

function fgets_lines :: "string \<Rightarrow> string list" where
  "fgets_lines [] = []"
| "fgets_lines (c # s) = (case fgets_take (BUF - 1) (c # s) of (l, r) \<Rightarrow> cut_nul l # fgets_lines r)"
  by pat_completeness auto
termination
  by (relation "measure length") (auto simp del: One_nat_def dest: fgets_take_less [OF sym])

text \<open>The loop of \<open>main\<close> over what is stored.\<close>

fun config_loop :: "end_peers \<Rightarrow> string list \<Rightarrow> nat \<Rightarrow> configurator \<Rightarrow> (nat \<times> configurator) res" where
  "config_loop junk [] i config = Inr (i, config)"
| "config_loop junk (buf # bufs) i config =
     (if chkSubStr buf ''GW'' \<noteq> 0
      then bindE (gw_line junk buf i config) (\<lambda>(i, config). config_loop junk bufs i config)
      else if chkSubStr buf ''WT'' \<noteq> 0
      then bindE (wt_line buf config) (\<lambda>config. config_loop junk bufs i config)
      else config_loop junk bufs i config)"

definition read_config :: "end_peers \<Rightarrow> configurator \<Rightarrow> string \<Rightarrow> configurator res" where
  "read_config junk config file = bindE (config_loop junk (fgets_lines file) 0 config) (\<lambda>(i, config). Inr config)"

subsection \<open>Lemmas\<close>

lemma chkSubStr_iff: "chkSubStr base srch \<noteq> 0 \<longleftrightarrow> sublist srch base"
  using strstr_sublist [of base srch] by (auto simp: chkSubStr_def split: option.splits)

lemma chkCnt_append [simp]: "chkCnt (s @ t) ch = chkCnt s ch + chkCnt t ch"
  by (induction s) auto

lemma chkCnt_clear: "ch \<notin> set s \<Longrightarrow> chkCnt s ch = 0"
  by (induction s) auto

lemma chkCnt_nonneg: "0 \<le> chkCnt s ch"
  by (induction s) auto

lemma chkCnt_pos: "ch \<in> set s \<Longrightarrow> 0 < chkCnt s ch"
proof (induction s)
  case (Cons c s)
  then show ?case using chkCnt_nonneg [of s ch] by auto
qed simp

lemma validate_number_eq: "validate_number s = (if \<forall>c \<in> set s. c_isdigit c then 1 else 0)"
  by (induction s) auto

text \<open>One number of an address, and the loop over the pieces.\<close>

definition octet :: "string \<Rightarrow> bool" where
  "octet u \<longleftrightarrow> (\<forall>c \<in> set u. c_isdigit c) \<and> 0 \<le> atoi u \<and> atoi u \<le> 255"

lemma ip_loop_pieces:
  "ip_loop (Some t) e k =
     (if \<forall>u \<in> set (t # pieces (CHR ''.'') e). octet u
      then Some (k + int (length (pieces (CHR ''.'') e))) else None)"
proof (induction "pieces (CHR ''.'') e" arbitrary: t e k)
  case Nil
  then have "pieces (CHR ''.'') e = []" by simp
  with strtok_pieces(1) [OF this] show ?case
    by (simp add: octet_def validate_number_eq)
next
  case (Cons u us)
  from strtok_pieces(2) [OF Cons(2) [symmetric]] obtain r where
    r: "strtok_r e ''.'' = (Some u, r)" "pieces (CHR ''.'') r = us" by auto
  from Cons(1) [of r u "k + 1"] r(2)
  have IH: "ip_loop (Some u) r (k + 1) =
      (if \<forall>w \<in> set (u # us). octet w then Some (k + 1 + int (length us)) else None)" by simp
  have "ip_loop (Some t) e k = (if octet t then ip_loop (Some u) r (k + 1) else None)"
    by (subst ip_loop.simps(2)) (use r(1) in \<open>simp add: octet_def validate_number_eq del: ip_loop.simps\<close>)
  then show ?case
    using IH unfolding Cons(2) [symmetric] by (simp del: ip_loop.simps)
qed

lemma chkIP_pieces:
  "chkIP (Some s) =
     (if length (pieces (CHR ''.'') s) = 4 \<and> (\<forall>u \<in> set (pieces (CHR ''.'') s). octet u) then 1 else 0)"
proof (cases "pieces (CHR ''.'') s")
  case Nil
  with strtok_pieces(1) [OF Nil] show ?thesis by (simp add: chkIP_def)
next
  case (Cons t ts)
  from strtok_pieces(2) [OF Cons] obtain r where
    "strtok_r s ''.'' = (Some t, r)" "pieces (CHR ''.'') r = ts" by auto
  with Cons ip_loop_pieces [of t r 0] show ?thesis by (auto simp: chkIP_def)
qed

lemma chkIP_bytes:
  assumes "chkIP (Some s) = 1" "c \<in> set s"
  shows "c = CHR ''.'' \<or> c_isdigit c"
proof -
  have "\<forall>u \<in> set (pieces (CHR ''.'') s). octet u"
    using assms(1) chkIP_pieces [of s] by (simp split: if_splits)
  then show ?thesis using pieces_bytes [OF assms(2), of "CHR ''.''"] by (auto simp: octet_def)
qed

text \<open>An entry of the file, and what the code makes of it.\<close>

definition peer_ok :: "end_peers \<Rightarrow> bool" where
  "peer_ok p \<longleftrightarrow> chkIP (Some (ip p)) = 1 \<and> length (ip p) < 16 \<and> 0 \<le> port p \<and> port p \<le> 65535"

definition peer_text :: "end_peers \<Rightarrow> string" where
  "peer_text p = ip p @ CHR '':'' # fmt_d (port p)"

lemma peer_ok_bytes:
  assumes "peer_ok p"
  shows "ip p \<noteq> []" and "\<forall>c \<in> set (ip p). c = CHR ''.'' \<or> c_isdigit c"
    and "\<forall>c \<in> set (fmt_d (port p)). c_isdigit c" and "fmt_d (port p) \<noteq> []"
proof -
  have c: "chkIP (Some (ip p)) = 1" using assms by (simp add: peer_ok_def)
  then show "ip p \<noteq> []" by (auto simp: chkIP_def strtok_r_def)
  show "\<forall>c \<in> set (ip p). c = CHR ''.'' \<or> c_isdigit c" using chkIP_bytes [OF c] by blast
  show "\<forall>c \<in> set (fmt_d (port p)). c_isdigit c" "fmt_d (port p) \<noteq> []"
    using assms dec_nat_digits by (auto simp: peer_ok_def fmt_d_def)
qed

lemma validateIpPort_ok:
  assumes "peer_ok p" "suf = [] \<or> suf = [CHR 0x0A]"
  shows "validateIpPort (peer_text p @ suf) q = Inr (1, q\<lparr>ip := ip p, port := port p\<rparr>)"
proof -
  note b = peer_ok_bytes [OF assms(1)]
  have colon: "\<not> c_isdigit (CHR '':'')" by (simp add: c_isdigit_def)
  have "set (ip p) \<inter> set '':'' = {}" using b(2) colon by fastforce
  from strtok_r_simple(1) [OF b(1) this, of "CHR '':''" "fmt_d (port p) @ suf"]
  have t1: "strtok_r (peer_text p @ suf) '':'' = (Some (ip p), fmt_d (port p) @ suf)"
    by (simp add: peer_text_def)
  have "set (fmt_d (port p) @ suf) \<inter> set '':'' = {}" using b(3) colon assms(2) by fastforce
  with b(4) have t2: "strtok_r (fmt_d (port p) @ suf) '':'' = (Some (fmt_d (port p) @ suf), [])"
    by (intro strtok_r_simple(2)) auto
  have "atoi (fmt_d (port p) @ suf) = port p"
    using assms by (intro atoi_suffix) (auto simp: peer_ok_def c_isdigit_def)
  with t1 t2 assms(1) show ?thesis
    by (simp add: validateIpPort_def peer_ok_def store_str_def chkPort_def)
qed

text \<open>A \<open>GW\<close> line and a \<open>WT\<close> line as a careful user writes them.\<close>

fun peers_text :: "end_peers list \<Rightarrow> string" where
  "peers_text [] = []"
| "peers_text [p] = peer_text p"
| "peers_text (p # q # ps) = peer_text p @ CHR '','' # peers_text (q # ps)"

definition gw_text :: "end_peers list \<Rightarrow> string" where
  "gw_text ps = ''GW='' @ peers_text ps @ [NL]"

definition wt_text :: "int \<Rightarrow> string" where
  "wt_text n = ''WT='' @ fmt_d n @ [NL]"

lemma peer_text_bytes:
  assumes "peer_ok p" "c \<in> set (peer_text p)"
  shows "c = CHR ''.'' \<or> c = CHR '':'' \<or> c_isdigit c"
  using assms peer_ok_bytes [OF assms(1)] by (auto simp: peer_text_def)

lemma peer_text_clear:
  assumes "peer_ok p" "c \<notin> {CHR ''.'', CHR '':''}" "\<not> c_isdigit c"
  shows "c \<notin> set (peer_text p)"
  using peer_text_bytes [OF assms(1), of c] assms(2,3) by auto

lemma separators: "\<not> c_isdigit (CHR '','')" "\<not> c_isdigit (CHR ''='')" "\<not> c_isdigit (CHR ''G'')" "\<not> c_isdigit NL"
  "\<not> c_isdigit (CHR '':'')"
  by (simp_all add: c_isdigit_def)

lemma peers_text_token:
  assumes "\<forall>x \<in> set (p # ps). peer_ok x" "D = '','' \<or> D = ''=,''"
  shows "strtok_r (peers_text (p # ps) @ [NL]) D =
    (if ps = [] then (Some (peer_text p @ [NL]), []) else (Some (peer_text p), peers_text ps @ [NL]))"
proof -
  have p: "peer_ok p" using assms(1) by simp
  have c: "set (peer_text p) \<inter> set D = {}"
    using peer_text_clear [OF p, of "CHR '',''"] peer_text_clear [OF p, of "CHR ''=''"] separators assms(2)
    by auto
  have ne: "peer_text p \<noteq> []" by (simp add: peer_text_def)
  show ?thesis
  proof (cases ps)
    case Nil
    have "strtok_r (peer_text p @ [NL]) D = (Some (peer_text p @ [NL]), [])"
      using c assms(2) by (intro strtok_r_simple(2)) auto
    with Nil show ?thesis by simp
  next
    case (Cons q qs)
    have "strtok_r (peer_text p @ CHR '','' # (peers_text ps @ [NL])) D = (Some (peer_text p), peers_text ps @ [NL])"
      using assms(2) by (intro strtok_r_simple(1) [OF ne c]) auto
    with Cons show ?thesis by simp
  qed
qed

lemma peer_text_colon: "peer_ok p \<Longrightarrow> suf = [] \<or> suf = [NL] \<Longrightarrow> chkCnt (peer_text p @ suf) (CHR '':'') = 1"
proof -
  assume p: "peer_ok p" and suf: "suf = [] \<or> suf = [NL]"
  have "CHR '':'' \<notin> set (ip p)" "CHR '':'' \<notin> set (fmt_d (port p))"
    using peer_ok_bytes(2,3) [OF p] separators(5) by fastforce+
  then show ?thesis using suf by (auto simp: peer_text_def chkCnt_clear)
qed

text \<open>
  The loop stores the peers from index \<open>i\<close> on, as far as the array goes; one more is a write
  outside it.
\<close>

lemma gw_loop_peers:
  assumes "\<forall>x \<in> set ps. peer_ok x" "ps \<noteq> []" "D = '','' \<or> D = ''=,''"
  shows "(case strtok_r (peers_text ps @ [NL]) D of (t, r) \<Rightarrow> gw_loop t r i arr) =
    (if i + length ps \<le> length arr then Inr (i + length ps, take i arr @ ps @ drop (i + length ps) arr)
     else Inl (UB Invalid_Access))"
  using assms
proof (induction ps arbitrary: i arr D)
  case Nil
  then show ?case by simp
next
  case (Cons p ps)
  have p: "peer_ok p" using Cons.prems(1) by simp
  define suf where "suf = (if ps = [] then [NL] else [])"
  have suf: "suf = [] \<or> suf = [NL]" by (simp add: suf_def)
  define rest where "rest = (if ps = [] then [] else peers_text ps @ [NL])"
  have tok: "strtok_r (peers_text (p # ps) @ [NL]) D = (Some (peer_text p @ suf), rest)"
    using peers_text_token [OF Cons.prems(1,3)] by (simp add: suf_def rest_def)
  have val: "validateIpPort (peer_text p @ suf) (arr ! i) = Inr (1, p)"
    using validateIpPort_ok [OF p suf] by simp
  show ?case
  proof (cases "i < length arr")
    case False
    then show ?thesis using peer_text_colon [OF p suf] by (simp add: tok)
  next
    case True
    have "gw_loop (Some (peer_text p @ suf)) rest i arr =
        (case strtok_r rest '','' of (t, r) \<Rightarrow> gw_loop t r (Suc i) (arr[i := p]))"
      using True val peer_text_colon [OF p suf] by (subst gw_loop.simps) simp
    also have "\<dots> = (if i + length (p # ps) \<le> length arr
        then Inr (i + length (p # ps), take i arr @ (p # ps) @ drop (i + length (p # ps)) arr)
        else Inl (UB Invalid_Access))"
    proof (cases "ps = []")
      case Nil: True
      then have "strtok_r rest '','' = (None, [])" by (simp add: rest_def strtok_r_def)
      with Nil True show ?thesis by (simp add: upd_conv_take_nth_drop)
    next
      case False
      have "take (Suc i) (arr[i := p]) = take i arr @ [p]"
        using True by (simp add: take_Suc_conv_app_nth)
      with False Cons.IH [of "'',''" "Suc i" "arr[i := p]"] Cons.prems show ?thesis by (simp add: rest_def)
    qed
    finally show ?thesis by (simp add: tok)
  qed
qed

lemma peers_text_bytes: "\<forall>x \<in> set ps. peer_ok x \<Longrightarrow> c \<in> set (peers_text ps) \<Longrightarrow>
   c = CHR '','' \<or> c = CHR ''.'' \<or> c = CHR '':'' \<or> c_isdigit c"
  by (induction ps rule: peers_text.induct) (use peer_text_bytes in auto)

lemma peers_text_commas:
  "\<forall>x \<in> set ps. peer_ok x \<Longrightarrow> ps \<noteq> [] \<Longrightarrow> chkCnt (peers_text ps) (CHR '','') = int (length ps) - 1"
proof (induction ps rule: peers_text.induct)
  case (2 p)
  then show ?case using peer_text_clear [of p "CHR '',''"] separators by (simp add: chkCnt_clear)
next
  case (3 p q ps)
  then show ?case using peer_text_clear [of p "CHR '',''"] separators by (simp add: chkCnt_clear)
qed simp

lemma gw_line_text:
  assumes "\<forall>x \<in> set ps. peer_ok x" "ps \<noteq> []"
  shows "gw_line junk (gw_text ps) i config =
    (if i = 0 then Inr (length ps, config\<lparr>num_peers := int (length ps), peers := ps\<rparr>)
     else Inl (UB Invalid_Access))"
proof -
  have "CHR ''='' \<notin> set (peers_text ps)" using peers_text_bytes [OF assms(1), of "CHR ''=''"] separators by auto
  then have eq: "chkCnt (gw_text ps) (CHR ''='') = 1" by (simp add: gw_text_def chkCnt_clear)
  have commas: "chkCnt (gw_text ps) (CHR '','') = int (length ps) - 1"
    using peers_text_commas [OF assms] by (simp add: gw_text_def)
  have "strtok_r (''GW'' @ CHR ''='' # (peers_text ps @ [NL])) ''='' = (Some ''GW'', peers_text ps @ [NL])"
    by (rule strtok_r_simple(1)) auto
  then have t: "strtok_r (gw_text ps) ''='' = (Some ''GW'', peers_text ps @ [NL])" by (simp add: gw_text_def)
  from gw_loop_peers [OF assms, of "''=,''" i "replicate (length ps) junk"] assms(2)
  show ?thesis
    by (simp add: gw_line_def eq commas t Let_def split_def)
qed

lemma wt_line_text:
  assumes "0 \<le> n" "n \<le> 32"
  shows "wt_line (wt_text n) config = Inr (config\<lparr>num_worker_threads := n\<rparr>)"
proof -
  have d: "\<forall>c \<in> set (fmt_d n). c_isdigit c" using assms dec_nat_digits by (auto simp: fmt_d_def)
  then have "CHR ''='' \<notin> set (fmt_d n)" using separators by auto
  then have eq: "chkCnt (wt_text n) (CHR ''='') = 1" by (simp add: wt_text_def chkCnt_clear)
  have "strtok_r (''WT'' @ CHR ''='' # (fmt_d n @ [NL])) ''='' = (Some ''WT'', fmt_d n @ [NL])"
    by (rule strtok_r_simple(1)) auto
  then have t1: "strtok_r (wt_text n) ''='' = (Some ''WT'', fmt_d n @ [NL])" by (simp add: wt_text_def)
  have t2: "strtok_r (fmt_d n @ [NL]) ''='' = (Some (fmt_d n @ [NL]), [])"
    using \<open>CHR ''='' \<notin> set (fmt_d n)\<close> by (intro strtok_r_simple(2)) auto
  have "atoi (fmt_d n @ [NL]) = n" using assms by (intro atoi_suffix) (auto simp: c_isdigit_def)
  with eq t1 t2 assms show ?thesis by (simp add: wt_line_def chkWT_def)
qed

lemma line_kinds:
  "chkSubStr (gw_text ps) ''GW'' \<noteq> 0"
  "0 \<le> n \<Longrightarrow> chkSubStr (wt_text n) ''GW'' = 0" "chkSubStr (wt_text n) ''WT'' \<noteq> 0"
proof -
  show "chkSubStr (gw_text ps) ''GW'' \<noteq> 0"
    unfolding chkSubStr_iff gw_text_def by (metis append_Cons append_Nil prefixI prefix_imp_sublist)
  show "chkSubStr (wt_text n) ''WT'' \<noteq> 0"
    unfolding chkSubStr_iff wt_text_def by (metis append_Cons append_Nil prefixI prefix_imp_sublist)
  assume "0 \<le> n"
  then have "\<forall>c \<in> set (fmt_d n). c_isdigit c" using dec_nat_digits by (auto simp: fmt_d_def)
  then have "CHR ''G'' \<notin> set (wt_text n)" using separators by (auto simp: wt_text_def)
  then have "\<not> sublist ''GW'' (wt_text n)" using set_mono_sublist by fastforce
  then show "chkSubStr (wt_text n) ''GW'' = 0" using chkSubStr_iff by blast
qed

lemma validateIpPort_sound:
  assumes "validateIpPort s q = Inr (ok, p)" "ok \<noteq> 0"
  shows "peer_ok p"
proof -
  have bit: "chkIP x = 0 \<or> chkIP x = 1" for x
    by (cases x) (simp_all add: chkIP_pieces chkIP_def [of None])
  obtain o1 r1 where 1: "strtok_r s '':'' = (o1, r1)" by force
  with assms obtain tok where tok: "o1 = Some tok" by (cases o1) (auto simp: validateIpPort_def)
  obtain o2 r2 where 2: "strtok_r r1 '':'' = (o2, r2)" by force
  show ?thesis
  proof (cases "chkIP (Some tok) = 0")
    case True
    with assms 1 tok show ?thesis by (auto simp: validateIpPort_def outcome_iffs Let_def)
  next
    case False
    with bit [of "Some tok"] have ip: "chkIP (Some tok) = 1" by simp
    with assms 1 2 tok obtain t where "o2 = Some t"
      by (cases o2) (auto simp: validateIpPort_def outcome_iffs Let_def)
    with assms 1 2 tok ip show ?thesis
      by (auto simp: validateIpPort_def outcome_iffs store_str_def peer_ok_def chkPort_def Let_def
          split: if_splits)
  qed
qed

lemma gw_loop_sound:
  "gw_loop t e i ps = Inr (i', ps') \<Longrightarrow>
   i \<le> i' \<and> length ps' = length ps \<and> (\<forall>k < i. ps' ! k = ps ! k) \<and> (\<forall>k. i \<le> k \<and> k < i' \<longrightarrow> peer_ok (ps' ! k))"
proof (induction t e i ps rule: gw_loop.induct)
  case (2 t e i ps)
  from 2(2) obtain ok p where v: "validateIpPort t (ps ! i) = Inr (ok, p)" "ok \<noteq> 0"
    "chkCnt t (CHR '':'') = 1" "i < length ps"
    and run: "gw_loop (fst (strtok_r e '','')) (snd (strtok_r e '','')) (Suc i) (ps[i := p]) = Inr (i', ps')"
    by (auto simp: outcome_iffs invalid_def split_def split: if_splits)
  have "\<not> chkCnt t (CHR '':'') \<noteq> 1" "\<not> length ps \<le> i" using v by auto
  from 2(1) [OF this v(1) refl v(2) prod.collapse run]
  have IH: "Suc i \<le> i' \<and> length ps' = length (ps[i := p]) \<and> (\<forall>k < Suc i. ps' ! k = ps[i := p] ! k) \<and>
      (\<forall>k. Suc i \<le> k \<and> k < i' \<longrightarrow> peer_ok (ps' ! k))" by simp
  then have "peer_ok (ps' ! i)" using validateIpPort_sound [OF v(1,2)] v(4) by auto
  with IH have "peer_ok (ps' ! k)" if "i \<le> k" "k < i'" for k
    using that by (cases "k = i") auto
  with IH show ?case by (auto simp: nth_list_update)
qed auto

lemma split_on_app: "split_on d (s @ d # r) = split_on d s @ split_on d r"
  by (induction s) (auto split: list.splits)

lemma pieces_app: "pieces d (s @ d # r) = pieces d s @ pieces d r"
  by (simp add: pieces_def split_on_app)

subsection \<open>Lines that fit the buffer, and longer ones\<close>

lemma fgets_take_line: "NL \<notin> set l \<Longrightarrow> length l < n \<Longrightarrow> fgets_take n (l @ NL # r) = (l @ [NL], r)"
proof (induction l arbitrary: n)
  case Nil
  then show ?case by (cases n) auto
next
  case (Cons c l)
  then show ?case by (cases n) auto
qed

lemma fgets_take_long: "NL \<notin> set (take n s) \<Longrightarrow> fgets_take n s = (take n s, drop n s)"
  by (induction n s rule: fgets_take.induct) auto

lemma fgets_lines_line:
  assumes "NL \<notin> set l" "NUL \<notin> set l" "length l < BUF - 1"
  shows "fgets_lines (l @ NL # r) = (l @ [NL]) # fgets_lines r"
proof -
  have "cut_nul (l @ [NL]) = l @ [NL]" using assms(2) by (intro cut_nul_id) auto
  then show ?thesis
    using fgets_take_line [OF assms(1,3), of r] by (cases l) simp_all
qed

lemma fgets_lines_long:
  assumes "NL \<notin> set (take (BUF - 1) s)" "s \<noteq> []"
  shows "fgets_lines s = cut_nul (take (BUF - 1) s) # fgets_lines (drop (BUF - 1) s)"
  using fgets_take_long [OF assms(1)] assms(2) by (cases s) simp_all

lemma fgets_lines_bytes: "c \<in> set buf \<Longrightarrow> buf \<in> set (fgets_lines s) \<Longrightarrow> c \<in> set s"
proof (induction s rule: fgets_lines.induct)
  case (2 x s)
  have "set l \<union> set r \<subseteq> set t" if "fgets_take n t = (l, r)" for n t l r
    using that by (induction n t arbitrary: l r rule: fgets_take.induct) (auto split: if_splits prod.splits)
  moreover obtain l r where lr: "fgets_take (BUF - 1) (x # s) = (l, r)" by force
  ultimately have "set l \<union> set r \<subseteq> set (x # s)" by blast
  moreover have "set (cut_nul l) \<subseteq> set l" by (auto simp: cut_nul_def dest: set_takeWhileD)
  ultimately show ?case using 2 lr by auto
qed simp

text \<open>The lines of a configuration file that are not \<open>GW\<close> lines leave the number of peers alone.\<close>

lemma config_loop_num_peers:
  "config_loop junk bufs i config = Inr (i', config') \<Longrightarrow> \<forall>buf \<in> set bufs. CHR ''G'' \<notin> set buf \<Longrightarrow>
   num_peers config' = num_peers config"
proof (induction bufs arbitrary: config)
  case (Cons buf bufs)
  have "\<not> sublist ''GW'' buf" using Cons.prems(2) set_mono_sublist by fastforce
  then have "chkSubStr buf ''GW'' = 0" using chkSubStr_iff by blast
  with Cons show ?case
    by (auto simp: wt_line_def invalid_def outcome_iffs split: if_splits prod.splits option.splits)
qed simp

lemma gw_text_line:
  assumes "\<forall>p \<in> set ps. peer_ok p"
  shows "gw_text ps = (''GW='' @ peers_text ps) @ [NL]" "NL \<notin> set (''GW='' @ peers_text ps)" "NUL \<notin> set (''GW='' @ peers_text ps)"
    "CHR ''G'' \<notin> set (peers_text ps)"
  using peers_text_bytes [OF assms, of NL] peers_text_bytes [OF assms, of NUL] peers_text_bytes [OF assms, of "CHR ''G''"]
  by (auto simp: gw_text_def c_isdigit_def)

lemma wt_text_line:
  assumes "0 \<le> n" "n \<le> 32"
  shows "fgets_lines (wt_text n) = [wt_text n]" "CHR ''G'' \<notin> set (wt_text n)"
proof -
  have d: "\<forall>c \<in> set (fmt_d n). c_isdigit c" using assms dec_nat_digits by (auto simp: fmt_d_def)
  then have c: "c \<notin> set (fmt_d n)" if "\<not> c_isdigit c" for c using that by auto
  have "length (fmt_d n) \<le> 2" using assms length_dec_nat [of 2 "nat n"] by (simp add: fmt_d_def)
  then have "length (''WT='' @ fmt_d n) < BUF - 1" by (simp add: BUF_def)
  from fgets_lines_line [OF _ _ this, of "[]"] c [of NL] c [of NUL] show "fgets_lines (wt_text n) = [wt_text n]"
    by (simp add: wt_text_def c_isdigit_def)
  show "CHR ''G'' \<notin> set (wt_text n)" using c [of "CHR ''G''"] by (auto simp: wt_text_def c_isdigit_def)
qed

lemma file_lines:
  assumes "\<forall>p \<in> set ps. peer_ok p" "length (gw_text ps) < BUF" "0 \<le> n" "n \<le> 32"
  shows "fgets_lines (gw_text ps @ wt_text n) = [gw_text ps, wt_text n]"
proof -
  have "length (''GW='' @ peers_text ps) < BUF - 1" using assms(2) by (simp add: gw_text_def BUF_def)
  from fgets_lines_line [OF gw_text_line(2,3) [OF assms(1)] this, of "wt_text n"] show ?thesis
    using wt_text_line [OF assms(3,4)] by (simp add: gw_text_def)
qed

text \<open>A peer takes at most 21 bytes, so a line of up to 46 peers always fits.\<close>

lemma gw_text_length:
  assumes "\<forall>p \<in> set ps. peer_ok p"
  shows "length (gw_text ps) \<le> 4 + 22 * length ps"
proof -
  have p: "length (peer_text p) \<le> 21" if "peer_ok p" for p
    using that length_dec_nat [of 5 "nat (port p)"] by (auto simp: peer_ok_def peer_text_def fmt_d_def)
  have "length (peers_text ps) \<le> 22 * length ps" using assms
  proof (induction ps rule: peers_text.induct)
    case (2 q)
    then show ?case using p [of q] by simp
  next
    case (3 q r qs)
    then show ?case using p [of q] by simp
  qed simp
  then show ?thesis by (simp add: gw_text_def)
qed

lemma gw_text_fits: "\<forall>p \<in> set ps. peer_ok p \<Longrightarrow> length ps \<le> 46 \<Longrightarrow> length (gw_text ps) < BUF"
  using gw_text_length [of ps] by (simp add: BUF_def)

lemma peers_text_replicate:
  "peers_text (replicate (Suc (Suc n)) p) = concat (replicate n (peer_text p @ '','')) @ peer_text p @ '','' @ peer_text p"
  by (induction n) simp_all

lemma read_printed:
  assumes "\<forall>p \<in> set ps. peer_ok p" "ps \<noteq> []" "0 \<le> n" "n \<le> 32" "length (gw_text ps) < BUF"
  shows "read_config junk config (gw_text ps @ wt_text n) =
    Inr \<lparr>num_worker_threads = n, num_peers = int (length ps), peers = ps\<rparr>"
  using assms line_kinds(1) [of ps] line_kinds(2) [OF assms(3)] line_kinds(3) [of n]
  by (simp add: read_config_def file_lines gw_line_text wt_line_text)

subsection \<open>Properties\<close>

definition peer_demo :: end_peers where
  "peer_demo = \<lparr>port = 8050, ip = ''127.0.0.1''\<rparr>"

lemma peer_demo_ok: "peer_ok peer_demo"
proof -
  have "chkIP (Some ''127.0.0.1'') = 1" by code_simp
  then show ?thesis by (simp add: peer_ok_def peer_demo_def)
qed

definition config_garbage :: configurator where
  "config_garbage = \<lparr>num_worker_threads = -7, num_peers = 99, peers = []\<rparr>"

text \<open>C11. Round trip of the configuration: a file with one \<open>GW\<close> line, of less than 1024 bytes, and one \<open>WT\<close> line that
  print valid peers and a valid number of threads is read back as exactly these, whatever
  \<open>malloc\<close> had left in the objects. The bound is that of the buffer of \<open>fgets\<close>; see
  \<open>long_line_loses_peers\<close> for longer lines.\<close>

theorem config_roundtrip:
  assumes "\<forall>p \<in> set ps. peer_ok p" "ps \<noteq> []" "0 \<le> n" "n \<le> 32" "length (gw_text ps) < BUF"
  shows "read_config junk config (gw_text ps @ wt_text n) =
    Inr \<lparr>num_worker_threads = n, num_peers = int (length ps), peers = ps\<rparr>"
  using assms by (rule read_printed)

theorem config_roundtrip_witness:
  "read_config peer_demo config_garbage (gw_text [peer_demo\<lparr>port := 80\<rparr>, peer_demo] @ wt_text 4) =
    Inr \<lparr>num_worker_threads = 4, num_peers = int (length [peer_demo\<lparr>port := 80\<rparr>, peer_demo]),
      peers = [peer_demo\<lparr>port := 80\<rparr>, peer_demo]\<rparr>"
proof (rule config_roundtrip)
  show ok: "\<forall>p \<in> set [peer_demo\<lparr>port := 80\<rparr>, peer_demo]. peer_ok p" using peer_demo_ok by (simp add: peer_ok_def)
  show "length (gw_text [peer_demo\<lparr>port := 80\<rparr>, peer_demo]) < BUF" by (rule gw_text_fits [OF ok]) simp
qed simp_all

text \<open>A longer line is read in pieces, and only the first has its \<open>GW\<close>: when a comma is left for the
  others, peers are lost or the line is refused, however the rest of the file goes on.\<close>

theorem long_line_loses_peers:
  assumes "\<forall>p \<in> set ps. peer_ok p" "0 \<le> n" "n \<le> 32" "CHR '','' \<in> set (drop (BUF - 1) (gw_text ps))"
  shows "read_config junk config (gw_text ps @ wt_text n) \<noteq>
    Inr \<lparr>num_worker_threads = k, num_peers = int (length ps), peers = qs\<rparr>"
proof
  assume r: "read_config junk config (gw_text ps @ wt_text n) =
    Inr \<lparr>num_worker_threads = k, num_peers = int (length ps), peers = qs\<rparr>"
  let ?l = "''GW='' @ peers_text ps" and ?h = "take (BUF - 1) (gw_text ps)" and ?t = "drop (BUF - 1) (gw_text ps)"
  note g = gw_text_line [OF assms(1)]
  have len: "BUF - 1 \<le> length ?l"
  proof (rule ccontr)
    assume "\<not> BUF - 1 \<le> length ?l"
    then have "set ?t \<subseteq> {NL}" using g(1) by (cases "BUF - 1 = length (gw_text ps)") auto
    with assms(4) show False by auto
  qed
  have h: "?h = take (BUF - 1) ?l" unfolding g(1) using len by (simp only: take_append) simp
  then have nl: "NL \<notin> set ?h" "NUL \<notin> set ?h" using g(2,3) by (auto dest: in_set_takeD)
  have tk: "take (BUF - 1) (gw_text ps @ wt_text n) = ?h" "drop (BUF - 1) (gw_text ps @ wt_text n) = ?t @ wt_text n"
    unfolding g(1) using len by (simp_all only: append_assoc take_append drop_append) simp_all
  have "fgets_lines (gw_text ps @ wt_text n) = ?h # fgets_lines (?t @ wt_text n)"
    using fgets_lines_long [of "gw_text ps @ wt_text n"] nl cut_nul_id [of ?h] tk g(1) by simp
  moreover have "\<exists>u. ?h = CHR ''G'' # CHR ''W'' # u" using h by (simp add: BUF_def)
  then have "sublist ''GW'' ?h" by (metis append_Cons append_Nil prefixI prefix_imp_sublist)
  then have "chkSubStr ?h ''GW'' \<noteq> 0" using chkSubStr_iff by blast
  ultimately obtain i c1 i' c2 where
    c: "gw_line junk ?h 0 config = Inr (i, c1)" "config_loop junk (fgets_lines (?t @ wt_text n)) i c1 = Inr (i', c2)"
    "c2 = \<lparr>num_worker_threads = k, num_peers = int (length ps), peers = qs\<rparr>"
    using r by (auto simp: read_config_def outcome_iffs)
  have "CHR ''G'' \<notin> set ?t"
  proof -
    have "?t = drop (BUF - 4) (peers_text ps) @ [NL]" using len g(1) by (simp add: BUF_def)
    then show ?thesis using g(4) by (auto dest: in_set_dropD)
  qed
  then have "\<forall>buf \<in> set (fgets_lines (?t @ wt_text n)). CHR ''G'' \<notin> set buf"
    using fgets_lines_bytes wt_text_line(2) [OF assms(2,3)] by fastforce
  from config_loop_num_peers [OF c(2) this] c(3) have "num_peers c1 = int (length ps)" by simp
  moreover have "num_peers c1 = chkCnt ?h (CHR '','') + 1"
    using c(1) by (auto simp: gw_line_def invalid_def Let_def outcome_iffs split_def split: if_splits)
  moreover have "chkCnt (gw_text ps) (CHR '','') = chkCnt ?h (CHR '','') + chkCnt ?t (CHR '','')"
    by (metis append_take_drop_id chkCnt_append)
  moreover have "0 < chkCnt ?t (CHR '','')"
    using assms(4) chkCnt_pos by blast
  moreover have "ps \<noteq> []" using len by (auto simp: BUF_def)
  with peers_text_commas [OF assms(1)] have "chkCnt (gw_text ps) (CHR '','') = int (length ps) - 1" by (simp add: gw_text_def)
  ultimately show False by simp
qed

theorem long_line_loses_peers_witness:
  "read_config peer_demo config_garbage (gw_text (replicate 100 peer_demo) @ wt_text 4) \<noteq>
    Inr \<lparr>num_worker_threads = 4, num_peers = int (length (replicate 100 peer_demo)), peers = replicate 100 peer_demo\<rparr>"
proof (rule long_line_loses_peers)
  let ?u = "peer_text peer_demo @ '',''" and ?A = "''GW='' @ concat (replicate 98 (peer_text peer_demo @ '','')) @ peer_text peer_demo"
  have "(100 :: nat) = Suc (Suc 98)" by simp
  then have "peers_text (replicate 100 peer_demo) = concat (replicate 98 ?u) @ peer_text peer_demo @ '','' @ peer_text peer_demo"
    by (simp only: peers_text_replicate)
  then have g: "gw_text (replicate 100 peer_demo) = ?A @ '','' @ peer_text peer_demo @ [NL]" by (simp add: gw_text_def)
  have "11 \<le> length ?u" using peer_demo_ok peer_ok_bytes(4) by (simp add: peer_text_def peer_demo_def)
  moreover have "length (concat (replicate 98 ?u)) = 98 * length ?u" by (simp add: length_concat sum_list_replicate)
  ultimately have "BUF - 1 \<le> length ?A" by (simp add: BUF_def)
  then have "drop (BUF - 1) (gw_text (replicate 100 peer_demo)) = drop (BUF - 1) ?A @ '','' @ peer_text peer_demo @ [NL]"
    unfolding g by (simp only: drop_append) simp
  then show "CHR '','' \<in> set (drop (BUF - 1) (gw_text (replicate 100 peer_demo)))" by simp
qed (use peer_demo_ok in simp_all)

text \<open>C39. A \<open>GW\<close> line that is accepted has stored only peers whose address passes \<open>chkIP\<close> and
  fits its array and whose port is in range, at the indices it counts.\<close>

theorem accepted_peers_are_valid:
  assumes "gw_line junk buf i config = Inr (i', config')" "i \<le> k" "k < i'"
  shows "chkIP (Some (ip (peers config' ! k))) = 1 \<and> length (ip (peers config' ! k)) < 16 \<and>
    0 \<le> port (peers config' ! k) \<and> port (peers config' ! k) \<le> 65535"
proof -
  from assms(1) obtain t e ps ps' where "gw_loop t e i ps = Inr (i', ps')" "peers config' = ps'"
    by (auto simp: gw_line_def invalid_def Let_def outcome_iffs split_def split: if_splits)
  with gw_loop_sound assms(2,3) show ?thesis by (auto simp: peer_ok_def)
qed

theorem accepted_peers_are_valid_witness:
  "gw_line peer_demo (gw_text [peer_demo]) 0 config_garbage = Inr (1, config_garbage\<lparr>num_peers := 1, peers := [peer_demo]\<rparr>) \<and>
   chkIP (Some (ip ([peer_demo] ! 0))) = 1 \<and> length (ip ([peer_demo] ! 0)) < 16 \<and>
   0 \<le> port ([peer_demo] ! 0) \<and> port ([peer_demo] ! 0) \<le> 65535"
proof -
  have g: "gw_line peer_demo (gw_text [peer_demo]) 0 config_garbage =
      Inr (1, config_garbage\<lparr>num_peers := 1, peers := [peer_demo]\<rparr>)"
    using gw_line_text [of "[peer_demo]" peer_demo 0 config_garbage] peer_demo_ok by simp
  from accepted_peers_are_valid [OF g, of 0] g show ?thesis by simp
qed

text \<open>C40. \<open>chkIP\<close> accepts exactly the strings with four non-empty pieces between dots, each made
  of digits and read by \<open>atoi\<close> as a number from 0 to 255.\<close>

theorem chkIP_accepts_four_numbers:
  "chkIP (Some s) =
     (if length (pieces (CHR ''.'') s) = 4 \<and>
         (\<forall>u \<in> set (pieces (CHR ''.'') s). (\<forall>c \<in> set u. c_isdigit c) \<and> 0 \<le> atoi u \<and> atoi u \<le> 255)
      then 1 else 0)"
  using chkIP_pieces by (simp add: octet_def)

theorem chkIP_accepts_four_numbers_witness:
  "chkIP (Some ''10.0.0.255'') = 1 \<and> chkIP (Some ''10.0.0.256'') = 0"
proof -
  have p: "pieces (CHR ''.'') ''10.0.0.255'' = [''10'', ''0'', ''0'', ''255'']"
    "pieces (CHR ''.'') ''10.0.0.256'' = [''10'', ''0'', ''0'', ''256'']" by code_simp+
  have a: "atoi ''10'' = 10" "atoi ''0'' = 0" "atoi ''255'' = 255" "atoi ''256'' = 256" by code_simp+
  show ?thesis
    using chkIP_accepts_four_numbers [of "''10.0.0.255''"] chkIP_accepts_four_numbers [of "''10.0.0.256''"]
    by (simp add: p a c_isdigit_def)
qed

text \<open>Two dots in a row count as one: \<open>chkIP\<close> accepts \<^verbatim>\<open>1..2.3.4\<close>, which is no address.\<close>

lemma chkIP_ignores_repeated_dots:
  "chkIP (Some (s @ ''..'' @ r)) = chkIP (Some (s @ ''.'' @ r)) \<and> chkIP (Some ''1..2.3.4'') = 1"
proof
  have "pieces (CHR ''.'') (CHR ''.'' # r) = pieces (CHR ''.'') r" by (simp add: pieces_def)
  then have "pieces (CHR ''.'') (s @ ''..'' @ r) = pieces (CHR ''.'') (s @ ''.'' @ r)"
    using pieces_app [of "CHR ''.''" s "CHR ''.'' # r"] pieces_app [of "CHR ''.''" s r] by simp
  then show "chkIP (Some (s @ ''..'' @ r)) = chkIP (Some (s @ ''.'' @ r))" by (simp only: chkIP_pieces)
  show "chkIP (Some ''1..2.3.4'') = 1" by code_simp
qed

text \<open>The address is copied before it is checked: one of 16 bytes or more overflows
  \<open>p->ip\<close>, valid or not.\<close>

theorem long_address_overflows:
  assumes "16 \<le> length a" "CHR '':'' \<notin> set a"
  shows "validateIpPort (a @ CHR '':'' # r) p = Inl (UB Buffer_Overflow)"
proof -
  have "a \<noteq> []" using assms(1) by auto
  with assms(2) have "strtok_r (a @ CHR '':'' # r) '':'' = (Some a, r)"
    by (intro strtok_r_simple(1)) auto
  with assms(1) show ?thesis by (simp add: validateIpPort_def store_str_def)
qed

theorem long_address_overflows_witness:
  "validateIpPort (''255.255.255.2550'' @ CHR '':'' # ''80'') peer_demo = Inl (UB Buffer_Overflow)"
  by (rule long_address_overflows) simp_all

text \<open>The index of the peers is not reset between lines: a second valid \<open>GW\<close> line is written
  past the end of the array it allocates.\<close>

theorem second_gw_line_overflows:
  assumes "\<forall>p \<in> set ps. peer_ok p" "ps \<noteq> []" "\<forall>p \<in> set qs. peer_ok p" "qs \<noteq> []"
    and "length (gw_text ps) < BUF" "length (gw_text qs) < BUF"
  shows "read_config junk config (gw_text ps @ gw_text qs @ file) = Inl (UB Invalid_Access)"
proof -
  have "fgets_lines (gw_text xs @ r) = gw_text xs # fgets_lines r" if "\<forall>p \<in> set xs. peer_ok p" "length (gw_text xs) < BUF" for xs r
    using fgets_lines_line [OF gw_text_line(2,3) [OF that(1)], of r] that(2) by (simp add: gw_text_def BUF_def)
  with assms line_kinds(1) show ?thesis by (simp add: read_config_def gw_line_text)
qed

theorem second_gw_line_overflows_witness:
  "read_config peer_demo config_garbage (gw_text [peer_demo] @ gw_text [peer_demo] @ []) = Inl (UB Invalid_Access)"
proof (rule second_gw_line_overflows)
  show "length (gw_text [peer_demo]) < BUF" by (rule gw_text_fits) (simp_all add: peer_demo_ok)
  then show "length (gw_text [peer_demo]) < BUF" .
qed (simp_all add: peer_demo_ok)

end
