(* ===== verification/Module.thy ===== *)
theory Module
  imports Reach Config
begin

section \<open>Starting the module: \<^verbatim>\<open>module.c\<close> and \<open>manage\<close>\<close>

text \<open>
  \<open>mod_init\<close> copies the configuration, and \<open>manage\<close> connects the peers and creates the
  threads: one queue manager, and a receiver and a sender for each entry of \<open>gconn_list\<close>
  (the monitor and the pipe thread are commented out). The results of \<open>pthread_create\<close> are
  an argument, by the order of the calls. The other functions of \<^verbatim>\<open>module.c\<close> pass a call on.
\<close>

datatype thread = Qmanager | Recv_worker nat | Send_worker nat

subsection \<open>\<open>manage\<close>\<close>

function spawn_workers :: "int \<Rightarrow> (nat \<Rightarrow> int) \<Rightarrow> nat \<Rightarrow> thread list res" where
  "spawn_workers n pthread_create i =
     (if int i < n then
        if pthread_create (2 * i + 1) \<noteq> 0 then Inl (Exit 1)
        else if pthread_create (2 * i + 2) \<noteq> 0 then Inl (Exit 1)
        else bindE (spawn_workers n pthread_create (Suc i)) (\<lambda>ts. Inr (Recv_worker i # Send_worker i # ts))
      else Inr [])"
  by pat_completeness auto
termination
  by (relation "measure (\<lambda>(n, pc, i). nat n - i)") auto

declare spawn_workers.simps [simp del]

definition manage ::
  "configurator \<Rightarrow> (nat \<Rightarrow> dial) \<Rightarrow> (nat \<Rightarrow> int) \<Rightarrow> (int \<times> con_t list \<times> thread list) res" where
  "manage cf ds pthread_create =
     bindE (create_peers cf ds) (\<lambda>cl.
       if pthread_create 0 \<noteq> 0 then Inl (Exit 1)
       else bindE (spawn_workers (num_peers cf) pthread_create 0) (\<lambda>ts. Inr (0, cl, Qmanager # ts)))"

subsection \<open>\<^verbatim>\<open>module.c\<close>\<close>

text \<open>Lines 15 to 20: the copy of the peers.\<close>

function copy_peers :: "configurator \<Rightarrow> nat \<Rightarrow> end_peers list res" where
  "copy_peers cf i =
     (if int i < num_peers cf then
        (if i < length (peers cf) then
           bindE (store_str 16 (ip (peers cf ! i))) (\<lambda>s.
           bindE (copy_peers cf (Suc i)) (\<lambda>ps. Inr (\<lparr>port = port (peers cf ! i), ip = s\<rparr> # ps)))
         else Inl (UB Invalid_Access))
      else Inr [])"
  by pat_completeness auto
termination
  by (relation "measure (\<lambda>(cf, i). nat (num_peers cf) - i)") auto

declare copy_peers.simps [simp del]

definition mod_init ::
  "configurator \<Rightarrow> (nat \<Rightarrow> dial) \<Rightarrow> (nat \<Rightarrow> int) \<Rightarrow> glob \<Rightarrow> (int \<times> glob \<times> thread list) res" where
  "mod_init cf ds pthread_create g =
     bindE (copy_peers cf 0) (\<lambda>ps. let gconfig = cf\<lparr>peers := ps\<rparr> in
     bindE (manage gconfig ds pthread_create) (\<lambda>(rc, cl, ts).
       if rc \<noteq> 0 then Inl (Exit 1) else Inr (0, g\<lparr>cfg := gconfig, conns := cl\<rparr>, ts)))"

definition get_peers :: "glob \<Rightarrow> int" where
  "get_peers g = num_peers (cfg g)"

definition register_req_cb :: "addr \<Rightarrow> glob \<Rightarrow> int \<times> glob" where
  "register_req_cb f g = register_callback_request f g"

definition sl_send_buf :: "addr \<Rightarrow> addr \<Rightarrow> addr \<Rightarrow> timeval \<Rightarrow> glob \<Rightarrow> (int \<times> bool \<times> glob) res" where
  "sl_send_buf req f p now g = ready_to_send req f p now g"

text \<open>The static data when the library is loaded.\<close>

definition mod_zero :: glob where
  "mod_zero = \<lparr>cfg = \<lparr>num_worker_threads = 0, num_peers = 0, peers = []\<rparr>, conns = [], glast_con_rr = 0,
     gmsgq = queue_empty, gtsidq = queue_empty, requests = (\<lambda>_. None),
     c_strs = (\<lambda>_. False), reg_req_cb = 0, reg_res_cb = 0, reg_res_param = 0\<rparr>"

subsection \<open>Lemmas\<close>

lemma spawn_workers_all:
  "spawn_workers n pc i = Inr ts \<Longrightarrow>
   ts = concat (map (\<lambda>k. [Recv_worker k, Send_worker k]) [i..<nat n])"
proof (induction n pc i arbitrary: ts rule: spawn_workers.induct)
  case (1 n pc i)
  show ?case
  proof (cases "int i < n")
    case False
    with 1(2) show ?thesis by (simp add: spawn_workers.simps [of n])
  next
    case True
    with 1(2) obtain us where u: "pc (2 * i + 1) = 0" "pc (2 * i + 2) = 0"
      "spawn_workers n pc (Suc i) = Inr us" "ts = Recv_worker i # Send_worker i # us"
      by (auto simp: spawn_workers.simps [of n pc i] outcome_iffs split: if_splits)
    with 1(1) [OF True, of us] True show ?thesis by (simp add: upt_conv_Cons)
  qed
qed

lemma copy_peers_all:
  "copy_peers cf i = Inr ps \<Longrightarrow> i \<le> nat (num_peers cf) \<Longrightarrow> ps = drop i (take (nat (num_peers cf)) (peers cf)) \<and>
     nat (num_peers cf) \<le> max i (length (peers cf))"
proof (induction cf i arbitrary: ps rule: copy_peers.induct)
  case (1 cf i)
  show ?case
  proof (cases "int i < num_peers cf")
    case False
    with 1(2) show ?thesis by (simp add: copy_peers.simps [of cf i])
  next
    case True
    with 1(2) obtain qs where q: "i < length (peers cf)" "copy_peers cf (Suc i) = Inr qs"
      "store_str 16 (ip (peers cf ! i)) = Inr (ip (peers cf ! i))" "ps = peers cf ! i # qs"
      by (auto simp: copy_peers.simps [of cf i] outcome_iffs store_str_def split: if_splits)
    with 1(1) [OF True q(1,3,2)] True show ?thesis
      by (auto simp: Cons_nth_drop_Suc [symmetric] max_def split: if_splits)
  qed
qed

lemma started_queues_ok:
  assumes "mod_init cf ds pc mod_zero = Inr (rc, g, ts)" "0 < num_peers cf"
  shows "queues_ok g"
proof -
  from assms(1) obtain ps cl where g: "g = mod_zero\<lparr>cfg := cf\<lparr>peers := ps\<rparr>, conns := cl\<rparr>"
    "create_peers (cf\<lparr>peers := ps\<rparr>) ds = Inr cl"
    by (auto simp: mod_init_def manage_def outcome_iffs Let_def split: if_splits)
  from create_from_created [OF g(2) [unfolded create_peers_def]]
  have "num_peers cf = int (length cl)" using assms(2) by simp
  moreover have "broker_rep g broker_empty"
    using g(1) by (simp add: broker_rep_def mod_zero_def broker_empty_def)
  moreover have "broker_ok (num_peers cf) broker_empty"
    using assms(2) by (simp add: broker_ok_def broker_empty_def)
  ultimately show ?thesis using g(1) by (intro queues_okI) simp_all
qed

subsection \<open>Properties\<close>

text \<open>C12. When \<open>mod_init\<close> returns, for at least one peer, it has returned 0, the module holds a
  copy of the configured peers, there are one queue manager and a receiver and a sender for
  each peer, and the state is a well formed one, from which the reachable states start.\<close>

theorem module_starts_well_formed:
  assumes "mod_init cf ds pc mod_zero = Inr (rc, g, ts)" "0 < num_peers cf"
  shows "rc = 0 \<and> queues_ok g \<and> get_peers g = num_peers cf \<and>
    peers (cfg g) = take (nat (num_peers cf)) (peers cf) \<and> length (peers (cfg g)) = nat (num_peers cf) \<and>
    ts = Qmanager # concat (map (\<lambda>k. [Recv_worker k, Send_worker k]) [0..<nat (num_peers cf)])"
proof -
  from assms(1) obtain ps cl us where
    c: "rc = 0" "g = mod_zero\<lparr>cfg := cf\<lparr>peers := ps\<rparr>, conns := cl\<rparr>" "copy_peers cf 0 = Inr ps"
    "spawn_workers (num_peers cf) pc 0 = Inr us" "ts = Qmanager # us"
    by (auto simp: mod_init_def manage_def outcome_iffs Let_def split: if_splits)
  with copy_peers_all [OF c(3)] spawn_workers_all [OF c(4)] started_queues_ok [OF assms]
  show ?thesis by (simp add: get_peers_def)
qed

theorem module_starts_well_formed_witness:
  "\<exists>g ts. mod_init cfg_demo (\<lambda>i. if i = 0 then dial_ok 3 else dial_refused 4) (\<lambda>_. 0) mod_zero = Inr (0, g, ts) \<and>
    queues_ok g \<and> get_peers g = num_peers cfg_demo \<and>
    ts = Qmanager # concat (map (\<lambda>k. [Recv_worker k, Send_worker k]) [0..<nat (num_peers cfg_demo)])"
proof -
  have f: "num_peers cfg_demo = 2" "length (peers cfg_demo) = 2" by (simp_all add: cfg_demo_def)
  have "store_str 16 (ip (peers cfg_demo ! 0)) = Inr (ip (peers cfg_demo ! 0))"
    "store_str 16 (ip (peers cfg_demo ! 1)) = Inr (ip (peers cfg_demo ! 1))"
    by (simp_all add: cfg_demo_def store_str_def)
  then have c: "copy_peers cfg_demo 0 = Inr (map ((!) (peers cfg_demo)) [0, 1])"
    using f by (simp add: copy_peers.simps [of cfg_demo])
  have "map ((!) (peers cfg_demo)) [0, 1] = peers cfg_demo" by (simp add: cfg_demo_def)
  then have "cfg_demo\<lparr>peers := map ((!) (peers cfg_demo)) [0, 1]\<rparr> = cfg_demo" by simp
  moreover have "\<exists>ts. spawn_workers 2 (\<lambda>_. 0) 0 = Inr ts" by (simp add: spawn_workers.simps)
  ultimately obtain rc g ts where
    m: "mod_init cfg_demo (\<lambda>i. if i = 0 then dial_ok 3 else dial_refused 4) (\<lambda>_. 0) mod_zero = Inr (rc, g, ts)"
    using create_peers_demo f c by (auto simp: mod_init_def manage_def Let_def)
  from module_starts_well_formed [OF m] m show ?thesis by (auto simp: cfg_demo_def)
qed

end
