(* ===== verification/Session.thy ===== *)
theory Session
  imports Module
begin

section \<open>A transaction from request to response\<close>

text \<open>
  The components put together: a client sends a request with an id, a peer answers with a
  session response that carries the id, and the receiver calls the client back.
\<close>

subsection \<open>The response a peer sends\<close>

definition response_text :: "int \<Rightarrow> string \<Rightarrow> string" where
  "response_text code s =
     ''<TYPE>2</TYPE><REPLY_CODE>'' @ fmt_d code @ ''</REPLY_CODE><TID>'' @ s @ ''</TID>''"

text \<open>Extracting an element whose surroundings hold no other occurrence of its keys.\<close>

lemma attr_found:
  assumes "b = pre @ sk @ v @ ek @ post" "v \<noteq> []" "hd b \<noteq> NUL" "NUL \<notin> set v"
    and "sk = CHR ''<'' # sk'" "ek = CHR ''<'' # ek'" "NUL \<notin> set sk" "NUL \<notin> set ek"
    and "clear sk pre (sk @ v @ ek @ post)" "clear ek pre (sk @ v @ ek @ post)"
    and "CHR ''<'' \<notin> set v" "\<not> prefix sk (ek @ post)"
  shows "attr (Some b) (int (length b)) sk ek =
      \<lparr>xc_s = Some (length pre + length sk), xc_len = int (length v)\<rparr>"
    and "attr_text (Some b) (int (length b)) sk ek = v"
proof -
  obtain c u where v: "v = c # u" using assms(2) by (cases v) auto
  have "clear sk u (ek @ post)" "clear ek u (ek @ post)"
    using assms(5,6,11) v clear_byte by auto
  then have "parse_loop b (int (length b)) sk ek 0 0 =
      (1, \<lparr>xc_s = Some (length pre + length sk), xc_len = int (length v)\<rparr>)"
    using parse_loop_found [of sk ek b pre c u post] assms v by simp
  moreover have "b \<noteq> []" using assms(1,2) by auto
  ultimately show a: "attr (Some b) (int (length b)) sk ek =
      \<lparr>xc_s = Some (length pre + length sk), xc_len = int (length v)\<rparr>"
    using assms(3) by (simp add: attr_def parse_xml_attribute_def)
  have "xc_bytes b \<lparr>xc_s = Some (length pre + length sk), xc_len = int (length v)\<rparr> = v"
    using xc_bytes_found [of pre sk v "ek @ post"] assms(1) by simp
  then show "attr_text (Some b) (int (length b)) sk ek = v"
    using assms(4) by (simp add: attr_text_def a xc_string_def cut_nul_id)
qed

lemma attr_absent:
  assumes "clear sk b []" "clear ek b []" "NUL \<notin> set sk" "NUL \<notin> set ek"
  shows "xc_len (attr (Some b) (int (length b)) sk ek) = 0"
  using parse_loop_absent [OF assms(3,4,1,2)]
  by (auto simp: attr_def parse_xml_attribute_def)

text \<open>The five elements the receiver looks for.\<close>

lemma response_attrs:
  assumes "0 \<le> code" "s \<noteq> []" "CHR ''<'' \<notin> set s" "NUL \<notin> set s"
  shows "attr_text (Some (response_text code s)) (int (length (response_text code s))) ''<TYPE>'' ''</TYPE>'' = ''2''"
    and "xc_len (attr (Some (response_text code s)) (int (length (response_text code s))) ''<TYPE>'' ''</TYPE>'') = 1"
    and "attr_text (Some (response_text code s)) (int (length (response_text code s))) ''<REPLY_CODE>'' ''</REPLY_CODE>'' =
           fmt_d code"
    and "attr_text (Some (response_text code s)) (int (length (response_text code s))) ''<TID>'' ''</TID>'' = s"
    and "xc_len (attr (Some (response_text code s)) (int (length (response_text code s))) ''<EVENT>'' ''</EVENT>'') = 0"
    and "xc_len (attr (Some (response_text code s)) (int (length (response_text code s))) ''<SID>'' ''</SID>'') = 0"
proof -
  have d: "\<forall>c \<in> set (fmt_d code). c_isdigit c" "fmt_d code \<noteq> []"
    using assms(1) dec_nat_digits by (auto simp: fmt_d_def)
  have "\<not> c_isdigit (CHR ''<'')" by (simp add: c_isdigit_def)
  then have dl: "CHR ''<'' \<notin> set (fmt_d code)" "NUL \<notin> set (fmt_d code)"
    using d(1) digit_facts by auto
  have cl: "clear (CHR ''<'' # k) (fmt_d code) ys" "clear (CHR ''<'' # k) s ys" for k ys
    using clear_byte [OF dl(1)] clear_byte [OF assms(3)] by auto
  note f = attr_found [where b = "response_text code s"]
  have type: "response_text code s = [] @ ''<TYPE>'' @ ''2'' @ ''</TYPE>'' @
      (''<REPLY_CODE>'' @ fmt_d code @ ''</REPLY_CODE><TID>'' @ s @ ''</TID>'')"
    by (simp add: response_text_def)
  show "attr_text (Some (response_text code s)) (int (length (response_text code s))) ''<TYPE>'' ''</TYPE>'' = ''2''"
    by (rule f(2) [OF type]) (simp_all add: response_text_def)
  show "xc_len (attr (Some (response_text code s)) (int (length (response_text code s))) ''<TYPE>'' ''</TYPE>'') = 1"
    by (subst f(1) [OF type]) (simp_all add: response_text_def)
  show "attr_text (Some (response_text code s)) (int (length (response_text code s))) ''<REPLY_CODE>'' ''</REPLY_CODE>'' =
      fmt_d code"
    by (rule f(2) [where pre = "''<TYPE>2</TYPE>''" and post = "''<TID>'' @ s @ ''</TID>''"])
      (use d dl in \<open>simp_all add: response_text_def\<close>)
  show "attr_text (Some (response_text code s)) (int (length (response_text code s))) ''<TID>'' ''</TID>'' = s"
    by (rule f(2) [where pre = "''<TYPE>2</TYPE><REPLY_CODE>'' @ fmt_d code @ ''</REPLY_CODE>''" and post = "[]"])
      (use assms cl in \<open>simp_all add: response_text_def clear_append\<close>)
  show "xc_len (attr (Some (response_text code s)) (int (length (response_text code s))) ''<EVENT>'' ''</EVENT>'') = 0"
    by (rule attr_absent) (use cl in \<open>simp_all add: response_text_def clear_append\<close>)
  show "xc_len (attr (Some (response_text code s)) (int (length (response_text code s))) ''<SID>'' ''</SID>'') = 0"
    by (rule attr_absent) (use cl in \<open>simp_all add: response_text_def clear_append\<close>)
qed

text \<open>The receiver takes it for a session response and delivers it.\<close>

lemma handle_response:
  assumes "0 \<le> code" "code < 2 ^ 31" "s \<noteq> []" "CHR ''<'' \<notin> set s" "NUL \<notin> set s"
  shows "handle_message now (Some (response_text code s)) (int (length (response_text code s))) g =
    deliver_response now (Some (response_text code s)) s code g"
proof -
  have "atoi ''2'' = 2" by code_simp
  moreover have "atoi (fmt_d code) = code" by (rule fmt_d_nonneg [OF assms(1,2)])
  ultimately show ?thesis
    using response_attrs [OF assms(1,3-5)]
    by (simp add: handle_message_def session_response_def Let_def)
qed

subsection \<open>The transaction\<close>

lemma c_str_no_nul: "c_str a = Inr s \<Longrightarrow> NUL \<notin> set s"
  by (auto simp: c_str_def dest: set_takeWhileD split: if_splits)

lemma mark_all_snoc:
  "mark_all nows i (es @ [e]) = mark_all nows i es @ [mark_expired (nows (i + length es)) e]"
  by (induction es arbitrary: i) auto

lemma find_mark_all: "find (has_id s) (mark_all nows i es) = None \<longleftrightarrow> find (has_id s) es = None"
  by (induction es arbitrary: i) (auto simp: has_id_def mark_expired_def)

lemma find_new: "find (has_id s) es = None \<Longrightarrow> has_id s e \<Longrightarrow> find (has_id s) (es @ [e]) = Some e"
  by (induction es) (auto split: if_splits)

lemma rem_first_new: "find (has_id s) es = None \<Longrightarrow> has_id s e \<Longrightarrow> rem_first (has_id s) (es @ [e]) = es"
  by (induction es) (auto split: if_splits)

lemma push_new_session:
  assumes "broker_ok n b" "n \<le> int (length cl)" "c < nat n" "state (cl ! c) = 1"
    and "find (has_id s) (b_sessions b) = None"
  shows "\<exists>con rr. b_push cl n s len data now f p b = Inr \<lparr>b_sessions = b_sessions b @ [new_entry s con now f p],
      b_queue = b_queue b @ [\<lparr>mq_data = data, mq_id = s, mq_len = len, mq_conn = con\<rparr>], b_rr = rr\<rparr> \<and>
    state (cl ! nat con) = 1"
proof -
  have rr: "0 \<le> b_rr b" "b_rr b < n" using assms(1) by (auto simp: broker_ok_def)
  have "con_up cl c" using assms(4) by (simp add: con_up_def)
  from assign_conn_up [OF rr assms(2,3) this] obtain con where
    "assign_conn cl n (b_rr b) = Inr (con, bump n con)" "con_up cl (nat con)" by blast
  with assms(5) show ?thesis
    by (intro exI [of _ con] exI [of _ "bump n con"]) (simp add: b_push_def b_session_def con_up_def)
qed

text \<open>A pass of the queue manager and then the response: the callback of the newest session is called.\<close>

lemma response_closes_session:
  assumes "broker_rep g \<lparr>b_sessions = es @ [new_entry s con t0 f p], b_queue = q, b_rr = rr\<rparr>"
    and "find (has_id s) es = None" "s \<noteq> []" "length s < KEY_SIZE" "CHR ''<'' \<notin> set s" "NUL \<notin> set s" "f \<noteq> 0"
    and "0 \<le> code" "code < 2 ^ 31"
  shows "if marks_ok (c_strs g) nows 0 (es @ [new_entry s con t0 f p]) then
    \<exists>g3 g4. qmanager_round nows g = Inr g3 \<and> conns g3 = conns g \<and>
    handle_message t1 (Some (response_text code s)) (int (length (response_text code s))) g3 = Inr (g4,
      [Call_res f (if plus_expiry t0 < nows (length es) then 1 else 0) p
         \<lparr>res_id = s, retcode = code, query_res = response_text code s\<rparr> (elapsed_ms t1 t0)]) \<and>
    broker_rep g4 \<lparr>b_sessions = mark_all nows 0 es, b_queue = q, b_rr = rr\<rparr>
    else \<exists>x. qmanager_round nows g = Inl (UB x)"
proof (cases "marks_ok (c_strs g) nows 0 (es @ [new_entry s con t0 f p])")
  case True
  let ?e = "mark_expired (nows (length es)) (new_entry s con t0 f p)" and ?m = "response_text code s"
  let ?b = "\<lparr>b_sessions = mark_all nows 0 es @ [?e], b_queue = q, b_rr = rr\<rparr>"
  from qmanager_refines [OF assms(1), of nows] True obtain g3 where
    g3: "qmanager_round nows g = Inr g3" "broker_rep g3 ?b" by (auto simp: b_expire_def mark_all_snoc)
  have c: "conns g3 = conns g" using g3(1) by (auto simp: qmanager_round_def outcome_iffs)
  have e: "has_id s ?e" "callback_f ?e = f" "callback_param ?e = p" "ATime ?e = t0"
    "is_expired ?e = (if plus_expiry t0 < nows (length es) then 1 else 0)"
    by (simp_all add: mark_expired_less new_entry_def has_id_def)
  have "find (has_id s) (mark_all nows 0 es) = None" using assms(2) by (simp add: find_mark_all)
  from find_new [OF this e(1)] rem_first_new [OF this e(1)]
  have found: "find (has_id s) (b_sessions ?b) = Some ?e"
    and closed: "b_close s ?b = \<lparr>b_sessions = mark_all nows 0 es, b_queue = q, b_rr = rr\<rparr>"
    by (simp_all add: b_close_def)
  from deliver_refines [OF g3(2) found assms(3,4), of t1 "Some ?m" code] e assms(7) obtain g4 where
    "deliver_response t1 (Some ?m) s code g3 = Inr (g4,
      [Call_res f (if plus_expiry t0 < nows (length es) then 1 else 0) p
         \<lparr>res_id = s, retcode = code, query_res = ?m\<rparr> (elapsed_ms t1 t0)])" "broker_rep g4 (b_close s ?b)"
    by (auto simp: msg_bytes_def split: if_splits)
  with g3(1) c closed True handle_response [OF assms(8,9,3,5,6), of t1 g3] show ?thesis by auto
next
  case False
  with qmanager_refines [OF assms(1), of nows] show ?thesis by simp
qed

end
