(* ===== verification/Delivery.thy ===== *)
theory Delivery
  imports Session
begin

section \<open>Inside the delivery of a response\<close>

text \<open>
  The receiver looks a transaction id up under \<open>qtex\<close>, releases the lock, calls the client's
  callback, and takes the lock again to remove the session. Here the two halves are apart, so that
  what a client does between them, for example in the callback itself, can be placed there.
\<close>

text \<open>\<^verbatim>\<open>work.c\<close> lines 132 to 145 and 215 to 228: the look-up and the call.\<close>

definition deliver_call ::
  "timeval \<Rightarrow> string option \<Rightarrow> string \<Rightarrow> int \<Rightarrow> glob \<Rightarrow> (event list \<times> bool) res" where
  "deliver_call now message tid retc g =
     bindE (lookup_ID_idq (gtsidq g) (Some tid) now tsid_zero) (\<lambda>(lookup, elapsed, n).
     bindE (store_str KEY_SIZE tid) (\<lambda>rid.
       let res = \<lparr>res_id = rid, retcode = retc, query_res = msg_bytes message\<rparr> in
       if lookup = 1 then
         bindE (call_res (callback_f n) (if is_expired n = 0 then 0 else 1) (callback_param n) res elapsed)
           (\<lambda>ev. Inr (ev, True))
       else Inr ([], False)))"

text \<open>Lines 146 to 148 and 229 to 231: the removal.\<close>

definition deliver_remove :: "string \<Rightarrow> glob \<Rightarrow> glob res" where
  "deliver_remove tid g = bindE (rem_id (gtsidq g) tid) (\<lambda>q. Inr (g\<lparr>gtsidq := q\<rparr>))"

lemma deliver_halves:
  "deliver_response now message tid retc g =
     bindE (deliver_call now message tid retc g) (\<lambda>(ev, found).
       if found then bindE (deliver_remove tid g) (\<lambda>g. Inr (g, ev)) else Inr (g, ev))"
  by (auto simp: deliver_response_def deliver_call_def deliver_remove_def Let_def split_def intro!: bindE_cong)

text \<open>A push on a session that exists, and the removal that follows it.\<close>

lemma push_known:
  assumes "broker_rep g b" "broker_ok (num_peers (cfg g)) b" "num_peers (cfg g) \<le> int (length (conns g))"
    and "load_req (requests g) req = Inr r" "c_str (req_id r) = Inr s" "s \<noteq> []" "length s < KEY_SIZE"
    and "find (has_id s) (b_sessions b) = Some e"
  shows "\<exists>g' b'. push_request req f p now g = Inr g' \<and> broker_rep g' b' \<and> broker_ok (num_peers (cfg g)) b' \<and>
    b_queue b' = b_queue b @ [\<lparr>mq_data = req, mq_id = s, mq_len = msg_len r, mq_conn = tq_conn e\<rparr>]"
proof -
  obtain b' where b': "b_push (conns g) (num_peers (cfg g)) s (msg_len r) req now f p b = Inr b'"
    "b_queue b' = b_queue b @ [\<lparr>mq_data = req, mq_id = s, mq_len = msg_len r, mq_conn = tq_conn e\<rparr>]"
    using assms(8) by (simp add: b_push_def b_session_def)
  with push_refines [OF assms(1,2,6,7), of "conns g" "msg_len r" req now f p] assms(4,5)
    broker_ok_push [OF assms(2,6,3) b'(1)] show ?thesis by (auto simp: push_request_def)
qed

subsection \<open>Properties\<close>

text \<open>C24. A request that is sent with the same id between the two halves, for example from the
  callback, loses its session: the message is queued and will be sent, but the receiver then
  removes the refreshed session, and the response to the second request reaches nobody.\<close>

theorem resend_during_delivery_is_lost:
  assumes "broker_rep g b" "broker_ok (num_peers (cfg g)) b" "num_peers (cfg g) \<le> int (length (conns g))"
    and "load_req (requests g) req = Inr r" "c_str (req_id r) = Inr s" "s \<noteq> []" "length s < KEY_SIZE"
    and "find (has_id s) (b_sessions b) = Some e" "callback_f e \<noteq> 0"
  shows "\<exists>g1 g2. deliver_call now message s retc g = Inr (
      [Call_res (callback_f e) (if is_expired e = 0 then 0 else 1) (callback_param e)
         \<lparr>res_id = s, retcode = retc, query_res = msg_bytes message\<rparr> (elapsed_ms now (ATime e))], True) \<and>
    push_request req f p t g = Inr g1 \<and> deliver_remove s g1 = Inr g2 \<and>
    queue_rep True (gmsgq g2) (b_queue b @ [\<lparr>mq_data = req, mq_id = s, mq_len = msg_len r, mq_conn = tq_conn e\<rparr>]) \<and>
    (\<forall>now' message' retc'. deliver_response now' message' s retc' g2 = Inr (g2, []))"
proof -
  from assms(1) have "queue_rep False (gtsidq g) (b_sessions b)" by (simp add: broker_rep_def)
  from idq.lookup_law [OF this assms(6), of now tsid_zero] assms(7-9)
  have call: "deliver_call now message s retc g = Inr (
      [Call_res (callback_f e) (if is_expired e = 0 then 0 else 1) (callback_param e)
         \<lparr>res_id = s, retcode = retc, query_res = msg_bytes message\<rparr> (elapsed_ms now (ATime e))], True)"
    by (simp add: deliver_call_def store_str_def call_res_def Let_def)
  from push_known [OF assms(1-8), of f p t] obtain g1 b1 where g1: "push_request req f p t g = Inr g1" "broker_rep g1 b1"
    "broker_ok (num_peers (cfg g)) b1"
    "b_queue b1 = b_queue b @ [\<lparr>mq_data = req, mq_id = s, mq_len = msg_len r, mq_conn = tq_conn e\<rparr>]" by blast
  from rem_id_refines [OF g1(2), of s] obtain iq where iq: "rem_id (gtsidq g1) s = Inr iq"
    "broker_rep (g1\<lparr>gtsidq := iq\<rparr>) (b_close s b1)" by blast
  have "find (has_id s) (b_sessions (b_close s b1)) = None"
    using g1(3) idq.rem_first_distinct by (simp add: b_close_def broker_ok_def)
  with deliver_unknown [OF iq(2) _ assms(6,7)] have "deliver_response n m s c (g1\<lparr>gtsidq := iq\<rparr>) = Inr (g1\<lparr>gtsidq := iq\<rparr>, [])" for n m c
    by blast
  moreover have "queue_rep True (gmsgq (g1\<lparr>gtsidq := iq\<rparr>)) (b_queue b1)" using g1(2) by (simp add: broker_rep_def)
  ultimately show ?thesis using call g1 iq(1)
    by (intro exI [of _ g1] exI [of _ "g1\<lparr>gtsidq := iq\<rparr>"]) (simp add: deliver_remove_def)
qed

theorem resend_during_delivery_is_lost_witness:
  "\<exists>g1 g2. push_request 5 11 12 (Timeval 12 0) (glob_demo\<lparr>gtsidq := mk_queue [new_entry ''a'' 0 (Timeval 1 0) 11 12]\<rparr>) = Inr g1 \<and>
    deliver_remove ''a'' g1 = Inr g2 \<and> (\<forall>n m c. deliver_response n m ''a'' c g2 = Inr (g2, []))"
proof -
  let ?e = "new_entry ''a'' 0 (Timeval 1 0) 11 12"
  let ?g = "glob_demo\<lparr>gtsidq := mk_queue [?e]\<rparr>" and ?b = "broker_empty\<lparr>b_sessions := [?e]\<rparr>"
  have "broker_rep ?g ?b" "broker_ok 2 ?b"
    using glob_demo_rep by (simp_all add: broker_rep_def broker_ok_def broker_empty_def new_entry_def)
  moreover have "find (has_id ''a'') (b_sessions ?b) = Some ?e" by (simp add: has_id_def new_entry_def)
  moreover have "callback_f ?e \<noteq> 0" by (simp add: new_entry_def)
  ultimately show ?thesis
    using resend_during_delivery_is_lost [of ?g ?b 5 "req_demo ''a''" "''a''" ?e "Timeval 12 0" None 0 11 12 "Timeval 12 0"]
      glob_demo_facts req_demo_facts [of "''a''"] by (auto simp: KEY_SIZE_def)
qed

end
