(* ===== verification/Threads.thy ===== *)
theory Threads
  imports Module
begin

section \<open>Interleavings inside a round\<close>

text \<open>
  \<open>Reach\<close> runs whole rounds. Here clients and senders interleave where they release a lock:
  a client between its push (under \<open>qtex\<close>) and its wake-up test (under \<open>condition_mutex\<close>), a
  sender between the test of \<open>gmsgq\<close> that decides whether it waits, its pop (under \<open>qtex\<close>) and the
  sending and freeing of the node. In \<open>tstep\<close> a sender that waits on \<open>condition_cond\<close> goes on only when it is
  signalled; the spurious wake-ups that POSIX allows are the separate relation \<open>spurious\<close>, so that a
  statement can say whether it relies on them. A signal that nobody waits for
  is lost. A receiver's round and a pass of the queue manager are still one step. A step that does not end in a state (a fault
  or an endless loop) has the reason as its outcome.
\<close>

datatype client_pc = Client_idle | Client_pushed

datatype sender_pc = Sender_checks | Sender_waits | Sender_runs | Sender_popped addr

record tstate =
  shared :: glob
  clients :: "client_pc list"
  senders :: "sender_pc list"      \<comment> \<open>the sender of entry \<open>i\<close> of \<open>gconn_list\<close>\<close>

subsection \<open>The steps of a sender\<close>

text \<open>\<^verbatim>\<open>work.c\<close> lines 256 to 261: with an empty queue the sender waits.\<close>

definition sender_check :: "glob \<Rightarrow> sender_pc" where
  "sender_check g = (if qhead (gmsgq g) = 0 then Sender_waits else Sender_runs)"

text \<open>
  Lines 263 to 277: the reconnection, under \<open>conntex\<close>, and the pop, under \<open>qtex\<close>, taken as one step;
  without a node the loop starts again.
\<close>

definition sender_pop :: "nat \<Rightarrow> dial \<Rightarrow> glob \<Rightarrow> (sender_pc \<times> glob) res" where
  "sender_pop i d g =
     (if length (conns g) \<le> i then Inl (UB Invalid_Access) else
      bindE (if state (conns g ! i) \<noteq> 1
             then recreate_conn (peer_id (conns g ! i)) (cfg g) d (conns g)
             else Inr (conns g)) (\<lambda>cl.
      bindE (pop_from_msgq (gmsgq g) (peer_id (cl ! i))) (\<lambda>(node, mq).
        Inr (if node = 0 then Sender_checks else Sender_popped node, g\<lparr>conns := cl, gmsgq := mq\<rparr>))))"

text \<open>Without interruption the two halves are the round of \<open>Worker\<close>.\<close>

lemma send_round_halves:
  "send_round i d ws g = bindE (sender_pop i d g) (\<lambda>(pc, g). case pc of
     Sender_popped node \<Rightarrow> bindE (send_node i node ws g) (\<lambda>(g, ws). Inr (g, ws, True))
   | _ \<Rightarrow> Inr (g, ws, False))"
  by (auto simp: send_round_def sender_pop_def Let_def split_def intro!: bindE_cong)

subsection \<open>The step relation\<close>

inductive tstep :: "tstate \<Rightarrow> tstate res \<Rightarrow> bool" where
  client_pushes: "i < length (clients s) \<Longrightarrow> clients s ! i = Client_idle \<Longrightarrow>
    tstep s (bindE (push_request req f p now (shared s)) (\<lambda>g.
      Inr (s\<lparr>shared := g, clients := (clients s)[i := Client_pushed]\<rparr>)))"
| client_tests_fault: "i < length (clients s) \<Longrightarrow> clients s ! i = Client_pushed \<Longrightarrow>
    signal_test (shared s) = Inl e \<Longrightarrow> tstep s (Inl e)"
| client_no_signal: "i < length (clients s) \<Longrightarrow> clients s ! i = Client_pushed \<Longrightarrow>
    signal_test (shared s) = Inr False \<or>
      signal_test (shared s) = Inr True \<and> (\<forall>j < length (senders s). senders s ! j \<noteq> Sender_waits) \<Longrightarrow>
    tstep s (Inr (s\<lparr>clients := (clients s)[i := Client_idle]\<rparr>))"
| client_signals: "i < length (clients s) \<Longrightarrow> clients s ! i = Client_pushed \<Longrightarrow>
    signal_test (shared s) = Inr True \<Longrightarrow> j < length (senders s) \<Longrightarrow> senders s ! j = Sender_waits \<Longrightarrow>
    tstep s (Inr (s\<lparr>clients := (clients s)[i := Client_idle], senders := (senders s)[j := Sender_checks]\<rparr>))"
| sender_checks: "j < length (senders s) \<Longrightarrow> senders s ! j = Sender_checks \<Longrightarrow>
    tstep s (Inr (s\<lparr>senders := (senders s)[j := sender_check (shared s)]\<rparr>))"
| sender_pops: "j < length (senders s) \<Longrightarrow> senders s ! j = Sender_runs \<Longrightarrow>
    tstep s (bindE (sender_pop j d (shared s)) (\<lambda>(pc, g).
      Inr (s\<lparr>shared := g, senders := (senders s)[j := pc]\<rparr>)))"
| sender_sends: "j < length (senders s) \<Longrightarrow> senders s ! j = Sender_popped node \<Longrightarrow>
    tstep s (bindE (send_node j node ws (shared s)) (\<lambda>(g, ws).
      Inr (s\<lparr>shared := g, senders := (senders s)[j := Sender_checks]\<rparr>)))"
| receiver_receives: "tstep s (bindE (recv_round k ds socks now rc (shared s)) (\<lambda>(g, rc, sk, ev).
      Inr (s\<lparr>shared := g\<rparr>)))"
| manager_marks: "tstep s (bindE (qmanager_round nows (shared s)) (\<lambda>g. Inr (s\<lparr>shared := g\<rparr>)))"
| client_allocs: "requests (shared s) a = None \<Longrightarrow>
    tstep s (Inr (s\<lparr>shared := (shared s)\<lparr>requests := (requests (shared s))(a \<mapsto> r)\<rparr>\<rparr>))"
| client_writes: "tstep s (Inr (s\<lparr>shared := (shared s)\<lparr>c_strs := strs\<rparr>\<rparr>))"

definition tnext :: "tstate \<Rightarrow> tstate \<Rightarrow> bool" where
  "tnext s s' \<longleftrightarrow> tstep s (Inr s')"

text \<open>\<open>pthread_cond_wait\<close> may return unsignalled; the loop around it tests the queue again.\<close>

inductive spurious :: "tstate \<Rightarrow> tstate \<Rightarrow> bool" where
  sender_wakes: "j < length (senders s) \<Longrightarrow> senders s ! j = Sender_waits \<Longrightarrow>
    spurious s (s\<lparr>senders := (senders s)[j := Sender_checks]\<rparr>)"

inductive_cases spuriousE: "spurious s s'"

subsection \<open>Nobody is woken any more\<close>

text \<open>
  The stuck states: every sender waits, and at least two messages are queued. A client signals
  only when its message is alone, so nothing changes this.
\<close>

definition stuck :: "tstate \<Rightarrow> bool" where
  "stuck s \<longleftrightarrow> (\<forall>j < length (senders s). senders s ! j = Sender_waits) \<and> queues_ok (shared s) \<and>
     (\<exists>ms. queue_rep True (gmsgq (shared s)) ms \<and> 2 \<le> length ms)"

lemma stuck_no_signal:
  assumes "stuck s"
  shows "signal_test (shared s) = Inr False"
proof -
  from assms obtain ms where ms: "queue_rep True (gmsgq (shared s)) ms" "2 \<le> length ms" by (auto simp: stuck_def)
  then obtain vs v where vs: "ms = vs @ [v]" by (cases ms rule: rev_cases) auto
  with ms signal_test_rep [of True "shared s" vs v] show ?thesis by auto
qed

lemma push_request_queue:
  assumes "queue_rep True (gmsgq g) ms" "push_request req f p now g = Inr g'"
  shows "\<exists>ms'. queue_rep True (gmsgq g') (ms @ ms') \<and> length ms' \<le> 1"
proof -
  from assms(2) have "\<exists>s n. push_to_msgq (conns g) (num_peers (cfg g)) (gmsgq g) (gtsidq g)
      (glast_con_rr g) (Some s) n req now f p = Inr (gmsgq g', gtsidq g', glast_con_rr g')"
    by (auto simp: push_request_def outcome_iffs) blast
  then obtain s n where p: "push_to_msgq (conns g) (num_peers (cfg g)) (gmsgq g) (gtsidq g)
      (glast_con_rr g) (Some s) n req now f p = Inr (gmsgq g', gtsidq g', glast_con_rr g')" by blast
  show ?thesis
  proof (cases "s = []")
    case True
    from assms(1) obtain xs where xs: "chain True (qmem (gmsgq g)) (qhead (gmsgq g)) xs" "map snd xs = ms"
      "mem_ok (qmem (gmsgq g))" by (auto simp: queue_rep_def)
    obtain t m where tm: "calloc_cell msg_zero (qmem (gmsgq g)) = (t, m)" by force
    have "queue_rep True ((gmsgq g)\<lparr>qmem := m\<rparr>) ms"
      using calloc_cell_chain [OF xs(3,1) tm] xs(2) by (auto simp: queue_rep_def)
    moreover have "gmsgq g' = (gmsgq g)\<lparr>qmem := m\<rparr>" using True p tm by (simp add: push_to_msgq_def)
    ultimately show ?thesis by (intro exI [of _ "[]"]) simp
  next
    case False
    with p have "\<exists>v. enqueue (gmsgq g) v = Inr (gmsgq g')"
      by (auto simp: push_to_msgq_def outcome_iffs)
    then obtain v where "enqueue (gmsgq g) v = Inr (gmsgq g')" by blast
    with enqueue_rep [OF assms(1), of v] show ?thesis by (intro exI [of _ "[v]"]) auto
  qed
qed

lemma recv_round_gmsgq:
  assumes "recv_round i ds socks now rc g = Inr (g', rc', sk, ev)"
  shows "gmsgq g' = gmsgq g"
proof -
  from assms obtain cl where "g' = g\<lparr>conns := set_con_state i 0 cl\<rparr> \<or>
     (\<exists>message rc ev. handle_message now message rc (g\<lparr>conns := cl\<rparr>) = Inr (g', ev))"
    by (auto simp: recv_round_def outcome_iffs Let_def split: if_splits)
  then show ?thesis
  proof (elim disjE exE)
    fix message rc ev
    assume "handle_message now message rc (g\<lparr>conns := cl\<rparr>) = Inr (g', ev)"
    with handle_one_event [of "g\<lparr>conns := cl\<rparr>" now message rc]
    have "g' = g\<lparr>conns := cl, gtsidq := gtsidq g'\<rparr>" by (simp add: one_event_def)
    then have "gmsgq g' = gmsgq (g\<lparr>conns := cl, gtsidq := gtsidq g'\<rparr>)" by (rule arg_cong)
    then show ?thesis by simp
  qed simp
qed

lemma qmanager_round_ok: "queues_ok g \<Longrightarrow> qmanager_round nows g = Inr g' \<Longrightarrow> queues_ok g' \<and> gmsgq g' = gmsgq g"
proof -
  assume g: "queues_ok g" "qmanager_round nows g = Inr g'"
  then obtain b where b: "broker_rep g b" "broker_ok (num_peers (cfg g)) b" "num_peers (cfg g) = int (length (conns g))"
    by (auto simp: queues_ok_def)
  with qmanager_round_expires [OF b(1) g(2)] show ?thesis using broker_ok_expire [OF b(2)] b(3) by (auto intro: queues_okI)
qed

lemma stuck_step:
  assumes "tstep s (Inr s')" "stuck s"
  shows "stuck s' \<and> length (senders s') = length (senders s)"
proof -
  from assms(2) obtain ms where st: "\<forall>j < length (senders s). senders s ! j = Sender_waits"
    "queues_ok (shared s)" "queue_rep True (gmsgq (shared s)) ms" "2 \<le> length ms" by (auto simp: stuck_def)
  from assms(1) show ?thesis
  proof (cases rule: tstep.cases)
    case (client_pushes i req f p now)
    then obtain g where g: "push_request req f p now (shared s) = Inr g"
      "s' = s\<lparr>shared := g, clients := (clients s)[i := Client_pushed]\<rparr>" by (auto simp: outcome_iffs)
    from push_request_queue [OF st(3) g(1)] obtain ms' where "queue_rep True (gmsgq g) (ms @ ms')" by blast
    moreover have "queues_ok g" by (rule push_request_ok [OF st(2) g(1)])
    ultimately show ?thesis using st g(2) by (auto simp: stuck_def intro!: exI [of _ "ms @ ms'"])
  next
    case (client_signals i j)
    with stuck_no_signal [OF assms(2)] show ?thesis by simp
  next
    case (receiver_receives k ds socks now rc)
    then obtain g rc' sk ev where g: "recv_round k ds socks now rc (shared s) = Inr (g, rc', sk, ev)"
      "s' = s\<lparr>shared := g\<rparr>" by (auto simp: outcome_iffs)
    with recv_round_gmsgq [OF g(1)] recv_round_ok [OF st(2) g(1)] st show ?thesis by (auto simp: stuck_def)
  next
    case (manager_marks nows)
    then obtain g where g: "qmanager_round nows (shared s) = Inr g" "s' = s\<lparr>shared := g\<rparr>"
      by (auto simp: outcome_iffs)
    with qmanager_round_ok [OF st(2) g(1)] st show ?thesis by (auto simp: stuck_def)
  qed (use st assms(2) in \<open>auto simp: stuck_def queues_ok_def\<close>)
qed

interpretation blocked: safe_steps tnext stuck
  by unfold_locales (auto simp: tnext_def dest: stuck_step)

lemma stuck_steps:
  assumes "tnext\<^sup>*\<^sup>* s s'" "stuck s"
  shows "stuck s' \<and> length (senders s') = length (senders s)"
  using blocked.run_keeps [OF assms] blocked.run_keeps_image [OF _ assms, of "\<lambda>s. length (senders s)"] stuck_step
  by (auto simp: tnext_def)

lemma stuckI:
  assumes "queues_ok (shared s)" "signal_test (shared s) = Inr False"
    and "\<forall>j < length (senders s). senders s ! j = Sender_waits"
  shows "stuck s"
proof -
  from assms(1) obtain ms where ms: "queue_rep True (gmsgq (shared s)) ms"
    by (auto simp: queues_ok_def broker_rep_def)
  have "2 \<le> length ms"
  proof (cases ms rule: rev_cases)
    case Nil
    with queue_rep_null [OF ms] assms(2) show ?thesis by (simp add: signal_test_def)
  next
    case (snoc vs v)
    with ms signal_test_rep [of True "shared s" vs v] assms(2) show ?thesis by (cases vs) auto
  qed
  with assms(1,3) ms show ?thesis by (auto simp: stuck_def)
qed

subsection \<open>Properties\<close>

text \<open>One peer that is up, its sender at the top of its loop, and two clients.\<close>

definition threads_start :: tstate where
  "threads_start = \<lparr>shared = glob_one, clients = [Client_idle, Client_idle], senders = [Sender_checks]\<rparr>"

text \<open>Both clients push while the sender waits; then both test and find two messages.\<close>

lemma lost_wakeup_run:
  "\<exists>s. tnext\<^sup>*\<^sup>* threads_start s \<and> stuck s \<and> clients s = [Client_idle, Client_idle]"
proof -
  have "case push_request 5 11 12 (Timeval 1 0) glob_one of Inl e \<Rightarrow> False | Inr g1 \<Rightarrow>
      (case push_request 6 11 12 (Timeval 1 0) g1 of Inl e \<Rightarrow> False | Inr g2 \<Rightarrow> signal_test g2 = Inr False)"
    by code_simp
  then obtain g1 g2 where g: "push_request 5 11 12 (Timeval 1 0) glob_one = Inr g1"
    "push_request 6 11 12 (Timeval 1 0) g1 = Inr g2" "signal_test g2 = Inr False"
    by (auto simp: res_case_iff)
  have c: "sender_check glob_one = Sender_waits"
    by (simp add: sender_check_def glob_one_def glob_demo_def mk_queue_def)
  let ?s = "\<lambda>g cs. \<lparr>shared = g, clients = cs, senders = [Sender_waits]\<rparr>"
  have "tnext threads_start (?s glob_one [Client_idle, Client_idle])"
    using sender_checks [of 0 threads_start] c by (simp add: tnext_def threads_start_def)
  moreover have "tnext (?s glob_one [Client_idle, Client_idle]) (?s g1 [Client_pushed, Client_idle])"
    using client_pushes [of 0 "?s glob_one [Client_idle, Client_idle]" 5 11 12 "Timeval 1 0"] g(1)
    by (simp add: tnext_def)
  moreover have "tnext (?s g1 [Client_pushed, Client_idle]) (?s g2 [Client_pushed, Client_pushed])"
    using client_pushes [of 1 "?s g1 [Client_pushed, Client_idle]" 6 11 12 "Timeval 1 0"] g(2)
    by (simp add: tnext_def)
  moreover have "tnext (?s g2 [Client_pushed, Client_pushed]) (?s g2 [Client_idle, Client_pushed])"
    using client_no_signal [of 0 "?s g2 [Client_pushed, Client_pushed]"] g(3) by (simp add: tnext_def)
  moreover have "tnext (?s g2 [Client_idle, Client_pushed]) (?s g2 [Client_idle, Client_idle])"
    using client_no_signal [of 1 "?s g2 [Client_idle, Client_pushed]"] g(3) by (simp add: tnext_def)
  ultimately have "tnext\<^sup>*\<^sup>* threads_start (?s g2 [Client_idle, Client_idle])"
    by (meson rtranclp.rtrancl_into_rtrancl rtranclp.rtrancl_refl)
  moreover have "queues_ok g2"
    by (rule push_request_ok [OF push_request_ok [OF glob_one_ok(1) g(1)] g(2)])
  then have "stuck (?s g2 [Client_idle, Client_idle])" using g(3) by (intro stuckI) simp_all
  ultimately show ?thesis by (intro exI [of _ "?s g2 [Client_idle, Client_idle]"]) simp
qed

lemma stuck_woken:
  assumes "stuck s" "spurious s s'"
  shows "\<exists>j s2. senders s' ! j = Sender_checks \<and> tnext s' s2 \<and> senders s2 ! j = Sender_runs"
proof -
  from assms(2) obtain j where j: "j < length (senders s)" "s' = s\<lparr>senders := (senders s)[j := Sender_checks]\<rparr>"
    by (auto elim: spuriousE)
  from assms(1) obtain ms where ms: "queue_rep True (gmsgq (shared s)) ms" "2 \<le> length ms" by (auto simp: stuck_def)
  have "sender_check (shared s) = Sender_runs" using queue_rep_null [OF ms(1)] ms(2) by (auto simp: sender_check_def)
  with sender_checks [of j s'] j have "tnext s' (s'\<lparr>senders := (senders s')[j := Sender_runs]\<rparr>)" by (simp add: tnext_def)
  with j show ?thesis by (intro exI [of _ j] exI [of _ "s'\<lparr>senders := (senders s')[j := Sender_runs]\<rparr>"]) simp
qed

text \<open>C31. Two messages queued while every sender waits are not sent as long as no wait ends by itself
  (a spurious wake-up, which POSIX allows but never promises): no later step of any thread,
  in particular no further request, wakes a sender or shortens the queue. Nothing but the
  signal is missing: a sender that did wake up by itself would find the queue filled and run.\<close>

theorem two_queued_messages_block_all_senders:
  assumes "tnext\<^sup>*\<^sup>* s s'" "queues_ok (shared s)" "queue_rep True (gmsgq (shared s)) ms" "2 \<le> length ms"
    and "\<forall>j < length (senders s). senders s ! j = Sender_waits"
  shows "(\<forall>j < length (senders s). senders s' ! j = Sender_waits) \<and>
    (\<exists>ms'. queue_rep True (gmsgq (shared s')) ms' \<and> 2 \<le> length ms') \<and>
    (\<forall>s2. spurious s' s2 \<longrightarrow> (\<exists>j s3. senders s2 ! j = Sender_checks \<and> tnext s2 s3 \<and> senders s3 ! j = Sender_runs))"
proof -
  have "stuck s" using assms(2-5) by (auto simp: stuck_def)
  note s' = stuck_steps [OF assms(1) this]
  have "\<forall>s2. spurious s' s2 \<longrightarrow> (\<exists>j s3. senders s2 ! j = Sender_checks \<and> tnext s2 s3 \<and> senders s3 ! j = Sender_runs)"
    using stuck_woken s' by blast
  with s' show ?thesis by (simp add: stuck_def)
qed

theorem two_queued_messages_block_all_senders_witness:
  "\<exists>s. tnext\<^sup>*\<^sup>* threads_start s \<and> (\<forall>s'. tnext\<^sup>*\<^sup>* s s' \<longrightarrow>
    (\<forall>j < length (senders s). senders s' ! j = Sender_waits) \<and>
    (\<exists>ms'. queue_rep True (gmsgq (shared s')) ms' \<and> 2 \<le> length ms'))"
proof -
  from lost_wakeup_run obtain s where s: "tnext\<^sup>*\<^sup>* threads_start s" "stuck s" by blast
  then obtain ms where "queues_ok (shared s)" "queue_rep True (gmsgq (shared s)) ms" "2 \<le> length ms"
    "\<forall>j < length (senders s). senders s ! j = Sender_waits" by (auto simp: stuck_def)
  from two_queued_messages_block_all_senders [OF _ this] s(1) show ?thesis by blast
qed

text \<open>This state is reached: with one peer, whose sender waits, two clients that both push
  before either makes its wake-up test return without waking it, and both messages stay.\<close>

theorem two_clients_lose_the_wakeup:
  "\<exists>s ms. tnext\<^sup>*\<^sup>* threads_start s \<and> clients s = [Client_idle, Client_idle] \<and> queues_ok (shared s) \<and>
     queue_rep True (gmsgq (shared s)) ms \<and> 2 \<le> length ms \<and> list_all (\<lambda>pc. pc = Sender_waits) (senders s)"
  using lost_wakeup_run by (auto simp: stuck_def list_all_length)

text \<open>C34. The wake-up test races with the senders, also with a single peer and sound requests. A client
  has pushed the only message; its test would find it and signal. Before the test, the sender,
  which is awake, takes the message (no step of a client comes in between), and now the test reads through a NULL
  \<open>gmsgq\<close>.\<close>

theorem wakeup_test_races_with_sender:
  "\<exists>s1 s2 v g. push_request 5 11 12 (Timeval 1 0) glob_one = Inr g \<and>
    s1 = threads_start\<lparr>shared := g, clients := [Client_pushed, Client_idle]\<rparr> \<and> tnext threads_start s1 \<and>
    queue_rep True (gmsgq (shared s1)) [v] \<and> signal_test (shared s1) = Inr True \<and>
    tnext\<^sup>*\<^sup>* s1 s2 \<and> clients s2 = clients s1 \<and> queue_rep True (gmsgq (shared s2)) [] \<and>
    signal_test (shared s2) = Inl (UB Null_Deref) \<and> tstep s2 (Inl (UB Null_Deref))"
proof -
  have "case push_request 5 11 12 (Timeval 1 0) glob_one of Inl e \<Rightarrow> False | Inr g1 \<Rightarrow>
      sender_check g1 = Sender_runs \<and>
      (case sender_pop 0 (dial_ok 9) g1 of Inl e \<Rightarrow> False | Inr (pc, g2) \<Rightarrow>
         pc = Sender_popped 1 \<and> signal_test g2 = Inl (UB Null_Deref))"
    by code_simp
  then obtain g1 g2 where g: "push_request 5 11 12 (Timeval 1 0) glob_one = Inr g1" "sender_check g1 = Sender_runs"
    "sender_pop 0 (dial_ok 9) g1 = Inr (Sender_popped 1, g2)" "signal_test g2 = Inl (UB Null_Deref)"
    by (auto simp: res_case_iff)
  have "queue_rep True (gmsgq glob_one) []" using glob_demo_rep(1) by (simp add: broker_rep_def glob_one_def broker_empty_def)
  from push_request_queue [OF this g(1)] obtain ms where ms: "queue_rep True (gmsgq g1) ms" "length ms \<le> 1" by auto
  have "ms \<noteq> []" using queue_rep_null [OF ms(1)] g(2) by (auto simp: sender_check_def)
  with ms(2) obtain v where v: "ms = [v]" by (cases ms) auto
  have "conns g1 = conns glob_one" using g(1) by (auto simp: push_request_def outcome_iffs)
  then have pop: "pop_from_msgq (gmsgq g1) 0 = Inr (1, gmsgq g2)"
    using g(3) by (auto simp: sender_pop_def glob_one_def outcome_iffs split: if_splits)
  have q2: "queue_rep True (gmsgq g2) []"
  proof (cases "for_conn 0 v")
    case True
    with pop_head [of "gmsgq g1" v "[]" 0] ms(1) v pop show ?thesis by auto
  next
    case False
    with pop_none [OF ms(1), of 0] v pop show ?thesis by simp
  qed
  let ?s = "\<lambda>g pc. \<lparr>shared = g, clients = [Client_pushed, Client_idle], senders = [pc]\<rparr>"
  have 1: "tnext threads_start (?s g1 Sender_checks)"
    using client_pushes [of 0 threads_start 5 11 12 "Timeval 1 0"] g(1) by (simp add: tnext_def threads_start_def)
  have "tnext (?s g1 Sender_checks) (?s g1 Sender_runs)"
    using sender_checks [of 0 "?s g1 Sender_checks"] g(2) by (simp add: tnext_def)
  moreover have "tnext (?s g1 Sender_runs) (?s g2 (Sender_popped 1))"
    using sender_pops [of 0 "?s g1 Sender_runs" "dial_ok 9"] g(3) by (simp add: tnext_def)
  ultimately have 2: "tnext\<^sup>*\<^sup>* (?s g1 Sender_checks) (?s g2 (Sender_popped 1))"
    by (meson rtranclp.rtrancl_into_rtrancl rtranclp.rtrancl_refl)
  have "tstep (?s g2 (Sender_popped 1)) (Inl (UB Null_Deref))"
    using g(4) by (intro client_tests_fault [of 0]) simp_all
  moreover have "signal_test g1 = Inr True" using signal_test_rep [of True g1 "[]" v] ms(1) v by simp
  moreover have "threads_start\<lparr>shared := g1, clients := [Client_pushed, Client_idle]\<rparr> = ?s g1 Sender_checks"
    by (simp add: threads_start_def)
  ultimately show ?thesis using g(1,4) 1 2 ms(1) v q2
    by (intro exI [of _ "?s g1 Sender_checks"] exI [of _ "?s g2 (Sender_popped 1)"] exI [of _ v] exI [of _ g1]) simp
qed

end
