(* ===== verification/Interleave.thy ===== *)
theory Interleave
  imports Delivery Threads
begin

section \<open>All threads, lock by lock\<close>

text \<open>
  \<open>Threads\<close> splits the rounds of clients and senders. Here the round of a receiver is split as well:
  one attempt to reconnect (under \<open>conntex\<close>), the receipt of a message, its interpretation with the
  look-up (under \<open>qtex\<close>) and the call, and the removal of the session (under \<open>qtex\<close> again). \<open>rc\<close> is the
  receiver's variable, which survives a round.
\<close>

datatype recv_pc = R_top int | R_read int | R_got "string option" int | R_remove string int

record fstate =
  thr :: tstate
  recvs :: "recv_pc list"      \<comment> \<open>the receiver of entry \<open>i\<close> of \<open>gconn_list\<close>\<close>

abbreviation fglob :: "fstate \<Rightarrow> glob" where
  "fglob s \<equiv> shared (thr s)"

definition set_glob :: "glob \<Rightarrow> fstate \<Rightarrow> fstate" where
  "set_glob g s = s\<lparr>thr := (thr s)\<lparr>shared := g\<rparr>\<rparr>"

definition set_recv :: "nat \<Rightarrow> recv_pc \<Rightarrow> fstate \<Rightarrow> fstate" where
  "set_recv j pc s = s\<lparr>recvs := (recvs s)[j := pc]\<rparr>"

subsection \<open>The interpretation of a message\<close>

text \<open>
  \<open>handle_message\<close> up to and including the call of a callback. The second component of the result is
  the transaction id whose session is still to be removed.
\<close>

definition respond_call :: "timeval \<Rightarrow> string option \<Rightarrow> int \<Rightarrow> glob \<Rightarrow> (event list \<times> string option) res" where
  "respond_call now message rc g =
     (let retc = atoi (attr_text message rc ''<REPLY_CODE>'' ''</REPLY_CODE>'');
          tid = attr_text message rc ''<TID>'' ''</TID>''
      in bindE (deliver_call now message tid retc g) (\<lambda>(ev, found). Inr (ev, if found then Some tid else None)))"

definition only_call :: "(glob \<times> event list) res \<Rightarrow> (event list \<times> string option) res" where
  "only_call r = bindE r (\<lambda>(g, ev). Inr (ev, None))"

definition handle_call :: "timeval \<Rightarrow> string option \<Rightarrow> int \<Rightarrow> glob \<Rightarrow> (event list \<times> string option) res" where
  "handle_call now message rc g =
     (let typ = attr message rc ''<TYPE>'' ''</TYPE>'';
          type1 = (atoi (attr_text message rc ''<TYPE>'' ''</TYPE>'') = 1)
      in if 0 < xc_len (attr message rc ''<EVENT>'' ''</EVENT>'') then
           (if 0 < xc_len typ then
              (if type1 then only_call (event_request now message rc g) else respond_call now message rc g)
            else Inr ([], None))
         else
           (if 0 < xc_len typ then
              (if type1 then only_call (session_request now message rc g)
               else if 0 < xc_len (attr message rc ''<SID>'' ''</SID>'')
               then only_call (session_response now message rc g)
               else respond_call now message rc g)
            else Inr ([], None)))"

text \<open>The removal that follows.\<close>

definition handle_remove :: "event list \<times> string option \<Rightarrow> glob \<Rightarrow> (glob \<times> event list) res" where
  "handle_remove evt g = (case snd evt of None \<Rightarrow> Inr (g, fst evt)
     | Some tid \<Rightarrow> bindE (deliver_remove tid g) (\<lambda>g. Inr (g, fst evt)))"

text \<open>Without interruption the two are \<open>handle_message\<close>.\<close>

lemma respond_halves:
  "bindE (respond_call now message rc g) (\<lambda>evt. handle_remove evt g) =
   deliver_response now message (attr_text message rc ''<TID>'' ''</TID>'')
     (atoi (attr_text message rc ''<REPLY_CODE>'' ''</REPLY_CODE>'')) g"
  unfolding deliver_halves respond_call_def Let_def
  by (cases "deliver_call now message (attr_text message rc ''<TID>'' ''</TID>'')
      (atoi (attr_text message rc ''<REPLY_CODE>'' ''</REPLY_CODE>'')) g") (auto simp: handle_remove_def)

lemma only_call_halves:
  "(\<And>g' ev. r = Inr (g', ev) \<Longrightarrow> g' = g) \<Longrightarrow> bindE (only_call r) (\<lambda>evt. handle_remove evt g) = r"
  by (cases r) (auto simp: only_call_def handle_remove_def)

lemma request_glob:
  "event_request now message rc g = Inr (g', ev) \<Longrightarrow> g' = g"
  "session_request now message rc g = Inr (g', ev) \<Longrightarrow> g' = g"
  by (auto simp: event_request_def session_request_def outcome_iffs Let_def split: if_splits)

lemma session_response_glob:
  "0 < xc_len (attr message rc ''<SID>'' ''</SID>'') \<Longrightarrow> session_response now message rc g = Inr (g', ev) \<Longrightarrow> g' = g"
  by (auto simp: session_response_def outcome_iffs Let_def)

lemma handle_halves:
  "handle_message now message rc g = bindE (handle_call now message rc g) (\<lambda>evt. handle_remove evt g)"
proof -
  have n: "bindE (Inr ([], None)) (\<lambda>evt. handle_remove evt g) = Inr (g, [])" by (simp add: handle_remove_def)
  have s: "session_response now message rc g = deliver_response now message (attr_text message rc ''<TID>'' ''</TID>'')
     (atoi (attr_text message rc ''<REPLY_CODE>'' ''</REPLY_CODE>'')) g"
    if "\<not> 0 < xc_len (attr message rc ''<SID>'' ''</SID>'')" using that by (simp add: session_response_def Let_def)
  have e: "event_response now message rc g = deliver_response now message (attr_text message rc ''<TID>'' ''</TID>'')
     (atoi (attr_text message rc ''<REPLY_CODE>'' ''</REPLY_CODE>'')) g" by (simp add: event_response_def Let_def)
  have c: "bindE (only_call (event_request now message rc g)) (\<lambda>evt. handle_remove evt g) = event_request now message rc g"
    "bindE (only_call (session_request now message rc g)) (\<lambda>evt. handle_remove evt g) = session_request now message rc g"
    "0 < xc_len (attr message rc ''<SID>'' ''</SID>'') \<Longrightarrow>
       bindE (only_call (session_response now message rc g)) (\<lambda>evt. handle_remove evt g) = session_response now message rc g"
    using request_glob session_response_glob by (blast intro: only_call_halves)+
  show ?thesis unfolding handle_message_def handle_call_def Let_def
    by (simp add: c n [simplified] s e respond_halves)
qed

subsection \<open>The step relation\<close>

inductive fstep :: "fstate \<Rightarrow> fstate res \<Rightarrow> bool" where
  f_thread: "tstep (thr s) r \<Longrightarrow> fstep s (bindE r (\<lambda>t. Inr (s\<lparr>thr := t\<rparr>)))"
| f_spurious: "spurious (thr s) t \<Longrightarrow> fstep s (Inr (s\<lparr>thr := t\<rparr>))"
| f_redials: "j < length (recvs s) \<Longrightarrow> recvs s ! j = R_top rc \<Longrightarrow> j < length (conns (fglob s)) \<Longrightarrow>
    state (conns (fglob s) ! j) \<noteq> 1 \<Longrightarrow>
    fstep s (bindE (recreate_conn (peer_id (conns (fglob s) ! j)) (cfg (fglob s)) d (conns (fglob s))) (\<lambda>cl.
      Inr (set_glob ((fglob s)\<lparr>conns := cl\<rparr>) s)))"
| f_is_up: "j < length (recvs s) \<Longrightarrow> recvs s ! j = R_top rc \<Longrightarrow> j < length (conns (fglob s)) \<Longrightarrow>
    state (conns (fglob s) ! j) = 1 \<Longrightarrow> fstep s (Inr (set_recv j (R_read rc) s))"
| f_receives: "j < length (recvs s) \<Longrightarrow> recvs s ! j = R_read rc \<Longrightarrow> j < length (conns (fglob s)) \<Longrightarrow>
    fstep s (bindE (receive_from_fd (socks (fd (conns (fglob s) ! j))) rc) (\<lambda>(message, rc, sk).
      Inr (if rc = 0
           then set_recv j (R_top rc) (set_glob ((fglob s)\<lparr>conns := set_con_state j 0 (conns (fglob s))\<rparr>) s)
           else set_recv j (R_got message rc) s)))"
| f_handles: "j < length (recvs s) \<Longrightarrow> recvs s ! j = R_got message rc \<Longrightarrow>
    fstep s (bindE (handle_call now message rc (fglob s)) (\<lambda>(ev, t).
      Inr (set_recv j (case t of None \<Rightarrow> R_top rc | Some tid \<Rightarrow> R_remove tid rc) s)))"
| f_removes: "j < length (recvs s) \<Longrightarrow> recvs s ! j = R_remove tid rc \<Longrightarrow>
    fstep s (bindE (deliver_remove tid (fglob s)) (\<lambda>g. Inr (set_recv j (R_top rc) (set_glob g s))))"

definition fnext :: "fstate \<Rightarrow> fstate \<Rightarrow> bool" where
  "fnext s s' \<longleftrightarrow> fstep s (Inr s')"

lemma set_glob_simps [simp]:
  "recvs (set_glob g s) = recvs s" "fglob (set_glob g s) = g" "senders (thr (set_glob g s)) = senders (thr s)"
  "set_glob g (set_glob g' s) = set_glob g s" "set_glob (fglob s) s = s"
  "fglob (set_recv j pc s) = fglob s" "recvs (set_recv j pc s) = (recvs s)[j := pc]" "thr (set_recv j pc s) = thr s"
  "set_recv j pc (set_recv j pc' s) = set_recv j pc s" "set_glob g (set_recv j pc s) = set_recv j pc (set_glob g s)"
  by (simp_all add: set_glob_def set_recv_def)

text \<open>A whole round of a receiver is a sequence of these steps.\<close>

lemma reconnect_steps:
  "reconnect_loop j (cfg (fglob s)) ds (conns (fglob s)) = Inr cl \<Longrightarrow> j < length (recvs s) \<Longrightarrow> recvs s ! j = R_top rc \<Longrightarrow>
   fnext\<^sup>*\<^sup>* s (set_recv j (R_read rc) (set_glob ((fglob s)\<lparr>conns := cl\<rparr>) s)) \<and> j < length cl"
proof (induction ds arbitrary: s)
  case Nil
  then have up: "j < length (conns (fglob s))" "state (conns (fglob s) ! j) = 1" "cl = conns (fglob s)"
    by (auto simp: reconnect_loop.simps [of _ _ "[]"] split: if_splits)
  then have "fnext s (set_recv j (R_read rc) s)" using f_is_up [OF Nil(2,3)] by (simp add: fnext_def)
  with up show ?case by auto
next
  case (Cons d ds)
  show ?case
  proof (cases "state (conns (fglob s) ! j) = 1")
    case True
    with Cons.prems(1) have up: "j < length (conns (fglob s))" "cl = conns (fglob s)"
      by (auto simp: reconnect_loop.simps [of _ _ "d # ds"] split: if_splits)
    then have "fnext s (set_recv j (R_read rc) s)" using f_is_up [OF Cons.prems(2,3)] True by (simp add: fnext_def)
    with up show ?thesis by auto
  next
    case False
    with Cons.prems(1) obtain cl1 where c: "j < length (conns (fglob s))"
      "recreate_conn (peer_id (conns (fglob s) ! j)) (cfg (fglob s)) d (conns (fglob s)) = Inr cl1"
      "reconnect_loop j (cfg (fglob s)) ds cl1 = Inr cl"
      by (auto simp: reconnect_loop.simps [of _ _ "d # ds"] outcome_iffs split: if_splits)
    let ?s = "set_glob ((fglob s)\<lparr>conns := cl1\<rparr>) s"
    have "fnext s ?s" using f_redials [OF Cons.prems(2,3) c(1) False, of d] c(2) by (simp add: fnext_def)
    moreover from Cons.IH [of ?s] c(3) Cons.prems(2,3)
    have "fnext\<^sup>*\<^sup>* ?s (set_recv j (R_read rc) (set_glob ((fglob s)\<lparr>conns := cl\<rparr>) s)) \<and> j < length cl" by simp
    ultimately show ?thesis by (meson converse_rtranclp_into_rtranclp)
  qed
qed

lemma receiver_round_steps:
  assumes "recv_round j ds socks now rc (fglob s) = Inr (g', rc', sk, ev)" "j < length (recvs s)" "recvs s ! j = R_top rc"
  shows "fnext\<^sup>*\<^sup>* s (set_recv j (R_top rc') (set_glob g' s))"
proof -
  from assms(1) obtain cl message where c: "reconnect_loop j (cfg (fglob s)) ds (conns (fglob s)) = Inr cl"
    "receive_from_fd (socks (fd (cl ! j))) rc = Inr (message, rc', sk)"
    "if rc' = 0 then g' = (fglob s)\<lparr>conns := set_con_state j 0 cl\<rparr>
     else handle_message now message rc' ((fglob s)\<lparr>conns := cl\<rparr>) = Inr (g', ev)"
    by (auto simp: recv_round_def outcome_iffs Let_def split: if_splits)
  let ?g = "(fglob s)\<lparr>conns := cl\<rparr>"
  let ?s = "\<lambda>pc g. set_recv j pc (set_glob g s)"
  from reconnect_steps [OF c(1) assms(2,3)] have 1: "fnext\<^sup>*\<^sup>* s (?s (R_read rc) ?g)" and j: "j < length cl" by auto
  have rcv: "fstep (?s (R_read rc) ?g) (bindE (receive_from_fd (socks (fd (cl ! j))) rc) (\<lambda>(message, rc, sk).
      Inr (if rc = 0 then ?s (R_top rc) (?g\<lparr>conns := set_con_state j 0 cl\<rparr>) else ?s (R_got message rc) ?g)))"
    using f_receives [of j "?s (R_read rc) ?g" rc socks] assms(2) j by (simp cong: if_cong)
  show ?thesis
  proof (cases "rc' = 0")
    case True
    with rcv c(2,3) have "fnext (?s (R_read rc) ?g) (?s (R_top rc') g')" by (simp add: fnext_def)
    with 1 show ?thesis by (rule rtranclp.rtrancl_into_rtrancl)
  next
    case False
    with rcv c(2) have 2: "fnext (?s (R_read rc) ?g) (?s (R_got message rc') ?g)" by (simp add: fnext_def)
    from c(3) False obtain evt where h: "handle_call now message rc' ?g = Inr evt" "handle_remove evt ?g = Inr (g', ev)"
      unfolding handle_halves by (auto simp: bindE_Inr_iff)
    obtain es t where t: "evt = (es, t)" by force
    have 3: "fnext (?s (R_got message rc') ?g) (?s (case t of None \<Rightarrow> R_top rc' | Some tid \<Rightarrow> R_remove tid rc') ?g)"
      using f_handles [of j "?s (R_got message rc') ?g" message rc' now] assms(2) h(1) t by (simp add: fnext_def)
    have "fnext\<^sup>*\<^sup>* (?s (case t of None \<Rightarrow> R_top rc' | Some tid \<Rightarrow> R_remove tid rc') ?g) (?s (R_top rc') g')"
    proof (cases t)
      case None
      with h(2) t show ?thesis by (simp add: handle_remove_def)
    next
      case (Some tid)
      with h(2) t have "deliver_remove tid ?g = Inr g'" by (auto simp: handle_remove_def outcome_iffs)
      with f_removes [of j "?s (R_remove tid rc') ?g" tid rc'] assms(2) Some show ?thesis by (auto simp: fnext_def)
    qed
    with 1 2 3 show ?thesis by (meson rtranclp.rtrancl_into_rtrancl rtranclp_trans)
  qed
qed

subsection \<open>A node outside the queue\<close>

text \<open>The node a sender has taken out and not yet freed: it exists, and the queue does not lead to it.\<close>

definition outside :: "msgque_t lqueue \<Rightarrow> addr \<Rightarrow> bool" where
  "outside q a \<longleftrightarrow> cells (qmem q) a \<noteq> None \<and> (\<forall>xs. chain True (qmem q) (qhead q) xs \<longrightarrow> a \<notin> fst ` set xs)"

lemma outside_calloc:
  assumes "queue_rep True q ms" "outside q a"
  shows "outside (q\<lparr>qmem := snd (calloc_cell v (qmem q))\<rparr>) a"
proof -
  obtain t m where tm: "calloc_cell v (qmem q) = (t, m)" by force
  from assms(1) obtain xs where xs: "chain True (qmem q) (qhead q) xs" "mem_ok (qmem q)" by (auto simp: queue_rep_def)
  note c = calloc_cell_chain [OF xs(2,1) tm]
  have "cells (qmem q) t = None" using c(6) xs(2) by simp
  then have "cells m a \<noteq> None" using assms(2) c(5) c(8) [of a] by (cases "a = t") (auto simp: outside_def)
  moreover have "a \<notin> fst ` set ys" if "chain True m (qhead q) ys" for ys
    using chain_unique [OF that c(1)] assms(2) xs(1) by (simp add: outside_def)
  ultimately show ?thesis using tm by (simp add: outside_def)
qed

lemma outside_enqueue:
  assumes "queue_rep True q ms" "outside q a" "enqueue q v = Inr q'"
  shows "outside q' a"
proof -
  obtain t m where tm: "calloc_cell msg_zero (qmem q) = (t, m)" by force
  from assms(1) obtain xs where xs: "chain True (qmem q) (qhead q) xs" "mem_ok (qmem q)" by (auto simp: queue_rep_def)
  note c = calloc_cell_chain [OF xs(2,1) tm]
  let ?m = "m\<lparr>cells := (cells m)(t \<mapsto> \<lparr>c_val = v, c_prev = 0, c_next = 0\<rparr>)\<rparr>"
  have sv: "set_val m t v = Inr ?m" using c by (simp add: set_val_def modify_def)
  have ch: "chain True ?m (qhead q) xs" using c(1,4) by (simp add: chain_def)
  from link_last_chain [OF ch mem_ok_upd [OF c(2,5)] c(4), of v] obtain h m' where
    l: "link_last ?m (qhead q) t = Inr (h, m')" "chain True m' h (xs @ [(t, v)])"
    "\<forall>b. b \<noteq> t \<and> b \<notin> fst ` set xs \<longrightarrow> cells m' b = cells ?m b" by auto
  have q': "q' = \<lparr>qhead = h, qmem = m'\<rparr>" using assms(3) tm sv l(1) by (simp add: enqueue_def)
  have at: "a \<noteq> t" "a \<notin> fst ` set xs"
    using assms(2) xs c(6) by (auto simp: outside_def)
  then have "cells m' a = cells (qmem q) a" using l(3) c(8) by simp
  moreover have "a \<notin> fst ` set ys" if "chain True m' h ys" for ys
    using chain_unique [OF that l(2)] at by simp
  ultimately show ?thesis using assms(2) q' by (simp add: outside_def)
qed

lemma outside_push:
  assumes "queue_rep True (gmsgq g) ms" "outside (gmsgq g) a" "push_request req f p now g = Inr g'"
  shows "outside (gmsgq g') a"
proof -
  from assms(3) obtain s n where p: "push_to_msgq (conns g) (num_peers (cfg g)) (gmsgq g) (gtsidq g)
      (glast_con_rr g) (Some s) n req now f p = Inr (gmsgq g', gtsidq g', glast_con_rr g')"
    by (auto simp: push_request_def outcome_iffs)
  show ?thesis
  proof (cases "s = []")
    case True
    with p outside_calloc [OF assms(1,2), of msg_zero] show ?thesis by (auto simp: push_to_msgq_def)
  next
    case False
    with p obtain v where "enqueue (gmsgq g) v = Inr (gmsgq g')" by (auto simp: push_to_msgq_def outcome_iffs)
    with outside_enqueue [OF assms(1,2)] show ?thesis by blast
  qed
qed

lemma outside_free:
  assumes "queue_rep True q ms" "outside q a"
  shows "\<exists>m. free_cell (qmem q) a = Inr m \<and> queue_rep True (q\<lparr>qmem := m\<rparr>) ms"
proof -
  from assms(1) obtain xs where xs: "chain True (qmem q) (qhead q) xs" "map snd xs = ms" "mem_ok (qmem q)"
    by (auto simp: queue_rep_def)
  from assms(2) obtain c where c: "cells (qmem q) a = Some c" "a \<notin> fst ` set xs" using xs(1) by (auto simp: outside_def)
  with queue_rep_free [OF xs(1,3) c(2) _ c(1)] xs(2) mem_okD [OF xs(3) c(1)] show ?thesis by auto
qed

lemma pop_outside:
  assumes "queue_rep True q ms" "find (for_conn con) ms = Some v" "\<not> tail_only con ms" "pop_from_msgq q con = Inr (a, q')"
  shows "outside q' a"
proof -
  from pop_some [OF assms(1-3)] assms(4) obtain m where p: "queue_rep True q' (rem_first (for_conn con) ms)" "a \<noteq> 0"
    "cells (qmem q') a \<noteq> None" "free_cell (qmem q') a = Inr m" "queue_rep True (q'\<lparr>qmem := m\<rparr>) (rem_first (for_conn con) ms)" by auto
  from p(2-4) have m: "m = (qmem q')\<lparr>cells := (cells (qmem q'))(a := None)\<rparr>" by (auto simp: free_cell_def)
  from p(5) obtain xs where xs: "chain True m (qhead q') xs" by (auto simp: queue_rep_def)
  have a: "a \<notin> fst ` set xs"
  proof
    assume "a \<in> fst ` set xs"
    with seg_cells [of True m 0 "qhead q'" xs 0 a] xs have "\<exists>c. cells m a = Some c" by (simp add: chain_def)
    with m show False by simp
  qed
  then have "chain True (qmem q') (qhead q') xs" using xs m by (simp add: chain_def)
  with a p(3) show ?thesis by (auto simp: outside_def dest: chain_unique)
qed

subsection \<open>The invariant with one peer\<close>

definition finv :: "fstate \<Rightarrow> bool" where
  "finv s \<longleftrightarrow> queues_ok (fglob s) \<and> num_peers (cfg (fglob s)) = 1 \<and> length (senders (thr s)) = 1 \<and>
     (\<forall>node. senders (thr s) ! 0 = Sender_popped node \<longrightarrow> outside (gmsgq (fglob s)) node)"

lemma finv_glob:
  assumes "finv s" "queues_ok g" "cfg g = cfg (fglob s)" "gmsgq g = gmsgq (fglob s)"
    and "fglob s' = g" "senders (thr s') = senders (thr s)"
  shows "finv s'"
  using assms by (simp add: finv_def)

lemma queues_ok_free:
  assumes "queues_ok g" "outside (gmsgq g) a"
  shows "\<exists>m. free_cell (qmem (gmsgq g)) a = Inr m \<and> queues_ok (g\<lparr>gmsgq := (gmsgq g)\<lparr>qmem := m\<rparr>\<rparr>)"
proof -
  from assms(1) obtain b where b: "broker_rep g b" "broker_ok (num_peers (cfg g)) b" "num_peers (cfg g) = int (length (conns g))"
    by (auto simp: queues_ok_def)
  then have "queue_rep True (gmsgq g) (b_queue b)" by (simp add: broker_rep_def)
  from outside_free [OF this assms(2)] obtain m where "free_cell (qmem (gmsgq g)) a = Inr m"
    "queue_rep True ((gmsgq g)\<lparr>qmem := m\<rparr>) (b_queue b)" by blast
  with b show ?thesis by (intro exI [of _ m] conjI queues_okI [of _ b]) (simp_all add: broker_rep_def)
qed

lemma pop_one_peer:
  assumes "queues_ok g" "num_peers (cfg g) = 1"
  shows "\<exists>a mq. pop_from_msgq (gmsgq g) con = Inr (a, mq) \<and> queues_ok (g\<lparr>gmsgq := mq\<rparr>) \<and> (a \<noteq> 0 \<longrightarrow> outside mq a)"
proof -
  from assms(1) obtain b where b: "broker_rep g b" "broker_ok (num_peers (cfg g)) b" "num_peers (cfg g) = int (length (conns g))"
    by (auto simp: queues_ok_def)
  then have q: "queue_rep True (gmsgq g) (b_queue b)" by (simp add: broker_rep_def)
  show ?thesis
  proof (cases "find (for_conn con) (b_queue b)")
    case None
    with pop_none [OF q] assms(1) show ?thesis by simp
  next
    case (Some v)
    let ?g = "g\<lparr>conns := [\<lparr>fd = 0, state = 0, peer_id = con\<rparr>]\<rparr>"
    have "queues_ok ?g" using queues_ok_conns [OF assms(1), of "[\<lparr>fd = 0, state = 0, peer_id = con\<rparr>]"] assms(2) b(3) by simp
    from one_peer_no_tail [OF this, of 0] assms(2) q have nt: "\<not> tail_only con (b_queue b)" by (auto simp: sends_tail_def)
    from pop_refines [OF b(1) Some nt] obtain a mq where p: "pop_from_msgq (gmsgq g) con = Inr (a, mq)"
      "broker_rep (g\<lparr>gmsgq := mq\<rparr>) (b_take con b)" by blast
    from pop_outside [OF q Some nt p(1)] have "outside mq a" .
    moreover have "queues_ok (g\<lparr>gmsgq := mq\<rparr>)"
      using p(2) broker_ok_take [OF b(2), of con] b(3) by (intro queues_okI [of _ "b_take con b"]) simp_all
    ultimately show ?thesis using p(1) by blast
  qed
qed

lemma push_request_cfg: "push_request req f p now g = Inr g' \<Longrightarrow> cfg g' = cfg g"
  by (auto simp: push_request_def outcome_iffs)

lemma tstep_finv:
  assumes "tstep (thr s) (Inr t)" "finv s"
  shows "finv (s\<lparr>thr := t\<rparr>)"
proof -
  let ?g = "fglob s"
  have i: "queues_ok ?g" "num_peers (cfg ?g) = 1" "length (senders (thr s)) = 1"
    "\<forall>node. senders (thr s) ! 0 = Sender_popped node \<longrightarrow> outside (gmsgq ?g) node" using assms(2) by (auto simp: finv_def)
  from i(1) obtain ms where q: "queue_rep True (gmsgq ?g) ms" by (auto simp: queues_ok_def broker_rep_def)
  from assms(1) show ?thesis
  proof (cases rule: tstep.cases)
    case (client_pushes k req f p now)
    then obtain g where g: "push_request req f p now ?g = Inr g" "t = (thr s)\<lparr>shared := g, clients := (clients (thr s))[k := Client_pushed]\<rparr>"
      by (auto simp: outcome_iffs)
    with push_request_ok [OF i(1) g(1)] push_request_cfg [OF g(1)] outside_push [OF q _ g(1)] i show ?thesis by (simp add: finv_def)
  next
    case (sender_checks j)
    then show ?thesis using i by (auto simp: finv_def sender_check_def)
  next
    case (sender_pops j d)
    then obtain pc g where g: "sender_pop j d ?g = Inr (pc, g)" "t = (thr s)\<lparr>shared := g, senders := (senders (thr s))[j := pc]\<rparr>"
      by (auto simp: outcome_iffs)
    from g(1) obtain cl a mq where c: "length cl = length (conns ?g)" "pop_from_msgq (gmsgq ?g) (peer_id (cl ! j)) = Inr (a, mq)"
      "pc = (if a = 0 then Sender_checks else Sender_popped a)" "g = ?g\<lparr>conns := cl, gmsgq := mq\<rparr>"
      by (auto simp: sender_pop_def outcome_iffs split: if_splits dest: recreate_conn_facts(1))
    from pop_one_peer [OF queues_ok_conns [OF i(1) c(1)], of "peer_id (cl ! j)"] i(2) c(2)
    have "queues_ok g" "a \<noteq> 0 \<longrightarrow> outside mq a" by (auto simp: c(4))
    with c g(2) i sender_pops(2) show ?thesis by (auto simp: finv_def)
  next
    case (sender_sends j node ws)
    then obtain g ws' where g: "send_node j node ws ?g = Inr (g, ws')" "t = (thr s)\<lparr>shared := g, senders := (senders (thr s))[j := Sender_checks]\<rparr>"
      by (auto simp: outcome_iffs)
    have j: "j = 0" using sender_sends(2) i(3) by simp
    with sender_sends(3) i(4) have "outside (gmsgq ?g) node" by simp
    from queues_ok_free [OF i(1) this] obtain m where m: "free_cell (qmem (gmsgq ?g)) node = Inr m"
      "queues_ok (?g\<lparr>gmsgq := (gmsgq ?g)\<lparr>qmem := m\<rparr>\<rparr>)" by blast
    from g(1) m(1) obtain cl h where "g = ?g\<lparr>conns := cl, requests := h, gmsgq := (gmsgq ?g)\<lparr>qmem := m\<rparr>\<rparr>" "length cl = length (conns ?g)"
      by (auto simp: send_node_def outcome_iffs Let_def set_con_state_def)
    with m(2) g(2) i j show ?thesis by (simp add: finv_def queues_ok_def broker_rep_def)
  next
    case (receiver_receives k ds socks now rc)
    then obtain g rc' sk ev where "recv_round k ds socks now rc ?g = Inr (g, rc', sk, ev)" "t = (thr s)\<lparr>shared := g\<rparr>"
      by (auto simp: outcome_iffs)
    with recv_round_ok [OF i(1)] recv_round_gmsgq recv_round_cfg show ?thesis
      by (intro finv_glob [OF assms(2), of g]) simp_all
  next
    case (manager_marks nows)
    then obtain g where g: "qmanager_round nows ?g = Inr g" "t = (thr s)\<lparr>shared := g\<rparr>" by (auto simp: outcome_iffs)
    moreover have "cfg g = cfg ?g" using g(1) by (auto simp: qmanager_round_def outcome_iffs)
    ultimately show ?thesis using qmanager_round_ok [OF i(1) g(1)]
      by (intro finv_glob [OF assms(2), of g]) simp_all
  next
    case (client_allocs a r)
    then show ?thesis using i by (auto simp: finv_def queues_ok_def)
  next
    case (client_writes strs)
    then show ?thesis using i by (auto simp: finv_def queues_ok_def)
  next
    case (client_signals k j)
    then show ?thesis using i by (auto simp: finv_def nth_list_update)
  qed (use i in \<open>auto simp: finv_def\<close>)
qed

lemma fstep_finv:
  assumes "fstep s (Inr s')" "finv s"
  shows "finv s'"
proof -
  have i: "queues_ok (fglob s)" using assms(2) by (simp add: finv_def)
  from assms(1) show ?thesis
  proof (cases rule: fstep.cases)
    case (f_thread r)
    then obtain t where "tstep (thr s) (Inr t)" "s' = s\<lparr>thr := t\<rparr>" by (auto simp: outcome_iffs)
    with tstep_finv assms(2) show ?thesis by blast
  next
    case (f_spurious t)
    then show ?thesis using assms(2) by (auto simp: finv_def elim!: spuriousE)
  next
    case (f_redials j rc d)
    then obtain cl where "recreate_conn (peer_id (conns (fglob s) ! j)) (cfg (fglob s)) d (conns (fglob s)) = Inr cl"
      "s' = set_glob ((fglob s)\<lparr>conns := cl\<rparr>) s" by (auto simp: outcome_iffs)
    with queues_ok_conns [OF i, of cl] recreate_conn_facts(1) show ?thesis
      by (intro finv_glob [OF assms(2), of "(fglob s)\<lparr>conns := cl\<rparr>"]) auto
  next
    case (f_is_up j rc)
    then show ?thesis by (intro finv_glob [OF assms(2) i]) simp_all
  next
    case (f_receives j rc socks)
    then obtain message rc' sk where s': "s' = (if rc' = 0
           then set_recv j (R_top rc') (set_glob ((fglob s)\<lparr>conns := set_con_state j 0 (conns (fglob s))\<rparr>) s)
           else set_recv j (R_got message rc') s)" by (auto simp: outcome_iffs)
    show ?thesis
    proof (cases "rc' = 0")
      case True
      with s' queues_ok_conns [OF i, of "set_con_state j 0 (conns (fglob s))"] show ?thesis
        by (intro finv_glob [OF assms(2), of "(fglob s)\<lparr>conns := set_con_state j 0 (conns (fglob s))\<rparr>"])
          (simp_all add: set_con_state_def)
    next
      case False
      with s' show ?thesis by (intro finv_glob [OF assms(2) i]) simp_all
    qed
  next
    case (f_handles j message rc now)
    then obtain t where "s' = set_recv j t s" by (auto simp: outcome_iffs)
    then show ?thesis by (intro finv_glob [OF assms(2) i]) simp_all
  next
    case (f_removes j tid rc)
    then obtain q where q: "rem_id (gtsidq (fglob s)) tid = Inr q"
      "s' = set_recv j (R_top rc) (set_glob ((fglob s)\<lparr>gtsidq := q\<rparr>) s)" by (auto simp: outcome_iffs deliver_remove_def)
    from i obtain b where b: "broker_rep (fglob s) b" "broker_ok (num_peers (cfg (fglob s))) b"
      "num_peers (cfg (fglob s)) = int (length (conns (fglob s)))" by (auto simp: queues_ok_def)
    with rem_id_refines [OF b(1), of tid] q(1) broker_ok_close [OF b(2), of tid]
    have "queues_ok ((fglob s)\<lparr>gtsidq := q\<rparr>)" by (intro queues_okI [of _ "b_close tid b"]) simp_all
    with q(2) show ?thesis by (intro finv_glob [OF assms(2), of "(fglob s)\<lparr>gtsidq := q\<rparr>"]) simp_all
  qed
qed

interpretation lockwise: safe_steps fnext finv
  by unfold_locales (auto simp: fnext_def intro: fstep_finv)

lemma push_request_no_fault:
  "queues_ok g \<Longrightarrow> load_req (requests g) req = Inr r \<Longrightarrow> c_str (req_id r) = Inr s \<Longrightarrow> s \<noteq> [] \<Longrightarrow> length s < KEY_SIZE \<Longrightarrow>
   push_request req f p now g \<noteq> Inl (UB x)"
  using ready_to_send_no_fault [of g req r s f p now x] by (auto simp: ready_to_send_def)

subsection \<open>Properties\<close>

definition fstate_start :: fstate where
  "fstate_start = \<lparr>thr = threads_start, recvs = [R_top 0]\<rparr>"

text \<open>C14. With one peer the queues stay well formed also when the threads interleave lock by lock: a pop
  finds them in order, the node a sender holds exists and freeing it leaves them well formed, a
  push of a request with a usable id does not fault, and all that can go wrong with their memory is
  the wake-up test of a client on an empty queue.\<close>

theorem interleaved_queues_stay_well_formed:
  assumes "fnext\<^sup>*\<^sup>* s s'" "queues_ok (fglob s)" "num_peers (cfg (fglob s)) = 1" "senders (thr s) = [Sender_checks]"
  shows "queues_ok (fglob s') \<and> (\<exists>r. pop_from_msgq (gmsgq (fglob s')) con = Inr r) \<and>
    (senders (thr s') = [Sender_popped node] \<longrightarrow> (\<exists>m. free_cell (qmem (gmsgq (fglob s'))) node = Inr m \<and>
       queues_ok ((fglob s')\<lparr>gmsgq := (gmsgq (fglob s'))\<lparr>qmem := m\<rparr>\<rparr>))) \<and>
    (\<forall>r s f p now x. load_req (requests (fglob s')) req = Inr r \<and> c_str (req_id r) = Inr s \<and> s \<noteq> [] \<and> length s < KEY_SIZE \<longrightarrow>
       push_request req f p now (fglob s') \<noteq> Inl (UB x)) \<and>
    (\<forall>e. signal_test (fglob s') = Inl e \<longrightarrow> e = UB Null_Deref \<and> qhead (gmsgq (fglob s')) = 0)"
proof -
  let ?g = "fglob s'"
  have "finv s" using assms(2-4) by (simp add: finv_def)
  then have i: "queues_ok ?g" "num_peers (cfg ?g) = 1" "senders (thr s') ! 0 = Sender_popped node \<Longrightarrow> outside (gmsgq ?g) node"
    using lockwise.run_keeps [OF assms(1)] by (auto simp: finv_def)
  from i(1) obtain ms where q: "queue_rep True (gmsgq ?g) ms" by (auto simp: queues_ok_def broker_rep_def)
  have "e = UB Null_Deref \<and> qhead (gmsgq ?g) = 0" if "signal_test ?g = Inl e" for e
  proof (cases ms rule: rev_cases)
    case Nil
    with queue_rep_null [OF q] that show ?thesis by (simp add: signal_test_def)
  next
    case (snoc vs v)
    with signal_test_rep [of True ?g vs v] q that show ?thesis by simp
  qed
  with i pop_one_peer [OF i(1,2), of con] queues_ok_free [OF i(1)] push_request_no_fault [OF i(1)] show ?thesis by auto
qed

theorem interleaved_queues_stay_well_formed_witness:
  "\<exists>s'. fnext\<^sup>*\<^sup>* fstate_start s' \<and> recvs s' = [R_read 0] \<and> queues_ok (fglob s') \<and> (\<exists>r. pop_from_msgq (gmsgq (fglob s')) 0 = Inr r)"
proof -
  have "fnext fstate_start (set_recv 0 (R_read 0) fstate_start)"
    using f_is_up [of 0 fstate_start 0] by (simp add: fnext_def fstate_start_def threads_start_def glob_one_def)
  then have r: "fnext\<^sup>*\<^sup>* fstate_start (set_recv 0 (R_read 0) fstate_start)" by blast
  have "queues_ok (fglob fstate_start)" "num_peers (cfg (fglob fstate_start)) = 1" "senders (thr fstate_start) = [Sender_checks]"
    using glob_one_ok by (simp_all add: fstate_start_def threads_start_def)
  from interleaved_queues_stay_well_formed [OF r this, of 0] r show ?thesis
    by (intro exI [of _ "set_recv 0 (R_read 0) fstate_start"]) (auto simp: fstate_start_def)
qed

end
