(* ===== verification/Wakeup.thy ===== *)
theory Wakeup
  imports Interleave
begin

section \<open>One client and one peer lose no wake-up\<close>

text \<open>
  \<open>Threads\<close> shows how two clients leave every sender asleep. Here the complement: with one client
  and one peer, whatever the order of the steps, a sender that waits while a message is queued has a
  client that is about to wake it.
\<close>

definition asleep_ok :: "tstate \<Rightarrow> bool" where
  "asleep_ok t \<longleftrightarrow> length (clients t) = 1 \<and> length (senders t) = 1 \<and>
     (senders t ! 0 = Sender_waits \<longrightarrow>
       (\<exists>ms. queue_rep True (gmsgq (shared t)) ms \<and> length ms \<le> 1 \<and> (clients t ! 0 = Client_idle \<longrightarrow> ms = [])))"

lemma asleep_ok_glob:
  "asleep_ok t \<Longrightarrow> gmsgq g = gmsgq (shared t) \<Longrightarrow> asleep_ok (t\<lparr>shared := g\<rparr>)"
  by (simp add: asleep_ok_def)

lemma tstep_asleep_ok:
  assumes "tstep t (Inr t')" "asleep_ok t" "queues_ok (shared t)"
  shows "asleep_ok t'"
proof -
  note a = assms(2) [unfolded asleep_ok_def]
  from assms(1) show ?thesis
  proof (cases rule: tstep.cases)
    case (client_pushes i req f p now)
    then obtain g where g: "push_request req f p now (shared t) = Inr g"
      "t' = t\<lparr>shared := g, clients := (clients t)[i := Client_pushed]\<rparr>" by (auto simp: outcome_iffs)
    have i: "i = 0" using client_pushes(2) a by simp
    have "\<exists>ms. queue_rep True (gmsgq g) ms \<and> length ms \<le> 1" if "senders t ! 0 = Sender_waits"
    proof -
      have "queue_rep True (gmsgq (shared t)) []" using a that client_pushes(3) i by auto
      from push_request_queue [OF this g(1)] show ?thesis by auto
    qed
    then show ?thesis using a g(2) i by (simp add: asleep_ok_def)
  next
    case (client_no_signal i)
    have i: "i = 0" using client_no_signal(2) a by simp
    have "senders t ! 0 \<noteq> Sender_waits"
    proof
      assume w: "senders t ! 0 = Sender_waits"
      then obtain ms where ms: "queue_rep True (gmsgq (shared t)) ms" "length ms \<le> 1" using a by blast
      have "signal_test (shared t) = Inr False" using client_no_signal(4) w a by auto
      then show False using ms signal_test_rep [of True "shared t" "[]"] queue_rep_null [OF ms(1)]
        by (cases ms) (auto simp: signal_test_def)
    qed
    then show ?thesis using a client_no_signal(1) by (simp add: asleep_ok_def)
  next
    case (client_signals i j)
    then show ?thesis using a by (simp add: asleep_ok_def)
  next
    case (sender_checks j)
    from assms(3) obtain ms where ms: "queue_rep True (gmsgq (shared t)) ms" by (auto simp: queues_ok_def broker_rep_def)
    then show ?thesis using sender_checks a queue_rep_null [OF ms]
      by (auto simp: asleep_ok_def sender_check_def)
  next
    case (sender_pops j d)
    then obtain pc g where "sender_pop j d (shared t) = Inr (pc, g)" "t' = t\<lparr>shared := g, senders := (senders t)[j := pc]\<rparr>"
      by (auto simp: outcome_iffs)
    moreover from this have "pc \<noteq> Sender_waits" by (auto simp: sender_pop_def outcome_iffs split: if_splits)
    ultimately show ?thesis using a sender_pops(2) by (simp add: asleep_ok_def)
  next
    case (sender_sends j node ws)
    then show ?thesis using a by (auto simp: outcome_iffs asleep_ok_def)
  next
    case (receiver_receives k ds socks now rc)
    then show ?thesis using asleep_ok_glob [OF assms(2)] recv_round_gmsgq by (auto simp: outcome_iffs)
  next
    case (manager_marks nows)
    then show ?thesis using asleep_ok_glob [OF assms(2)] qmanager_round_ok [OF assms(3)] by (auto simp: outcome_iffs)
  next
    case (client_allocs r a)
    then show ?thesis using asleep_ok_glob [OF assms(2)] by simp
  next
    case (client_writes strs)
    then show ?thesis using asleep_ok_glob [OF assms(2)] by simp
  qed
qed

lemma fstep_asleep_ok:
  assumes "fstep s (Inr s')" "asleep_ok (thr s)" "queues_ok (fglob s)"
  shows "asleep_ok (thr s')"
  using assms(1)
proof (cases rule: fstep.cases)
  case (f_thread r)
  then show ?thesis using tstep_asleep_ok assms(2,3) by (auto simp: outcome_iffs)
next
  case (f_spurious t)
  then show ?thesis using assms(2) by (auto simp: asleep_ok_def elim!: spuriousE)
next
  case (f_redials j rc d)
  then show ?thesis using asleep_ok_glob [OF assms(2)] by (auto simp: outcome_iffs set_glob_def)
next
  case (f_receives j rc socks)
  then show ?thesis using asleep_ok_glob [OF assms(2)] assms(2) by (auto simp: outcome_iffs set_glob_def set_recv_def)
next
  case (f_removes j tid rc)
  then show ?thesis using asleep_ok_glob [OF assms(2)]
    by (auto simp: outcome_iffs set_glob_def set_recv_def deliver_remove_def)
qed (use assms(2) in \<open>auto simp: outcome_iffs set_recv_def\<close>)

interpretation one_client: started_steps fnext "\<lambda>s. finv s \<and> asleep_ok (thr s)"
  "\<lambda>s. finv s \<and> length (clients (thr s)) = 1 \<and> senders (thr s) = [Sender_checks]"
proof unfold_locales
  fix s s' assume "fnext s s'" "finv s \<and> asleep_ok (thr s)"
  moreover from this have "queues_ok (fglob s)" by (simp add: finv_def)
  ultimately show "finv s' \<and> asleep_ok (thr s')" using fstep_finv fstep_asleep_ok unfolding fnext_def by blast
qed (simp add: asleep_ok_def)

lemma waiting_sender_is_woken:
  assumes "finv s" "asleep_ok (thr s)" "senders (thr s) ! 0 = Sender_waits" "queue_rep True (gmsgq (fglob s)) ms" "ms \<noteq> []"
  shows "length ms = 1 \<and> clients (thr s) ! 0 = Client_pushed \<and> signal_test (fglob s) = Inr True \<and>
    tnext (thr s) ((thr s)\<lparr>clients := [Client_idle], senders := [Sender_checks]\<rparr>) \<and>
    fnext s (s\<lparr>thr := (thr s)\<lparr>clients := [Client_idle], senders := [Sender_checks]\<rparr>\<rparr>)"
proof -
  let ?t = "thr s"
  note a = assms(2)
  then obtain ms' where q: "queue_rep True (gmsgq (fglob s)) ms'" "length ms' \<le> 1" "clients ?t ! 0 = Client_idle \<longrightarrow> ms' = []"
    using assms(3) by (auto simp: asleep_ok_def)
  have "ms' = ms" by (rule queue_rep_unique [OF q(1) assms(4)])
  with q(2,3) assms(5) have m: "length ms = 1" "clients ?t ! 0 \<noteq> Client_idle" by (cases ms; simp)+
  from m(2) have c: "clients ?t ! 0 = Client_pushed" by (cases "clients ?t ! 0") auto
  from m(1) obtain v where "ms = [v]" by (auto simp: length_Suc_conv)
  with signal_test_rep [of True "fglob s" "[]" v] assms(4) have t: "signal_test (fglob s) = Inr True" by simp
  have one: "length xs = 1 \<Longrightarrow> xs = [xs ! 0]" for xs :: "'a list" by (cases xs) auto
  have "length (clients ?t) = 1" "length (senders ?t) = 1" using a by (simp_all add: asleep_ok_def)
  then have l: "clients ?t = [Client_pushed]" "senders ?t = [Sender_waits]"
    using one [of "clients ?t"] one [of "senders ?t"] by (simp_all only: c assms(3))
  then have "tstep ?t (Inr (?t\<lparr>clients := [Client_idle], senders := [Sender_checks]\<rparr>))"
    using client_signals [of 0 ?t 0] t by simp
  with f_thread [OF this] m(1) c t show ?thesis by (simp add: fnext_def tnext_def)
qed

text \<open>A run to such a state: the sender waits, and then the client pushes.\<close>

definition pushed_state :: "glob \<Rightarrow> fstate" where
  "pushed_state g = \<lparr>thr = \<lparr>shared = g, clients = [Client_pushed], senders = [Sender_waits]\<rparr>, recvs = [R_top 0]\<rparr>"

lemma waiting_run:
  "\<exists>g. push_request 5 11 12 (Timeval 1 0) glob_one = Inr g \<and> qhead (gmsgq g) \<noteq> 0 \<and>
     fnext\<^sup>*\<^sup>* (fstate_start\<lparr>thr := threads_start\<lparr>clients := [Client_idle]\<rparr>\<rparr>) (pushed_state g)"
proof -
  have "case push_request 5 11 12 (Timeval 1 0) glob_one of Inl e \<Rightarrow> False | Inr g1 \<Rightarrow> qhead (gmsgq g1) \<noteq> 0" by code_simp
  then obtain g1 where g1: "push_request 5 11 12 (Timeval 1 0) glob_one = Inr g1" "qhead (gmsgq g1) \<noteq> 0"
    by (auto split: sum.splits)
  let ?s = "\<lambda>g c p. \<lparr>thr = \<lparr>shared = g, clients = [c], senders = [p]\<rparr>, recvs = [R_top 0]\<rparr>"
  have c: "sender_check glob_one = Sender_waits" by (simp add: sender_check_def glob_one_def glob_demo_def mk_queue_def)
  have step: "fnext (?s g c p) (?s g' c' p')"
    if "tstep \<lparr>shared = g, clients = [c], senders = [p]\<rparr> (Inr \<lparr>shared = g', clients = [c'], senders = [p']\<rparr>)" for g c p g' c' p'
    using f_thread [of "?s g c p"] that by (fastforce simp: fnext_def)
  have 1: "fnext (?s glob_one Client_idle Sender_checks) (?s glob_one Client_idle Sender_waits)"
    using sender_checks [of 0 "\<lparr>shared = glob_one, clients = [Client_idle], senders = [Sender_checks]\<rparr>"] c by (intro step) simp
  have 2: "fnext (?s glob_one Client_idle Sender_waits) (?s g1 Client_pushed Sender_waits)"
    using client_pushes [of 0 "\<lparr>shared = glob_one, clients = [Client_idle], senders = [Sender_waits]\<rparr>" 5 11 12 "Timeval 1 0"] g1(1)
    by (intro step) simp
  let ?first = "fstate_start\<lparr>thr := threads_start\<lparr>clients := [Client_idle]\<rparr>\<rparr>" and ?last = "?s g1 Client_pushed Sender_waits"
  have "?first = ?s glob_one Client_idle Sender_checks" by (simp add: fstate_start_def threads_start_def)
  with 1 2 have run: "fnext\<^sup>*\<^sup>* ?first ?last" by (metis (no_types, lifting) rtranclp.simps)
  with g1 show ?thesis by (auto simp: pushed_state_def)
qed

subsection \<open>Properties\<close>

text \<open>C32. With one peer and one client thread no wake-up is lost, however all threads interleave lock by
  lock: when the sender waits and a message is queued, it is a single message, its client has pushed
  it and not yet tested, the test will find it alone, and the client's next step wakes the sender.\<close>

theorem one_client_wakes_the_sender:
  assumes "fnext\<^sup>*\<^sup>* s s'" "queues_ok (fglob s)" "num_peers (cfg (fglob s)) = 1"
    and "clients (thr s) = [Client_idle]" "senders (thr s) = [Sender_checks]"
    and "senders (thr s') ! 0 = Sender_waits" "queue_rep True (gmsgq (fglob s')) ms" "ms \<noteq> []"
  shows "length ms = 1 \<and> clients (thr s') ! 0 = Client_pushed \<and> signal_test (fglob s') = Inr True \<and>
    fnext s' (s'\<lparr>thr := (thr s')\<lparr>clients := [Client_idle], senders := [Sender_checks]\<rparr>\<rparr>)"
proof -
  have "finv s' \<and> asleep_ok (thr s')"
    using one_client.reach_inv [OF _ assms(1)] assms(2-5) by (simp add: finv_def)
  with waiting_sender_is_woken [of s' ms] assms(6-8) show ?thesis by blast
qed

theorem one_client_wakes_the_sender_witness:
  "\<exists>s' ms. fnext\<^sup>*\<^sup>* (fstate_start\<lparr>thr := threads_start\<lparr>clients := [Client_idle]\<rparr>\<rparr>) s' \<and>
     senders (thr s') ! 0 = Sender_waits \<and> queue_rep True (gmsgq (fglob s')) ms \<and> length ms = 1 \<and>
     clients (thr s') ! 0 = Client_pushed \<and>
     fnext s' (s'\<lparr>thr := (thr s')\<lparr>clients := [Client_idle], senders := [Sender_checks]\<rparr>\<rparr>)"
proof -
  from waiting_run obtain g1 where g1: "push_request 5 11 12 (Timeval 1 0) glob_one = Inr g1" "qhead (gmsgq g1) \<noteq> 0"
    and run: "fnext\<^sup>*\<^sup>* (fstate_start\<lparr>thr := threads_start\<lparr>clients := [Client_idle]\<rparr>\<rparr>) (pushed_state g1)" by blast
  have q: "queues_ok g1" by (rule push_request_ok [OF glob_one_ok(1) g1(1)])
  then obtain ms where ms: "queue_rep True (gmsgq g1) ms" by (auto simp: queues_ok_def broker_rep_def)
  with queue_rep_null [OF ms] g1(2) have "ms \<noteq> []" by simp
  from one_client_wakes_the_sender [OF run _ _ _ _ _ _ this] ms glob_one_ok
  show ?thesis by (intro exI [of _ "pushed_state g1"] exI [of _ ms] conjI run)
      (simp_all add: pushed_state_def fstate_start_def threads_start_def)
qed

end
