(* ===== verification/Frames.thy ===== *)
theory Frames
  imports Wire
begin

section \<open>A stream of frames\<close>

text \<open>
  \<open>Wire\<close> follows one frame; here the reader and the writer of \<^verbatim>\<open>work.c\<close> handle many frames in a
  row on one socket. \<open>serves e ns p\<close> says that the \<open>recv\<close> calls read frames of the lengths \<open>ns\<close> to
  their end.
\<close>

subsection \<open>Reading one frame after another\<close>

lemma serves_next:
  assumes "serves e (n # ns) p"
  obtains e1 p1 e2 p2 where "header_rest e 4 p = Some (e1, p1)" "body_rest e1 n p1 = Some (e2, p2)" "serves e2 ns p2"
  using assms by (auto split: option.splits)

lemma receive_next_frame:
  assumes "length msg \<le> 9999" "inq s = frame msg @ rest" "serves (rerrno s) (length msg # ns) (rplan s)"
  shows "\<exists>s'. receive_from_fd s ret = Inr (Some msg, int (length msg), s') \<and> inq s' = rest \<and>
    serves (rerrno s') ns (rplan s')"
proof -
  from assms(3) obtain e1 p1 e2 p2 where p: "header_rest (rerrno s) 4 (rplan s) = Some (e1, p1)"
    "body_rest e1 (length msg) p1 = Some (e2, p2)" "serves e2 ns p2" by (rule serves_next)
  have "s = \<lparr>inq = frame msg @ rest, rplan = rplan s, rerrno = rerrno s\<rparr>" using assms(2) by simp
  with receive_frame [OF assms(1) p(1,2), of rest ret] p(3)
  show ?thesis by (intro exI [of _ "\<lparr>inq = rest, rplan = p2, rerrno = e2\<rparr>"]) simp
qed

text \<open>
  The simplest such plans: no read of a header is cut short, as \<open>MSG_WAITALL\<close> promises when no signal
  comes, and a failure is one that the code retries.
\<close>

definition whole_reads :: "recv_step list \<Rightarrow> bool" where
  "whole_reads p \<longleftrightarrow> (\<forall>x \<in> set p. case x of Deliver k \<Rightarrow> 3 \<le> k | Recv_fail e \<Rightarrow> try_again e)"

lemma whole_reads_Cons [simp]:
  "whole_reads (Deliver k # p) \<longleftrightarrow> 3 \<le> k \<and> whole_reads p"
  "whole_reads (Recv_fail e # p) \<longleftrightarrow> try_again e \<and> whole_reads p"
  by (simp_all add: whole_reads_def)

lemma whole_header:
  "whole_reads p \<Longrightarrow> 0 < deliveries p \<Longrightarrow>
   \<exists>e1 p1. header_rest e 4 p = Some (e1, p1) \<and> deliveries p = Suc (deliveries p1)"
proof (induction p arbitrary: e)
  case (Cons x p)
  then show ?case by (cases x) auto
qed simp

lemma whole_serves:
  assumes "whole_reads p" "n < deliveries p"
  shows "serves e [n] p"
proof -
  from assms whole_header [of p e] obtain e1 p1 where
    "header_rest e 4 p = Some (e1, p1)" "n \<le> deliveries p1" by fastforce
  with body_rest_deliveries [of n p1 e1] show ?thesis by auto
qed

subsection \<open>Headers that are not a length\<close>

lemma receive_bad_header:
  assumes "rplan s = Deliver k # p" "3 \<le> k" "4 \<le> length (inq s)" "atoi (cut_nul (take 4 (inq s))) = n" "n \<le> 0"
  shows "receive_from_fd s ret =
    (if n = 0 then Inr (Some [], 0, s\<lparr>inq := drop 4 (inq s), rplan := p\<rparr>)
     else Inl (UB (if n = -1 then Invalid_Access else Null_Deref)))"
  using assms read_header_whole [OF assms(1-3)] by (simp add: receive_from_fd_def Let_def read_body_done)

subsection \<open>Writing one frame after another\<close>

text \<open>A kernel that takes bytes or asks to try again.\<close>

definition takes_bytes :: "send_step list \<Rightarrow> bool" where
  "takes_bytes p \<longleftrightarrow> (\<forall>x \<in> set p. case x of Accept k \<Rightarrow> 0 < k | Send_fail e \<Rightarrow> e = EAGAIN \<or> e = EWOULDBLOCK)"

lemma takes_bytes_Cons [simp]:
  "takes_bytes (Accept k # p) \<longleftrightarrow> 0 < k \<and> takes_bytes p"
  "takes_bytes (Send_fail e # p) \<longleftrightarrow> (e = EAGAIN \<or> e = EWOULDBLOCK) \<and> takes_bytes p"
  by (simp_all add: takes_bytes_def)

lemma accepts_simps [simp]:
  "accepts [] = 0" "accepts (Accept k # p) = (if 0 < k then Suc (accepts p) else accepts p)"
  "accepts (Send_fail e # p) = accepts p"
  by (simp_all add: accepts_def)

lemma send_loop_all:
  "takes_bytes plan \<Longrightarrow> length buf \<le> accepts plan \<Longrightarrow>
   \<exists>ws'. send_loop plan out buf t = Inr (t + int (length buf), ws') \<and> outq ws' = out @ buf \<and>
     takes_bytes (wplan ws') \<and> accepts plan \<le> accepts (wplan ws') + length buf"
proof (induction plan out buf t rule: send_loop.induct)
  case (3 k plan out c rest t)
  then obtain j where k: "k = Suc j" by (cases k) auto
  let ?d = "take k (c # rest)" and ?r = "drop k (c # rest)"
  have ne: "?d \<noteq> []" using k by simp
  have l: "length ?d + length ?r = length (c # rest)" "length ?r \<le> length rest" using k by simp_all
  have run: "send_loop (Accept k # plan) out (c # rest) t = send_loop plan (out @ ?d) ?r (t + int (length ?d))"
    using ne by (simp only: send_loop.simps Let_def if_False)
  have "takes_bytes plan" "length ?r \<le> accepts plan" using 3(2,3) k l(2) by simp_all
  from 3(1) [OF refl ne this] obtain ws' where
    w: "send_loop plan (out @ ?d) ?r (t + int (length ?d)) = Inr (t + int (length ?d) + int (length ?r), ws')"
    "outq ws' = (out @ ?d) @ ?r" "takes_bytes (wplan ws')" "accepts plan \<le> accepts (wplan ws') + length ?r"
    by blast
  have "t + int (length ?d) + int (length ?r) = t + int (length (c # rest))" using l(1) by linarith
  moreover have "(out @ ?d) @ ?r = out @ c # rest" by simp
  moreover have "accepts (Accept k # plan) \<le> accepts (wplan ws') + length (c # rest)"
    using w(4) l(2) k by simp
  ultimately show ?case using w(1-3) unfolding run by (intro exI [of _ ws']) (simp only:)
qed auto

lemma send_to_fd_all:
  assumes "takes_bytes (wplan ws)" "nat len \<le> accepts (wplan ws)" "0 \<le> len" "len \<le> int (length buf)"
  shows "\<exists>ws'. send_to_fd ws buf len = Inr (len, ws') \<and> outq ws' = outq ws @ take (nat len) buf \<and>
    takes_bytes (wplan ws') \<and> accepts (wplan ws) \<le> accepts (wplan ws') + nat len"
proof -
  have "length (take (nat len) buf) = nat len" using assms(3,4) by simp
  with send_loop_all [OF assms(1), of "take (nat len) buf" "outq ws" 0] assms show ?thesis
    by (simp add: send_to_fd_def)
qed

end
