(* ===== verification/Loops.thy ===== *)
theory Loops
  imports Threads Frames
begin

section \<open>The threads from start to end of a run: \<^verbatim>\<open>work.c\<close>\<close>

text \<open>
  Each thread function is an endless loop over the rounds of \<open>Worker\<close> and \<open>Threads\<close>. Here it is a
  function of the list of its turns, what the operating system answers in each: how often the loop
  runs is the length of the list, and the result is the state when the list is used up. The
  thread is alone: no other thread changes the module between its turns. The sockets are a
  function of the descriptor, read and written by the turns.
\<close>

subsection \<open>The receiver\<close>

text \<open>\<open>recv_worker_thread\<close>, lines 38 to 244: \<open>rc\<close> is a local variable and lives across the turns.\<close>

record recv_turn =
  rt_dials :: "dial list"      \<comment> \<open>the attempts to reconnect at the label \<open>reconn\<close>\<close>
  rt_now :: timeval

fun recv_worker_loop ::
  "nat \<Rightarrow> recv_turn list \<Rightarrow> int \<Rightarrow> (int \<Rightarrow> rsock) \<Rightarrow> glob \<Rightarrow> (glob \<times> int \<times> (int \<Rightarrow> rsock) \<times> event list) res" where
  "recv_worker_loop i [] rc socks g = Inr (g, rc, socks, [])"
| "recv_worker_loop i (t # ts) rc socks g =
     bindE (recv_round i (rt_dials t) socks (rt_now t) rc g) (\<lambda>(g1, rc1, s, ev).
     bindE (recv_worker_loop i ts rc1 (socks(fd (conns g1 ! i) := s)) g1) (\<lambda>(g2, rc2, socks2, ev2).
       Inr (g2, rc2, socks2, ev @ ev2)))"

definition recv_worker_thread ::
  "nat \<Rightarrow> recv_turn list \<Rightarrow> (int \<Rightarrow> rsock) \<Rightarrow> glob \<Rightarrow> (glob \<times> int \<times> (int \<Rightarrow> rsock) \<times> event list) res" where
  "recv_worker_thread i ts socks g = recv_worker_loop i ts 0 socks g"

subsection \<open>The sender\<close>

text \<open>
  \<open>send_worker_thread\<close>, lines 246 to 296. A turn with an empty queue waits, alone for ever; a turn
  without a message for its connection sleeps.
\<close>

definition sender_turn :: "nat \<Rightarrow> dial \<Rightarrow> (int \<Rightarrow> wsock) \<Rightarrow> glob \<Rightarrow> (glob \<times> (int \<Rightarrow> wsock)) res" where
  "sender_turn i d socks g =
     (if sender_check g = Sender_waits then Inl Hang else
      bindE (sender_pop i d g) (\<lambda>(pc, g). case pc of
          Sender_popped node \<Rightarrow>
            let f = fd (conns g ! i) in
            bindE (send_node i node (socks f) g) (\<lambda>(g, ws). Inr (g, socks(f := ws)))
        | _ \<Rightarrow> Inr (g, socks)))"

fun send_worker_thread :: "nat \<Rightarrow> dial list \<Rightarrow> (int \<Rightarrow> wsock) \<Rightarrow> glob \<Rightarrow> (glob \<times> (int \<Rightarrow> wsock)) res" where
  "send_worker_thread i [] socks g = Inr (g, socks)"
| "send_worker_thread i (d # ds) socks g =
     bindE (sender_turn i d socks g) (\<lambda>(g, socks). send_worker_thread i ds socks g)"

subsection \<open>The queue manager, the monitor and the pipe\<close>

text \<open>\<open>qmanager_thread\<close>, lines 526 to 540; a turn is what \<open>gettimeofday\<close> says at each entry.\<close>

fun qmanager_thread :: "(nat \<Rightarrow> timeval) list \<Rightarrow> glob \<Rightarrow> glob res" where
  "qmanager_thread [] g = Inr g"
| "qmanager_thread (nows # ts) g = bindE (qmanager_round nows g) (qmanager_thread ts)"

text \<open>\<open>monitor_thread\<close>, lines 25 to 35: the answers of \<open>getsockopt\<close> and of the attempts to connect.\<close>

fun monitor_thread :: "((nat \<Rightarrow> int \<times> int) \<times> (nat \<Rightarrow> dial)) list \<Rightarrow> glob \<Rightarrow> glob res" where
  "monitor_thread [] g = Inr g"
| "monitor_thread ((sockopt, ds) # ts) g =
     bindE (monitor_sock_conn (cfg g) sockopt ds (conns g)) (\<lambda>cl. monitor_thread ts (g\<lparr>conns := cl\<rparr>))"

text \<open>\<open>rcv_pipe_thread\<close>, lines 367 to 397: what each \<open>read\<close> gives, \<open>None\<close> the end of the pipe,
  after which it is opened again.\<close>

fun rcv_pipe_thread :: "(string option \<times> timeval) list \<Rightarrow> glob \<Rightarrow> glob res" where
  "rcv_pipe_thread [] g = Inr g"
| "rcv_pipe_thread ((rd, now) # ts) g = bindE (rcv_pipe_round rd now g) (rcv_pipe_thread ts)"

subsection \<open>Every thread is made of steps of \<open>Reach\<close>\<close>

lemma recv_worker_steps:
  "recv_worker_loop i ts rc socks g = Inr (g', rc', socks', ev) \<Longrightarrow> gstep\<^sup>*\<^sup>* g g'"
proof (induction ts arbitrary: rc socks g ev)
  case (Cons t ts)
  then show ?case
    by (auto simp: outcome_iffs intro: converse_rtranclp_into_rtranclp gstep.receiver_receives)
qed simp

lemma qmanager_steps: "qmanager_thread ts g = Inr g' \<Longrightarrow> gstep\<^sup>*\<^sup>* g g'"
proof (induction ts arbitrary: g)
  case (Cons t ts)
  then show ?case by (auto simp: outcome_iffs intro: converse_rtranclp_into_rtranclp gstep.manager_marks)
qed simp

lemma monitor_steps: "monitor_thread ts g = Inr g' \<Longrightarrow> gstep\<^sup>*\<^sup>* g g'"
proof (induction ts g rule: monitor_thread.induct)
  case (2 sockopt ds ts g)
  then show ?case by (auto simp: outcome_iffs intro: converse_rtranclp_into_rtranclp monitor_redials)
qed simp

lemma rcv_pipe_steps: "rcv_pipe_thread ts g = Inr g' \<Longrightarrow> gstep\<^sup>*\<^sup>* g g'"
proof (induction ts g rule: rcv_pipe_thread.induct)
  case (2 rd now ts g)
  then show ?case by (auto simp: outcome_iffs intro: converse_rtranclp_into_rtranclp pipe_reads)
qed simp

lemma sender_turn_round:
  assumes "sender_turn i d socks g = Inr (g', socks')"
  shows "\<exists>ws ws' took. send_round i d ws g = Inr (g', ws', took)"
proof -
  from assms obtain pc g1 where p: "sender_pop i d g = Inr (pc, g1)"
    and t: "(case pc of Sender_popped node \<Rightarrow> let f = fd (conns g1 ! i) in
          bindE (send_node i node (socks f) g1) (\<lambda>(g, ws). Inr (g, socks(f := ws))) | _ \<Rightarrow> Inr (g1, socks)) = Inr (g', socks')"
    by (auto simp: sender_turn_def outcome_iffs split: if_splits)
  show ?thesis
  proof (cases pc)
    case (Sender_popped node)
    with t obtain ws' where "send_node i node (socks (fd (conns g1 ! i))) g1 = Inr (g', ws')"
      by (auto simp: Let_def outcome_iffs)
    with p Sender_popped have "send_round i d (socks (fd (conns g1 ! i))) g = Inr (g', ws', True)"
      by (simp add: send_round_halves)
    then show ?thesis by blast
  qed (use p t in \<open>auto simp: send_round_halves\<close>)
qed

lemma send_worker_steps: "send_worker_thread i ds socks g = Inr (g', socks') \<Longrightarrow> gstep\<^sup>*\<^sup>* g g'"
proof (induction ds arbitrary: socks g)
  case (Cons d ds)
  then obtain g1 socks1 where g1: "sender_turn i d socks g = Inr (g1, socks1)"
    "send_worker_thread i ds socks1 g1 = Inr (g', socks')" by (auto simp: outcome_iffs)
  from sender_turn_round [OF g1(1)] have "gstep g g1" using gstep.sender_sends by blast
  then show ?case using Cons.IH [OF g1(2)] by (rule converse_rtranclp_into_rtranclp)
qed simp

subsection \<open>The receiver handles a stream\<close>

text \<open>What the receiver should do with a stream: handle its messages one by one, in order.\<close>

fun handle_all :: "(timeval \<times> string) list \<Rightarrow> glob \<Rightarrow> (glob \<times> event list) res" where
  "handle_all [] g = Inr (g, [])"
| "handle_all ((now, m) # ms) g =
     bindE (handle_message now (Some m) (int (length m)) g) (\<lambda>(g1, ev1).
     bindE (handle_all ms g1) (\<lambda>(g2, ev2). Inr (g2, ev1 @ ev2)))"

lemma handle_keeps_conns: "handle_message now message rc g = Inr (g', ev) \<Longrightarrow> conns g' = conns g"
proof -
  assume "handle_message now message rc g = Inr (g', ev)"
  with handle_one_event [of g now message rc] have "g' = g\<lparr>gtsidq := gtsidq g'\<rparr>" by (simp add: one_event_def)
  then have "conns g' = conns (g\<lparr>gtsidq := gtsidq g'\<rparr>)" by (rule arg_cong)
  then show ?thesis by simp
qed

lemma recv_round_frame:
  assumes "i < length (conns g)" "state (conns g ! i) = 1" "inq (socks (fd (conns g ! i))) = frame m @ rest"
    and "serves (rerrno (socks (fd (conns g ! i)))) (length m # ns) (rplan (socks (fd (conns g ! i))))"
    and "m \<noteq> []" "length m \<le> 9999"
  shows "\<exists>s. inq s = rest \<and> serves (rerrno s) ns (rplan s) \<and>
    recv_round i ds socks now rc g =
      bindE (handle_message now (Some m) (int (length m)) g) (\<lambda>(g, ev). Inr (g, int (length m), s, ev))"
proof -
  from receive_next_frame [OF assms(6,3,4), of rc] obtain s where
    "receive_from_fd (socks (fd (conns g ! i))) rc = Inr (Some m, int (length m), s)" "inq s = rest"
    "serves (rerrno s) ns (rplan s)" by blast
  with assms(1,2,5) show ?thesis
    by (intro exI [of _ s]) (simp add: recv_round_def reconnect_loop_up Let_def)
qed

lemma recv_worker_stream:
  assumes "length ts = length ms"
  shows "i < length (conns g) \<Longrightarrow> state (conns g ! i) = 1 \<Longrightarrow> fd (conns g ! i) = f \<Longrightarrow>
    inq (socks f) = concat (map frame ms) @ rest \<Longrightarrow> serves (rerrno (socks f)) (map length ms) (rplan (socks f)) \<Longrightarrow> \<forall>m \<in> set ms. m \<noteq> [] \<and> length m \<le> 9999 \<Longrightarrow>
    case handle_all (zip (map rt_now ts) ms) g of
      Inl e \<Rightarrow> recv_worker_loop i ts rc socks g = Inl e
    | Inr (g', ev) \<Rightarrow> \<exists>rc' socks'. recv_worker_loop i ts rc socks g = Inr (g', rc', socks', ev) \<and> inq (socks' f) = rest"
  using assms
proof (induction ts ms arbitrary: rc socks g rule: list_induct2)
  case (Cons t ts m ms)
  from Cons.prems recv_round_frame [of i g socks m "concat (map frame ms) @ rest" "map length ms" "rt_dials t" "rt_now t" rc] obtain s where
    s: "inq s = concat (map frame ms) @ rest" "serves (rerrno s) (map length ms) (rplan s)"
    and r: "recv_round i (rt_dials t) socks (rt_now t) rc g =
      bindE (handle_message (rt_now t) (Some m) (int (length m)) g) (\<lambda>(g, ev). Inr (g, int (length m), s, ev))" by auto
  show ?case
  proof (cases "handle_message (rt_now t) (Some m) (int (length m)) g")
    case (Inr x)
    then obtain g1 ev1 where h: "handle_message (rt_now t) (Some m) (int (length m)) g = Inr (g1, ev1)" by (cases x) auto
    note c = handle_keeps_conns [OF h]
    from Cons.IH [of g1 "socks(f := s)" "int (length m)"] Cons.prems s c
    have "case handle_all (zip (map rt_now ts) ms) g1 of
        Inl e \<Rightarrow> recv_worker_loop i ts (int (length m)) (socks(f := s)) g1 = Inl e
      | Inr (g', ev) \<Rightarrow> \<exists>rc' socks'. recv_worker_loop i ts (int (length m)) (socks(f := s)) g1 =
          Inr (g', rc', socks', ev) \<and> inq (socks' f) = rest" by simp
    with r h c Cons.prems(3) show ?thesis
      by (cases "handle_all (zip (map rt_now ts) ms) g1") auto
  qed (simp add: r)
qed simp

subsection \<open>The sender writes a stream\<close>

text \<open>The bytes of a queued message, and what the sender relies on to write them.\<close>

definition body :: "glob \<Rightarrow> msgque_t \<Rightarrow> string" where
  "body g v = (case requests g (mq_data v) of None \<Rightarrow> [] | Some r \<Rightarrow> take (nat (mq_len v)) (req_buf r))"

definition sendable :: "glob \<Rightarrow> msgque_t \<Rightarrow> bool" where
  "sendable g v \<longleftrightarrow> 0 \<le> mq_len v \<and> mq_len v \<le> 9999 \<and> mq_data v \<noteq> 0 \<and>
     (\<exists>r. requests g (mq_data v) = Some r \<and> mq_len v \<le> int (length (req_buf r)) \<and> NUL \<in> set (req_buf r))"

lemma sendable_length: "sendable g v \<Longrightarrow> length (body g v) = nat (mq_len v)"
  by (auto simp: sendable_def body_def)

lemma sendable_frame: "sendable g v \<Longrightarrow> frame (body g v) = fmt_04d (mq_len v) @ body g v"
  by (simp add: frame_def sendable_length) (simp add: sendable_def)

lemma other_request:
  "mq_data w \<noteq> a \<Longrightarrow> body (g\<lparr>requests := (requests g)(a := None)\<rparr>) w = body g w"
  "mq_data w \<noteq> a \<Longrightarrow> sendable (g\<lparr>requests := (requests g)(a := None)\<rparr>) w = sendable g w"
  by (simp_all add: body_def sendable_def)

text \<open>The queues that the unlinked tail of \<open>pop_from_msgq\<close> does not touch, whatever is sent on \<open>con\<close>.\<close>

definition safe_for :: "int \<Rightarrow> msgque_t list \<Rightarrow> bool" where
  "safe_for con q \<longleftrightarrow> (\<forall>v \<in> set q. for_conn con v) \<or> (q \<noteq> [] \<and> \<not> for_conn con (last q))"

lemma safe_for_no_tail: "safe_for con q \<Longrightarrow> \<not> tail_only con q"
  by (cases q; cases "tl q") (auto simp: safe_for_def tail_only_def)

lemma rem_first_last: "q \<noteq> [] \<Longrightarrow> \<not> P (last q) \<Longrightarrow> rem_first P q \<noteq> [] \<and> last (rem_first P q) = last q"
  by (induction q) (auto split: if_splits)

lemma safe_for_rem: "safe_for con q \<Longrightarrow> safe_for con (rem_first (for_conn con) q)"
  using rem_first_last [of q "for_conn con"] set_rem_first [of "for_conn con" q] by (auto simp: safe_for_def)

lemma filter_rem_first: "filter P (rem_first P q) = tl (filter P q)"
  by (induction q) auto

lemma find_filter: "find P q = (case filter P q of [] \<Rightarrow> None | v # vs \<Rightarrow> Some v)"
  by (induction q) auto

lemma send_frame_all:
  assumes "0 \<le> len" "len \<le> 9999" "len \<le> int (length (req_buf r))"
    and "takes_bytes (wplan ws)" "4 + nat len \<le> accepts (wplan ws)"
  shows "\<exists>ws'. send_frame i r len ws cl = Inr (cl, ws') \<and>
    outq ws' = outq ws @ fmt_04d len @ take (nat len) (req_buf r) \<and> takes_bytes (wplan ws') \<and>
    accepts (wplan ws) \<le> accepts (wplan ws') + (4 + nat len)"
proof -
  have h: "length (fmt_04d len) = 4" using fmt_04d_nonneg(1) [OF assms(1,2)] .
  from send_to_fd_all [OF assms(4), of 4 "fmt_04d len"] h assms(5) obtain ws1 where
    w1: "send_to_fd ws (fmt_04d len) 4 = Inr (4, ws1)" "outq ws1 = outq ws @ fmt_04d len"
    "takes_bytes (wplan ws1)" "accepts (wplan ws) \<le> accepts (wplan ws1) + 4" by auto
  have "nat len \<le> accepts (wplan ws1)" using w1(4) assms(5) by simp
  from send_to_fd_all [OF w1(3) this assms(1,3)] obtain ws2 where
    "send_to_fd ws1 (req_buf r) len = Inr (len, ws2)" "outq ws2 = outq ws1 @ take (nat len) (req_buf r)"
    "takes_bytes (wplan ws2)" "accepts (wplan ws1) \<le> accepts (wplan ws2) + nat len" by blast
  with w1 assms(1) show ?thesis by (intro exI [of _ ws2]) (simp add: send_frame_def)
qed

lemma sender_turn_up:
  assumes "i < length (conns g)" "state (conns g ! i) = 1" "qhead (gmsgq g) \<noteq> 0"
    and "send_round i d (socks (fd (conns g ! i))) g = Inr (g', ws', True)"
  shows "sender_turn i d socks g = Inr (g', socks(fd (conns g ! i) := ws'))"
proof -
  from assms(4) obtain pc g1 where p: "sender_pop i d g = Inr (pc, g1)"
    and t: "(case pc of Sender_popped node \<Rightarrow> bindE (send_node i node (socks (fd (conns g ! i))) g1)
        (\<lambda>(g, ws). Inr (g, ws, True)) | _ \<Rightarrow> Inr (g1, socks (fd (conns g ! i)), False)) = Inr (g', ws', True)"
    by (auto simp: send_round_halves outcome_iffs)
  have "conns g1 = conns g" using p assms(1,2) by (auto simp: sender_pop_def outcome_iffs)
  then show ?thesis using p t assms(3)
    by (cases pc) (auto simp: sender_turn_def sender_check_def Let_def outcome_iffs)
qed

lemma sender_turn_sends:
  assumes "broker_rep g b" "i < length (conns g)" "conns g ! i = \<lparr>fd = f, state = 1, peer_id = con\<rparr>"
    and "filter (for_conn con) (b_queue b) = v # vs" "safe_for con (b_queue b)" "sendable g v"
    and "takes_bytes (wplan (socks f))" "4 + length (body g v) \<le> accepts (wplan (socks f))"
  shows "\<exists>g' ws'. sender_turn i d socks g = Inr (g', socks(f := ws')) \<and>
    outq ws' = outq (socks f) @ frame (body g v) \<and> takes_bytes (wplan ws') \<and>
    accepts (wplan (socks f)) \<le> accepts (wplan ws') + (4 + length (body g v)) \<and>
    broker_rep g' (b_take con b) \<and> conns g' = conns g \<and> requests g' = (requests g)(mq_data v := None)"
proof -
  from assms(6) obtain r where r: "0 \<le> mq_len v" "mq_len v \<le> 9999" "load_req (requests g) (mq_data v) = Inr r"
    "mq_len v \<le> int (length (req_buf r))" "NUL \<in> set (req_buf r)" "body g v = take (nat (mq_len v)) (req_buf r)"
    by (auto simp: sendable_def load_req_def body_def)
  note bl = sendable_length [OF assms(6)]
  from assms(2,3) have c: "i < length (conns g)" "state (conns g ! i) = 1" "peer_id (conns g ! i) = con"
    "fd (conns g ! i) = f" by simp_all
  have "find (for_conn (peer_id (conns g ! i))) (b_queue b) = Some v"
    using assms(4) c(3) by (simp add: find_filter)
  moreover have "\<not> tail_only (peer_id (conns g ! i)) (b_queue b)" using safe_for_no_tail [OF assms(5)] c(3) by simp
  ultimately obtain g1 where g1: "send_round i d (socks f) g = bindE (send_frame i r (mq_len v) (socks f) (conns g))
      (\<lambda>(cl, ws). Inr (g1\<lparr>conns := cl\<rparr>, ws, True))"
    "\<And>cl. broker_rep (g1\<lparr>conns := cl\<rparr>) (b_take con b)" "requests g1 = (requests g)(mq_data v := None)"
    using send_round_frame [OF assms(1) c(1,2) _ _ r(1,2,3,5), of d "socks f"] c(3) by auto
  from send_frame_all [OF r(1,2,4) assms(7), of i "conns g"] assms(8) bl obtain ws' where
    w: "send_frame i r (mq_len v) (socks f) (conns g) = Inr (conns g, ws')"
    "outq ws' = outq (socks f) @ fmt_04d (mq_len v) @ take (nat (mq_len v)) (req_buf r)" "takes_bytes (wplan ws')"
    "accepts (wplan (socks f)) \<le> accepts (wplan ws') + (4 + nat (mq_len v))" by auto
  have "b_queue b \<noteq> []" using assms(4) by auto
  moreover have "queue_rep True (gmsgq g) (b_queue b)" using assms(1) by (simp add: broker_rep_def)
  ultimately have "qhead (gmsgq g) \<noteq> 0" by (simp add: queue_rep_null)
  from sender_turn_up [OF c(1,2) this, of d socks] g1(1) w(1) c(4)
  have "sender_turn i d socks g = Inr (g1\<lparr>conns := conns g\<rparr>, socks(f := ws'))" by simp
  then show ?thesis
    using w g1(2,3) bl r(6) sendable_frame [OF assms(6)] by (intro exI [of _ "g1\<lparr>conns := conns g\<rparr>"] exI [of _ ws']) simp
qed

text \<open>The messages that the next turns send.\<close>

definition outgoing :: "int \<Rightarrow> nat \<Rightarrow> broker \<Rightarrow> msgque_t list" where
  "outgoing con n b = take n (filter (for_conn con) (b_queue b))"

lemma outgoing_Suc:
  "filter (for_conn con) (b_queue b) = v # vs \<Longrightarrow> outgoing con (Suc n) b = v # outgoing con n (b_take con b)"
  by (simp add: outgoing_def b_take_def filter_rem_first)

lemma send_worker_stream:
  "i < length (conns g) \<Longrightarrow> conns g ! i = \<lparr>fd = f, state = 1, peer_id = con\<rparr> \<Longrightarrow> broker_rep g b \<Longrightarrow>
   safe_for con (b_queue b) \<Longrightarrow> length ds \<le> length (filter (for_conn con) (b_queue b)) \<Longrightarrow>
   \<forall>v \<in> set (outgoing con (length ds) b). sendable g v \<Longrightarrow> distinct (map mq_data (outgoing con (length ds) b)) \<Longrightarrow>
   takes_bytes (wplan (socks f)) \<Longrightarrow>
   (\<Sum>v \<leftarrow> outgoing con (length ds) b. 4 + length (body g v)) \<le> accepts (wplan (socks f)) \<Longrightarrow>
   \<exists>g' socks'. send_worker_thread i ds socks g = Inr (g', socks') \<and>
     outq (socks' f) = outq (socks f) @ concat (map (\<lambda>v. frame (body g v)) (outgoing con (length ds) b)) \<and>
     broker_rep g' ((b_take con ^^ length ds) b) \<and> conns g' = conns g"
proof (induction ds arbitrary: g b socks)
  case Nil
  then show ?case by (simp add: outgoing_def)
next
  case (Cons d ds)
  from Cons.prems(5) obtain v vs where v: "filter (for_conn con) (b_queue b) = v # vs"
    by (cases "filter (for_conn con) (b_queue b)") auto
  let ?b = "b_take con b" and ?ms = "outgoing con (length ds) (b_take con b)"
  have out: "outgoing con (length (d # ds)) b = v # ?ms" using outgoing_Suc [OF v] by simp
  note p = Cons.prems [unfolded out]
  from sender_turn_sends [where socks = socks, OF p(3,1,2) v p(4) _ p(8), of d] p(6,9) obtain g1 ws where
    t: "sender_turn i d socks g = Inr (g1, socks(f := ws))" "outq ws = outq (socks f) @ frame (body g v)"
    "takes_bytes (wplan ws)" "accepts (wplan (socks f)) \<le> accepts (wplan ws) + (4 + length (body g v))"
    "broker_rep g1 ?b" "conns g1 = conns g" "requests g1 = (requests g)(mq_data v := None)" by auto
  have same: "body g1 w = body g w" "sendable g1 w = sendable g w" if "w \<in> set ?ms" for w
  proof -
    have "mq_data v \<notin> mq_data ` set ?ms" using p(7) by simp
    then have "mq_data w \<noteq> mq_data v" using that by (metis imageI)
    with other_request [of w "mq_data v" g] t(7) show "body g1 w = body g w" "sendable g1 w = sendable g w"
      by (simp_all add: body_def sendable_def)
  qed
  have b: "map (\<lambda>w. 4 + length (body g1 w)) ?ms = map (\<lambda>w. 4 + length (body g w)) ?ms"
    "map (\<lambda>w. frame (body g1 w)) ?ms = map (\<lambda>w. frame (body g w)) ?ms" using same(1) by simp_all
  have len: "length ds \<le> length (filter (for_conn con) (b_queue ?b))"
    using p(5) v by (simp add: b_take_def filter_rem_first)
  have safe: "safe_for con (b_queue ?b)" using safe_for_rem [OF p(4)] by (simp add: b_take_def)
  let ?socks = "socks(f := ws)"
  have "(\<Sum>w \<leftarrow> ?ms. 4 + length (body g1 w)) \<le> accepts (wplan (?socks f))"
    unfolding b(1) using p(9) t(4) by simp
  moreover have "takes_bytes (wplan (?socks f))" "i < length (conns g1)" "conns g1 ! i = \<lparr>fd = f, state = 1, peer_id = con\<rparr>"
    "\<forall>w \<in> set ?ms. sendable g1 w" "distinct (map mq_data ?ms)" using t(3,6) p(1,2,6,7) same(2) by simp_all
  ultimately obtain g' socks' where
    "send_worker_thread i ds ?socks g1 = Inr (g', socks')"
    "outq (socks' f) = outq (?socks f) @ concat (map (\<lambda>v. frame (body g1 v)) ?ms)"
    "broker_rep g' ((b_take con ^^ length ds) ?b)" "conns g' = conns g1"
    using Cons.IH [OF _ _ t(5) safe len, of ?socks] by blast
  then show ?case
    using t(1,2,6) by (intro exI [of _ g'] exI [of _ socks']) (simp add: outgoing_Suc [OF v] b(2) funpow_swap1)
qed

end
