(* ===== verification/Progress.thy ===== *)
theory Progress
  imports Wakeup Loops
begin

section \<open>With one client and one peer all messages go out\<close>

text \<open>
  A turn of the sender thread of \<open>Loops\<close> is a run of the interleaved threads of \<open>Threads\<close> and
  \<open>Interleave\<close>, so what a thread can do alone it can do there.
\<close>

subsection \<open>A turn is a run\<close>

lemma sender_turn_steps:
  assumes "sender_turn j d socks (shared t) = Inr (g', socks')" "j < length (senders t)" "senders t ! j = Sender_checks"
  shows "tnext\<^sup>*\<^sup>* t (t\<lparr>shared := g'\<rparr>)"
proof -
  let ?t = "\<lambda>g pc. t\<lparr>shared := g, senders := (senders t)[j := pc]\<rparr>"
  have same: "?t g Sender_checks = t\<lparr>shared := g\<rparr>" for g using assms(3) by (simp add: list_update_same_conv assms(2))
  from assms(1) obtain pc g1 where c: "sender_check (shared t) \<noteq> Sender_waits"
    and p: "sender_pop j d (shared t) = Inr (pc, g1)"
    and k: "(case pc of Sender_popped node \<Rightarrow> let f = fd (conns g1 ! j) in
          bindE (send_node j node (socks f) g1) (\<lambda>(g, ws). Inr (g, socks(f := ws))) | _ \<Rightarrow> Inr (g1, socks)) = Inr (g', socks')"
    by (auto simp: sender_turn_def outcome_iffs split: if_splits)
  have "sender_check (shared t) = Sender_runs" using c by (simp add: sender_check_def split: if_splits)
  then have 1: "tnext t (?t (shared t) Sender_runs)" using sender_checks [OF assms(2,3)] by (simp add: tnext_def)
  have 2: "tnext (?t (shared t) Sender_runs) (?t g1 pc)"
    using sender_pops [of j "?t (shared t) Sender_runs" d] assms(2) p by (simp add: tnext_def)
  have "tnext\<^sup>*\<^sup>* (?t g1 pc) (?t g' Sender_checks)"
  proof (cases pc)
    case (Sender_popped node)
    with k obtain ws where "send_node j node (socks (fd (conns g1 ! j))) g1 = Inr (g', ws)" by (auto simp: Let_def outcome_iffs)
    then have "tnext (?t g1 pc) (?t g' Sender_checks)"
      using sender_sends [of j "?t g1 pc" node "socks (fd (conns g1 ! j))"] assms(2) Sender_popped by (simp add: tnext_def)
    then show ?thesis by blast
  qed (use k p in \<open>auto simp: sender_pop_def outcome_iffs split: if_splits\<close>)
  with 1 2 same show ?thesis by (metis converse_rtranclp_into_rtranclp)
qed

lemma sender_thread_steps:
  "send_worker_thread j ds socks (shared t) = Inr (g', socks') \<Longrightarrow> j < length (senders t) \<Longrightarrow> senders t ! j = Sender_checks \<Longrightarrow>
   tnext\<^sup>*\<^sup>* t (t\<lparr>shared := g'\<rparr>)"
proof (induction ds arbitrary: t socks)
  case Nil
  then have "t\<lparr>shared := g'\<rparr> = t" by (cases t) simp
  then show ?case by simp
next
  case (Cons d ds)
  then obtain g1 socks1 where g1: "sender_turn j d socks (shared t) = Inr (g1, socks1)"
    "send_worker_thread j ds socks1 g1 = Inr (g', socks')" by (auto simp: outcome_iffs)
  from Cons.IH [of socks1 "t\<lparr>shared := g1\<rparr>"] g1(2) Cons.prems(2,3) have "tnext\<^sup>*\<^sup>* (t\<lparr>shared := g1\<rparr>) (t\<lparr>shared := g'\<rparr>)" by simp
  with sender_turn_steps [OF g1(1) Cons.prems(2,3)] show ?case by (rule rtranclp_trans)
qed

subsection \<open>The queue of one peer\<close>

lemma take_all:
  "\<forall>v \<in> set (b_queue b). for_conn con v \<Longrightarrow>
   b_queue ((b_take con ^^ n) b) = drop n (b_queue b) \<and> b_sessions ((b_take con ^^ n) b) = b_sessions b"
proof (induction n)
  case (Suc n)
  have r: "\<forall>v \<in> set q. for_conn con v \<Longrightarrow> rem_first (for_conn con) q = tl q" for q by (cases q) auto
  have "\<forall>v \<in> set (drop n (b_queue b)). for_conn con v" using Suc.prems by (auto dest: in_set_dropD)
  with Suc r show ?case by (simp add: b_take_def drop_Suc tl_drop)
qed simp

lemma queue_drains:
  assumes "broker_rep (shared t) b" "broker_ok 1 b" "0 < length (conns (shared t))"
    and "conns (shared t) ! 0 = \<lparr>fd = f, state = 1, peer_id = 0\<rparr>"
    and "\<forall>v \<in> set (b_queue b). sendable (shared t) v" "distinct (map mq_data (b_queue b))" "senders t = [Sender_checks]"
    and "length ds = length (b_queue b)" "takes_bytes (wplan (socks f))"
    and "(\<Sum>v \<leftarrow> b_queue b. 4 + length (body (shared t) v)) \<le> accepts (wplan (socks f))"
  shows "\<exists>g' socks' b'. send_worker_thread 0 ds socks (shared t) = Inr (g', socks') \<and> tnext\<^sup>*\<^sup>* t (t\<lparr>shared := g'\<rparr>) \<and>
    outq (socks' f) = outq (socks f) @ concat (map (\<lambda>v. frame (body (shared t) v)) (b_queue b)) \<and>
    broker_rep g' b' \<and> b_queue b' = [] \<and> b_sessions b' = b_sessions b"
proof -
  let ?n = "length (b_queue b)" and ?g = "shared t"
  have all: "\<forall>v \<in> set (b_queue b). for_conn 0 v" using assms(2) by (force simp: broker_ok_def for_conn_def)
  then have fl: "filter (for_conn 0) (b_queue b) = b_queue b" by (simp add: filter_id_conv)
  then have out: "outgoing 0 (length ds) b = b_queue b" using assms(8) by (simp add: outgoing_def)
  have "safe_for 0 (b_queue b)" using all by (simp add: safe_for_def)
  from send_worker_stream [where socks = socks, OF assms(3,4,1) this, of ds] fl out assms(5,6,8-10) obtain g' socks' where
    s: "send_worker_thread 0 ds socks ?g = Inr (g', socks')" "broker_rep g' ((b_take 0 ^^ ?n) b)"
    "outq (socks' f) = outq (socks f) @ concat (map (\<lambda>v. frame (body ?g v)) (b_queue b))" by auto
  from sender_thread_steps [OF s(1)] assms(7) have "tnext\<^sup>*\<^sup>* t (t\<lparr>shared := g'\<rparr>)" by simp
  with s take_all [OF all, of ?n] show ?thesis
    by (intro exI [of _ g'] exI [of _ socks'] exI [of _ "(b_take 0 ^^ ?n) b"]) simp
qed

lemma broker_rep_unique:
  assumes "broker_rep g b" "broker_rep g b'" shows "b' = b"
proof -
  from assms have "b_sessions b' = b_sessions b" "b_queue b' = b_queue b" "b_rr b' = b_rr b"
    unfolding broker_rep_def by (blast intro: queue_rep_unique | simp)+
  then show ?thesis by simp
qed

subsection \<open>Property\<close>

text \<open>C33. With one peer that is up and one client no message is ever stuck: take any state that an
  interleaving reaches, spurious wake-ups included, in which the sender is not just sending, and whose queued messages have a
  request each and at most four digits of length. Then the threads can go on, without a spurious wake-up and
  without touching the queue before, to where the sender is at the top of its loop; and from there as many turns of the
  sender as messages are queued, on sockets that go on taking bytes, are a run of the threads that writes the frames of exactly
  these messages, in their order, and leaves the queue empty and the sessions as they were.\<close>

theorem one_client_messages_go_out:
  assumes "fnext\<^sup>*\<^sup>* s s'" "queues_ok (fglob s)" "num_peers (cfg (fglob s)) = 1"
    and "clients (thr s) = [Client_idle]" "senders (thr s) = [Sender_checks]"
    and "senders (thr s') ! 0 \<in> {Sender_waits, Sender_checks}"
    and "conns (fglob s') ! 0 = \<lparr>fd = f, state = 1, peer_id = 0\<rparr>" "broker_rep (fglob s') b"
    and "\<forall>v \<in> set (b_queue b). sendable (fglob s') v" "distinct (map mq_data (b_queue b))"
    and "length ds = length (b_queue b)" "takes_bytes (wplan (socks f))"
    and "(\<Sum>v \<leftarrow> b_queue b. 4 + length (body (fglob s') v)) \<le> accepts (wplan (socks f))" "b_queue b \<noteq> []"
  shows "\<exists>t g' socks' b'. tnext\<^sup>*\<^sup>* (thr s') t \<and> shared t = fglob s' \<and> senders t = [Sender_checks] \<and>
    send_worker_thread 0 ds socks (shared t) = Inr (g', socks') \<and> tnext\<^sup>*\<^sup>* t (t\<lparr>shared := g'\<rparr>) \<and>
    outq (socks' f) = outq (socks f) @ concat (map (\<lambda>v. frame (body (fglob s') v)) (b_queue b)) \<and>
    broker_rep g' b' \<and> b_queue b' = [] \<and> b_sessions b' = b_sessions b"
proof -
  have i: "finv s'" "asleep_ok (thr s')"
    using one_client.reach_inv [OF _ assms(1)] assms(2-5) by (simp_all add: finv_def)
  then have l: "length (senders (thr s')) = 1" by (simp add: finv_def)
  from i(1) obtain b1 where "broker_rep (fglob s') b1" "broker_ok 1 b1" "1 = int (length (conns (fglob s')))"
    by (auto simp: finv_def queues_ok_def)
  then have b: "broker_ok 1 b" "0 < length (conns (fglob s'))"
    using broker_rep_unique [OF assms(8)] by auto
  have q: "queue_rep True (gmsgq (fglob s')) (b_queue b)" using assms(8) by (simp add: broker_rep_def)
  obtain t where t: "tnext\<^sup>*\<^sup>* (thr s') t" "shared t = fglob s'" "senders t = [Sender_checks]"
  proof (cases "senders (thr s') ! 0 = Sender_waits")
    case True
    from waiting_sender_is_woken [OF i True q assms(14)]
    have "tnext (thr s') ((thr s')\<lparr>clients := [Client_idle], senders := [Sender_checks]\<rparr>)" by blast
    then show ?thesis by (intro that [of "(thr s')\<lparr>clients := [Client_idle], senders := [Sender_checks]\<rparr>"]) auto
  next
    case False
    with l assms(6) show ?thesis by (intro that [of "thr s'"]) (auto simp: length_Suc_conv)
  qed
  from queue_drains [of t b f ds socks] t(2,3) assms(7-13) b show ?thesis
    by (intro exI [of _ t]) (simp add: t)
qed

text \<open>The sender waits, and the client has pushed its request, whose frame then goes out.\<close>

theorem one_client_messages_go_out_witness:
  "\<exists>g t g' socks' b'. fnext\<^sup>*\<^sup>* (fstate_start\<lparr>thr := threads_start\<lparr>clients := [Client_idle]\<rparr>\<rparr>) (pushed_state g) \<and>
     tnext\<^sup>*\<^sup>* (thr (pushed_state g)) t \<and>
     send_worker_thread 0 [dial_ok 9] (\<lambda>_. \<lparr>outq = [], wplan = replicate 6 (Accept 3)\<rparr>) (shared t) = Inr (g', socks') \<and>
     tnext\<^sup>*\<^sup>* t (t\<lparr>shared := g'\<rparr>) \<and> outq (socks' 3) = ''0002hi'' \<and> broker_rep g' b' \<and> b_queue b' = []"
proof -
  from waiting_run obtain g where g: "push_request 5 11 12 (Timeval 1 0) glob_one = Inr g"
    and run: "fnext\<^sup>*\<^sup>* (fstate_start\<lparr>thr := threads_start\<lparr>clients := [Client_idle]\<rparr>\<rparr>) (pushed_state g)" by blast
  have rep: "broker_rep glob_one broker_empty" "broker_ok 1 broker_empty"
    using glob_demo_rep(1) by (simp_all add: glob_one_def broker_rep_def broker_ok_def broker_empty_def)
  let ?up = "[\<lparr>fd = 3, state = 1, peer_id = 0\<rparr>]"
  let ?v = "\<lparr>mq_data = 5, mq_id = ''a'', mq_len = 2, mq_conn = 0\<rparr>"
  have "case b_push ?up 1 ''a'' 2 5 (Timeval 1 0) 11 12 broker_empty of Inl e \<Rightarrow> False | Inr b \<Rightarrow> b_queue b = [?v]" by code_simp
  then obtain b where b: "b_push ?up 1 ''a'' 2 5 (Timeval 1 0) 11 12 broker_empty = Inr b" "b_queue b = [?v]"
    by (auto split: sum.splits)
  have r: "load_req (requests glob_one) 5 = Inr (req_demo ''a'')" "c_str (req_id (req_demo ''a'')) = Inr ''a''"
    "msg_len (req_demo ''a'') = 2" "cfg glob_one = cfg glob_one" "num_peers (cfg glob_one) = 1" "conns glob_one = ?up"
    using glob_demo_facts(4) req_demo_facts [of "''a''"] by (simp_all add: KEY_SIZE_def glob_one_def)
  from push_refines [OF rep, of "''a''" ?up 2 5 "Timeval 1 0" 11 12] b(1) r g have g': "broker_rep g b" "conns g = ?up" "requests g = requests glob_one"
    by (auto simp: KEY_SIZE_def push_request_def outcome_iffs)
  have s: "sendable g ?v" "body g ?v = ''hi''" by (simp_all add: sendable_def body_def g'(3) glob_one_def glob_demo_def req_demo_def)
  have f: "frame ''hi'' = ''0002hi''" by code_simp
  have w: "takes_bytes (replicate 6 (Accept 3))" "accepts (replicate 6 (Accept 3)) = 6" by (simp_all add: takes_bytes_def accepts_def)
  have p: "fglob (pushed_state g) = g" "senders (thr (pushed_state g)) ! 0 = Sender_waits"
    "queues_ok (fglob (fstate_start\<lparr>thr := threads_start\<lparr>clients := [Client_idle]\<rparr>\<rparr>))"
    "num_peers (cfg (fglob (fstate_start\<lparr>thr := threads_start\<lparr>clients := [Client_idle]\<rparr>\<rparr>))) = 1"
    using glob_one_ok by (simp_all add: pushed_state_def fstate_start_def threads_start_def)
  from one_client_messages_go_out [OF run p(3,4), of 3 b "[dial_ok 9]" "\<lambda>_. \<lparr>outq = [], wplan = replicate 6 (Accept 3)\<rparr>"]
    p(1,2) g' b(2) s w f obtain t g2 socks' b' where
    "tnext\<^sup>*\<^sup>* (thr (pushed_state g)) t" "broker_rep g2 b'" "b_queue b' = []" "outq (socks' 3) = ''0002hi''"
    "send_worker_thread 0 [dial_ok 9] (\<lambda>_. \<lparr>outq = [], wplan = replicate 6 (Accept 3)\<rparr>) (shared t) = Inr (g2, socks')"
    "tnext\<^sup>*\<^sup>* t (t\<lparr>shared := g2\<rparr>)"
    by (auto simp: fstate_start_def threads_start_def)
  with run show ?thesis by blast
qed

end
