(* ===== verification/Link.thy ===== *)
theory Link
  imports Loops
begin

section \<open>What the threads do in many turns\<close>

text \<open>
  The threads of \<open>Loops\<close> over many turns: a sender and the receiver at the other end of its
  connection, a receiver whose stream is out of step, and the queue manager.
\<close>

subsection \<open>From queue to handler\<close>

text \<open>C13. The way of the messages: the sender of a connection that is up writes, in as many turns, its next
  messages in the order they were queued, and takes exactly these out of the queue; the receiver
  that reads these bytes at the other end handles exactly these messages in
  this order, and nothing is left over. The reads may cut the messages in any way, and a header while
  \<open>errno\<close> holds a code to try again (\<open>serves\<close>: a header cut otherwise is misread, \<open>cut_header_is_misread\<close>).
  The queue is one in which the sender never takes the last message from behind others (\<open>safe_for\<close>: all
  its messages are for this connection, or the last one is not), and the messages have one to 9999 bytes.\<close>

theorem link_delivers_in_order:
  assumes "i < length (conns g)" "conns g ! i = \<lparr>fd = f, state = 1, peer_id = con\<rparr>" "broker_rep g b"
    and "safe_for con (b_queue b)" "length ds \<le> length (filter (for_conn con) (b_queue b))"
    and "\<forall>v \<in> set (outgoing con (length ds) b). sendable g v \<and> 0 < mq_len v"
    and "distinct (map mq_data (outgoing con (length ds) b))"
    and "takes_bytes sends" "(\<Sum>v \<leftarrow> outgoing con (length ds) b. 4 + length (body g v)) \<le> accepts sends"
    and "j < length (conns h)" "conns h ! j = \<lparr>fd = k, state = 1, peer_id = q\<rparr>" "length ts = length ds"
    and "serves e0 (map (\<lambda>v. length (body g v)) (outgoing con (length ds) b)) reads"
  shows "\<exists>g' out. send_worker_thread i ds (socks(f := \<lparr>outq = [], wplan = sends\<rparr>)) g = Inr (g', out) \<and>
    broker_rep g' ((b_take con ^^ length ds) b) \<and>
    (case handle_all (zip (map rt_now ts) (map (body g) (outgoing con (length ds) b))) h of
       Inl e \<Rightarrow> recv_worker_thread j ts (ins(k := \<lparr>inq = outq (out f), rplan = reads, rerrno = e0\<rparr>)) h = Inl e
     | Inr (h', ev) \<Rightarrow> \<exists>rc ins'.
         recv_worker_thread j ts (ins(k := \<lparr>inq = outq (out f), rplan = reads, rerrno = e0\<rparr>)) h = Inr (h', rc, ins', ev) \<and>
         inq (ins' k) = [])"
proof -
  let ?ms = "outgoing con (length ds) b"
  let ?ws = "socks(f := \<lparr>outq = [], wplan = sends\<rparr>)"
  have "\<forall>v \<in> set ?ms. sendable g v" using assms(6) by blast
  from send_worker_stream [OF assms(1-5) this assms(7), of ?ws] assms(8,9) obtain g' out where
    s: "send_worker_thread i ds ?ws g = Inr (g', out)" "outq (out f) = concat (map (\<lambda>v. frame (body g v)) ?ms)"
    "broker_rep g' ((b_take con ^^ length ds) b)" by auto
  let ?rs = "ins(k := \<lparr>inq = outq (out f), rplan = reads, rerrno = e0\<rparr>)"
  have "length ts = length (map (body g) ?ms)" using assms(5,12) by (simp add: outgoing_def)
  moreover have "length (body g v) = nat (mq_len v)" "0 < mq_len v" "mq_len v \<le> 9999" if "v \<in> set ?ms" for v
    using that assms(6) sendable_length by (auto simp: sendable_def)
  then have "\<forall>m \<in> set (map (body g) ?ms). m \<noteq> [] \<and> length m \<le> 9999" by force
  moreover have "inq (?rs k) = concat (map frame (map (body g) ?ms)) @ []" by (simp add: s(2) o_def)
  ultimately have "case handle_all (zip (map rt_now ts) (map (body g) ?ms)) h of
       Inl e \<Rightarrow> recv_worker_loop j ts 0 ?rs h = Inl e
     | Inr (h', ev) \<Rightarrow> \<exists>rc ins'. recv_worker_loop j ts 0 ?rs h = Inr (h', rc, ins', ev) \<and> inq (ins' k) = []"
    using assms(10,11,13) by (intro recv_worker_stream) (simp_all add: o_def)
  with s(1,3) show ?thesis unfolding recv_worker_thread_def by blast
qed

text \<open>One connection with two messages: a response, and a text that no handler takes.\<close>

definition response_demo :: string where
  "response_demo = ''<TYPE>2</TYPE><TID>t1</TID>''"

definition sender_demo :: glob where
  "sender_demo = (glob_with [(msg_demo 0 ''x'')\<lparr>mq_len := 27\<rparr>, (msg_demo 0 ''y'')\<lparr>mq_data := 6\<rparr>] [])\<lparr>
     requests := (\<lambda>a. Some ((req_demo ''a'')\<lparr>req_buf := (if a = 5 then response_demo else ''hi'') @ [NUL]\<rparr>))\<rparr>"

definition sender_broker :: broker where
  "sender_broker = broker_with [(msg_demo 0 ''x'')\<lparr>mq_len := 27\<rparr>, (msg_demo 0 ''y'')\<lparr>mq_data := 6\<rparr>] []"

theorem link_delivers_in_order_witness:
  "\<exists>g' out h' rc ins'.
    send_worker_thread 0 [dial_ok 9, dial_ok 9]
      ((\<lambda>_. \<lparr>outq = [], wplan = []\<rparr>)(3 := \<lparr>outq = [], wplan = replicate 37 (Accept 7)\<rparr>)) sender_demo = Inr (g', out) \<and>
    broker_rep g' ((b_take 0 ^^ length [dial_ok 9, dial_ok 9]) sender_broker) \<and>
    recv_worker_thread 1 (replicate 2 \<lparr>rt_dials = [], rt_now = Timeval 12 0\<rparr>)
      ((\<lambda>_. \<lparr>inq = [], rplan = [], rerrno = E_none\<rparr>)(4 := \<lparr>inq = outq (out 3), rplan = Recv_fail EAGAIN # replicate 37 (Deliver 0), rerrno = E_none\<rparr>))
      (glob_with [] [entry_demo]) = Inr (h', rc, ins',
        [Call_res 7 0 8 \<lparr>res_id = ''t1'', retcode = 0, query_res = response_demo\<rparr> 1100]) \<and> inq (ins' 4) = []"
proof -
  let ?ms = "[(msg_demo 0 ''x'')\<lparr>mq_len := 27\<rparr>, (msg_demo 0 ''y'')\<lparr>mq_data := 6\<rparr>]"
  let ?ds = "[dial_ok 9, dial_ok 9]" and ?ts = "replicate 2 \<lparr>rt_dials = [], rt_now = Timeval 12 0\<rparr>"
  have o: "outgoing 0 (length ?ds) sender_broker = ?ms"
    by (simp add: outgoing_def sender_broker_def broker_with_def for_conn_def msg_demo_def)
  have b: "map (body sender_demo) ?ms = [response_demo, ''hi'']"
    by (simp add: body_def sender_demo_def msg_demo_def response_demo_def)
  have rep: "broker_rep sender_demo sender_broker"
    using glob_with_rep [of ?ms "[]"] by (simp add: sender_demo_def sender_broker_def)
  have "case handle_all (zip (map rt_now ?ts) [response_demo, ''hi'']) (glob_with [] [entry_demo]) of Inl e \<Rightarrow> False
    | Inr (h', ev) \<Rightarrow> ev = [Call_res 7 0 8 \<lparr>res_id = ''t1'', retcode = 0, query_res = response_demo\<rparr> 1100]" by code_simp
  then obtain h' where h: "handle_all (zip (map rt_now ?ts) [response_demo, ''hi'']) (glob_with [] [entry_demo]) =
    Inr (h', [Call_res 7 0 8 \<lparr>res_id = ''t1'', retcode = 0, query_res = response_demo\<rparr> 1100])" by (auto split: sum.splits)
  have c: "0 < length (conns sender_demo)" "conns sender_demo ! 0 = \<lparr>fd = 3, state = 1, peer_id = 0\<rparr>"
    "1 < length (conns (glob_with [] [entry_demo]))"
    "conns (glob_with [] [entry_demo]) ! 1 = \<lparr>fd = 4, state = 1, peer_id = 1\<rparr>" "length ?ts = length ?ds"
    by (simp_all add: sender_demo_def glob_with_facts)
  have q: "safe_for 0 (b_queue sender_broker)" "length ?ds \<le> length (filter (for_conn 0) (b_queue sender_broker))"
    by (simp_all add: safe_for_def sender_broker_def broker_with_def for_conn_def msg_demo_def)
  have m: "\<forall>v \<in> set (outgoing 0 (length ?ds) sender_broker). sendable sender_demo v \<and> 0 < mq_len v"
    "distinct (map mq_data (outgoing 0 (length ?ds) sender_broker))"
    unfolding o by (simp_all add: sendable_def sender_demo_def msg_demo_def response_demo_def)
  have bl: "length (body sender_demo (?ms ! 0)) = 27" "length (body sender_demo (?ms ! 1)) = 2"
    using b by (simp_all add: response_demo_def)
  have p: "takes_bytes (replicate 37 (Accept 7))"
    "(\<Sum>v \<leftarrow> outgoing 0 (length ?ds) sender_broker. 4 + length (body sender_demo v)) \<le> accepts (replicate 37 (Accept 7))"
    unfolding o using bl by (simp_all add: takes_bytes_def accepts_def)
  have "serves E_none [27, 2] (Recv_fail EAGAIN # replicate 37 (Deliver 0))" by code_simp
  moreover have "map (\<lambda>v. length (body sender_demo v)) ?ms = [27, 2]" using bl by simp
  ultimately have sv: "serves E_none (map (\<lambda>v. length (body sender_demo v)) (outgoing 0 (length ?ds) sender_broker))
      (Recv_fail EAGAIN # replicate 37 (Deliver 0))" unfolding o by simp
  from link_delivers_in_order [OF c(1,2) rep q m p c(3-5) sv, of "\<lambda>_. \<lparr>outq = [], wplan = []\<rparr>"
      "\<lambda>_. \<lparr>inq = [], rplan = [], rerrno = E_none\<rparr>"]
  show ?thesis unfolding o b h sum.case prod.case by blast
qed

subsection \<open>The queue manager over many passes\<close>

lemma marks_ok_expire: "marks_ok strs nows 0 (b_sessions (b_expire nows' b)) = marks_ok strs nows 0 (b_sessions b)"
proof -
  have "ETime (mark_all nows' 0 (b_sessions b) ! j) = ETime (b_sessions b ! j)"
    "callback_param (mark_all nows' 0 (b_sessions b) ! j) = callback_param (b_sessions b ! j)"
    if "j < length (b_sessions b)" for j using mark_all_nth [OF that, of nows' 0] by simp_all
  then show ?thesis by (simp add: marks_ok_nth b_expire_def)
qed

lemma qmanager_thread_faults:
  "broker_rep g b \<Longrightarrow> \<exists>nows \<in> set passes. \<not> marks_ok (c_strs g) nows 0 (b_sessions b) \<Longrightarrow>
   \<exists>x. qmanager_thread passes g = Inl (UB x)"
proof (induction passes arbitrary: g b)
  case (Cons nows passes)
  show ?case
  proof (cases "marks_ok (c_strs g) nows 0 (b_sessions b)")
    case True
    with qmanager_refines [OF Cons.prems(1), of nows] obtain g1 where
      g1: "qmanager_round nows g = Inr g1" "broker_rep g1 (b_expire nows b)" by auto
    have "c_strs g1 = c_strs g" using qmanager_round_expires [OF Cons.prems(1) g1(1)] by simp
    with True Cons.prems(2) Cons.IH [OF g1(2)] g1(1) show ?thesis by (auto simp: marks_ok_expire)
  next
    case False
    with qmanager_refines [OF Cons.prems(1), of nows] show ?thesis by auto
  qed
qed simp

lemma qmanager_thread_passes:
  "broker_rep g b \<Longrightarrow> \<forall>nows \<in> set passes. marks_ok (c_strs g) nows 0 (b_sessions b) \<Longrightarrow>
   \<exists>g' b'. qmanager_thread passes g = Inr g' \<and> broker_rep g' b' \<and> b_queue b' = b_queue b \<and>
     length (b_sessions b') = length (b_sessions b) \<and>
     (\<forall>i < length (b_sessions b). b_sessions b' ! i =
        (if \<exists>nows \<in> set passes. ETime (b_sessions b ! i) < nows i then (b_sessions b ! i)\<lparr>is_expired := 1\<rparr>
         else b_sessions b ! i))"
proof (induction passes arbitrary: g b)
  case Nil
  then show ?case by (intro exI [of _ g] exI [of _ b]) simp
next
  case (Cons nows passes)
  from qmanager_refines [OF Cons.prems(1), of nows] Cons.prems(2) obtain g1 where
    g1: "qmanager_round nows g = Inr g1" "broker_rep g1 (b_expire nows b)" by auto
  have "c_strs g1 = c_strs g" using qmanager_round_expires [OF Cons.prems(1) g1(1)] by simp
  then have "\<forall>nows' \<in> set passes. marks_ok (c_strs g1) nows' 0 (b_sessions (b_expire nows b))"
    using Cons.prems(2) by (simp add: marks_ok_expire)
  from Cons.IH [OF g1(2) this] obtain g' b' where
    g': "qmanager_thread passes g1 = Inr g'" "broker_rep g' b'" "b_queue b' = b_queue (b_expire nows b)"
    "length (b_sessions b') = length (b_sessions (b_expire nows b))"
    and s: "\<forall>i < length (b_sessions (b_expire nows b)). b_sessions b' ! i =
      (if \<exists>t \<in> set passes. ETime (b_sessions (b_expire nows b) ! i) < t i
       then (b_sessions (b_expire nows b) ! i)\<lparr>is_expired := 1\<rparr> else b_sessions (b_expire nows b) ! i)"
    by (elim exE conjE) (rule that)
  have "b_sessions b' ! i = (if \<exists>nows \<in> set (nows # passes). ETime (b_sessions b ! i) < nows i
      then (b_sessions b ! i)\<lparr>is_expired := 1\<rparr> else b_sessions b ! i)" if i: "i < length (b_sessions b)" for i
  proof -
    define x where "x = b_sessions (b_expire nows b) ! i"
    have x: "x = (if ETime (b_sessions b ! i) < nows i then (b_sessions b ! i)\<lparr>is_expired := 1\<rparr> else b_sessions b ! i)"
      using mark_all_nth [OF i, of nows 0] by (simp add: b_expire_def x_def)
    have "b_sessions b' ! i = (if \<exists>nows \<in> set passes. ETime x < nows i then x\<lparr>is_expired := 1\<rparr> else x)"
      unfolding x_def by (rule s [rule_format]) (use i in \<open>simp add: b_expire_def\<close>)
    then show ?thesis unfolding x by simp
  qed
  moreover have "qmanager_thread (nows # passes) g = Inr g'" using g1(1) g'(1) by simp
  moreover have "b_queue b' = b_queue b" "length (b_sessions b') = length (b_sessions b)"
    using g'(3,4) by (simp_all add: b_expire_def)
  ultimately show ?case using g'(2) by blast
qed

text \<open>C36. However long the queue manager runs, it closes no session and touches no message: a session is
  marked as expired exactly when one of the passes read a time for it that is later than its expiry
  time (or it was marked before), and everything else in it stays. But it logs the callback parameter
  of each session it finds expired as if it were a string: if for one of them no string starts there (the parameter
  is opaque, and it may be NULL), the run ends in undefined behaviour, and in no other case.\<close>

theorem manager_only_marks:
  assumes "broker_rep g b"
  shows "if \<exists>nows \<in> set passes. \<exists>i < length (b_sessions b). ETime (b_sessions b ! i) < nows i \<and>
        (callback_param (b_sessions b ! i) = 0 \<or> \<not> c_strs g (callback_param (b_sessions b ! i)))
    then \<exists>x. qmanager_thread passes g = Inl (UB x)
    else \<exists>g' b'. qmanager_thread passes g = Inr g' \<and> broker_rep g' b' \<and> b_queue b' = b_queue b \<and>
      length (b_sessions b') = length (b_sessions b) \<and>
      (\<forall>i < length (b_sessions b). b_sessions b' ! i =
         (if \<exists>nows \<in> set passes. ETime (b_sessions b ! i) < nows i
          then (b_sessions b ! i)\<lparr>is_expired := 1\<rparr> else b_sessions b ! i))"
proof -
  have "(\<exists>nows \<in> set passes. \<exists>i < length (b_sessions b). ETime (b_sessions b ! i) < nows i \<and>
        (callback_param (b_sessions b ! i) = 0 \<or> \<not> c_strs g (callback_param (b_sessions b ! i)))) \<longleftrightarrow>
    (\<exists>nows \<in> set passes. \<not> marks_ok (c_strs g) nows 0 (b_sessions b))"
    by (auto simp: marks_ok_nth log_str_def)
  then show ?thesis
    using qmanager_thread_faults [OF assms, of passes] qmanager_thread_passes [OF assms, of passes] by (simp only: if_bool_eq_conj) blast
qed

theorem manager_only_marks_witness:
  "(\<exists>g' b'. qmanager_thread [\<lambda>_. Timeval 20 0, \<lambda>_. Timeval 41 0] (glob_with [] [entry_demo]) = Inr g' \<and> broker_rep g' b' \<and>
     b_sessions b' = [entry_demo\<lparr>is_expired := 1\<rparr>]) \<and>
   (\<exists>x. qmanager_thread [\<lambda>_. Timeval 20 0, \<lambda>_. Timeval 41 0] ((glob_with [] [entry_demo])\<lparr>c_strs := \<lambda>_. False\<rparr>) = Inl (UB x))"
proof -
  let ?g = "glob_with [] [entry_demo]" and ?ps = "[\<lambda>_. Timeval 20 0, \<lambda>_. Timeval 41 0]"
  have e: "ETime entry_demo < Timeval 41 0" "callback_param entry_demo \<noteq> 0"
    by (simp_all add: entry_demo_def new_entry_def plus_expiry_def EXPIRY_def less_timeval_def)
  have "c_strs ?g (callback_param entry_demo)" using e(2) by (simp add: glob_with_def glob_demo_def)
  with manager_only_marks [OF glob_with_rep [of "[]" "[entry_demo]"], of ?ps] e
  obtain g' b' where m: "qmanager_thread ?ps ?g = Inr g'"
    "broker_rep g' b'" "length (b_sessions b') = 1" "b_sessions b' ! 0 = entry_demo\<lparr>is_expired := 1\<rparr>"
    by (auto simp: broker_with_def)
  then have "b_sessions b' = [entry_demo\<lparr>is_expired := 1\<rparr>]" by (cases "b_sessions b'") auto
  moreover have "broker_rep (?g\<lparr>c_strs := \<lambda>_. False\<rparr>) (broker_with [] [entry_demo])" using glob_with_rep [of "[]" "[entry_demo]"] by simp
  from manager_only_marks [OF this, of ?ps] e(1)
  have "\<exists>x. qmanager_thread ?ps (?g\<lparr>c_strs := \<lambda>_. False\<rparr>) = Inl (UB x)" by (auto simp: broker_with_def)
  ultimately show ?thesis using m(1,2) by blast
qed

subsection \<open>A stream out of step\<close>

text \<open>Four bytes that are no length of a message, as a receiver out of step with the stream reads
  them: without a number, or with 0, the receiver takes the connection for closed and drops it,
  though the peer has not closed it; -1 makes it read memory it did not allocate, and a smaller number
  makes it print a string at NULL. No handler is called for any of them.\<close>

theorem header_without_length:
  assumes "i < length (conns g)" "state (conns g ! i) = 1" "rplan (socks (fd (conns g ! i))) = Deliver k # p" "3 \<le> k"
    and "4 \<le> length (inq (socks (fd (conns g ! i))))"
    and "atoi (cut_nul (take 4 (inq (socks (fd (conns g ! i)))))) = n" "n \<le> 0"
  shows "recv_round i ds socks now rc g =
    (let s = (socks (fd (conns g ! i)))\<lparr>inq := drop 4 (inq (socks (fd (conns g ! i)))), rplan := p\<rparr> in
     if n = 0 then Inr (g\<lparr>conns := set_con_state i 0 (conns g)\<rparr>, 0, s, [])
     else Inl (UB (if n = -1 then Invalid_Access else Null_Deref)))"
  using receive_bad_header [OF assms(3-7), of rc] assms(1,2,7)
  by (simp add: recv_round_def reconnect_loop_up Let_def)

theorem header_without_length_witness:
  "recv_round 1 [] (\<lambda>_. \<lparr>inq = ''<TYPE>2</TYPE>'', rplan = [Deliver 9], rerrno = E_none\<rparr>) (Timeval 1 0) 27 glob_demo =
     Inr (glob_demo\<lparr>conns := set_con_state 1 0 peers_up\<rparr>, 0, \<lparr>inq = ''E>2</TYPE>'', rplan = [], rerrno = E_none\<rparr>, [])"
proof -
  have "atoi (cut_nul ''<TYP'') = 0" by code_simp
  then show ?thesis
    using header_without_length [of 1 glob_demo "\<lambda>_. \<lparr>inq = ''<TYPE>2</TYPE>'', rplan = [Deliver 9], rerrno = E_none\<rparr>" 9
        "[]" 0 "[]" "Timeval 1 0" 27]
    by (simp add: glob_demo_def peers_up_def eval_nat_numeral)
qed

text \<open>A text that begins with a tag is no number.\<close>

lemma atoi_tag: "atoi (CHR ''<'' # s) = 0"
  by (simp add: atoi_def atol_def to_int32_def saturate_long_def c_isspace_def c_isdigit_def)

text \<open>C37. When the four bytes of the header cannot be written but the message after them can, as the sender
  tries all the same, the peer reads the first bytes of the message as a header: it takes the
  connection for closed and drops it, calls no handler, and leaves the rest of the message unread. On the sender's
  side the connection is marked down too, and the message is gone.\<close>

theorem lost_header_drops_connection:
  assumes "broker_rep g b" "i < length (conns g)" "state (conns g ! i) = 1"
    and "find (for_conn (peer_id (conns g ! i))) (b_queue b) = Some v"
    and "\<not> tail_only (peer_id (conns g ! i)) (b_queue b)"
    and "4 \<le> mq_len v" "mq_len v \<le> 9999" "load_req (requests g) (mq_data v) = Inr r"
    and "req_buf r = CHR ''<'' # rest @ [NUL]" "mq_len v = int (length rest) + 1"
    and "wplan ws = [Send_fail (E_other n), Accept k]" "mq_len v \<le> int k" "outq ws = []"
    and "j < length (conns h)" "conns h ! j = \<lparr>fd = f, state = 1, peer_id = q\<rparr>" "3 \<le> m"
  shows "\<exists>g' ws'. send_round i d ws g = Inr (g', ws', True) \<and> broker_rep g' (b_take (peer_id (conns g ! i)) b) \<and>
    conns g' = set_con_state i 0 (conns g) \<and>
    recv_round j ds (ins(f := \<lparr>inq = outq ws', rplan = Deliver m # p, rerrno = e0\<rparr>)) now rc h =
      Inr (h\<lparr>conns := set_con_state j 0 (conns h)\<rparr>, 0, \<lparr>inq = drop 3 rest, rplan = p, rerrno = e0\<rparr>, [])"
proof -
  have l: "0 < mq_len v" "mq_len v \<le> int (length (req_buf r))" "NUL \<in> set (req_buf r)" using assms(6,9,10) by simp_all
  from failed_header_still_sends_body [OF assms(1-5) l(1) assms(7) l(2) assms(8) l(3) assms(11,12), of d] obtain g' ws' where
    s: "send_round i d ws g = Inr (g', ws', True)" "outq ws' = outq ws @ take (nat (mq_len v)) (req_buf r)"
    "conns g' = set_con_state i 0 (conns g)" "broker_rep g' (b_take (peer_id (conns g ! i)) b)" by blast
  have "nat (mq_len v) = Suc (length rest)" using assms(10) by simp
  then have o: "outq ws' = CHR ''<'' # rest" using s(2) assms(9,13) by simp
  let ?s = "ins(f := \<lparr>inq = outq ws', rplan = Deliver m # p, rerrno = e0\<rparr>)"
  have "4 \<le> length (inq (?s (fd (conns h ! j))))" using assms(6,10,15) by (simp add: o)
  moreover have "\<exists>t. cut_nul (take 4 (inq (?s (fd (conns h ! j))))) = CHR ''<'' # t"
    using assms(15) by (simp add: o cut_nul_def eval_nat_numeral)
  then have "atoi (cut_nul (take 4 (inq (?s (fd (conns h ! j)))))) = 0" using atoi_tag by auto
  ultimately have "recv_round j ds ?s now rc h =
      Inr (h\<lparr>conns := set_con_state j 0 (conns h)\<rparr>, 0, \<lparr>inq = drop 3 rest, rplan = p, rerrno = e0\<rparr>, [])"
    using header_without_length [of j h ?s m p 0 ds now rc] assms(14-16) by (simp add: o eval_nat_numeral)
  with s(1,3,4) show ?thesis by blast
qed

theorem lost_header_drops_connection_witness:
  "\<exists>g' ws'. send_round 0 (dial_ok 9) \<lparr>outq = [], wplan = [Send_fail (E_other 32), Accept 99]\<rparr> sender_demo = Inr (g', ws', True) \<and>
     conns g' = set_con_state 0 0 peers_up \<and>
     recv_round 1 [] ((\<lambda>_. \<lparr>inq = [], rplan = [], rerrno = E_none\<rparr>)(4 := \<lparr>inq = outq ws', rplan = [Deliver 9], rerrno = E_none\<rparr>))
       (Timeval 12 0) 5 (glob_with [] [entry_demo]) =
       Inr ((glob_with [] [entry_demo])\<lparr>conns := set_con_state 1 0 peers_up\<rparr>, 0,
         \<lparr>inq = ''E>2</TYPE><TID>t1</TID>'', rplan = [], rerrno = E_none\<rparr>, [])"
proof -
  let ?v = "(msg_demo 0 ''x'')\<lparr>mq_len := 27\<rparr>" and ?r = "(req_demo ''a'')\<lparr>req_buf := response_demo @ [NUL]\<rparr>"
  have rep: "broker_rep sender_demo sender_broker"
    using glob_with_rep [of "[?v, (msg_demo 0 ''y'')\<lparr>mq_data := 6\<rparr>]" "[]"] by (simp add: sender_demo_def sender_broker_def)
  have c: "0 < length (conns sender_demo)" "state (conns sender_demo ! 0) = 1" "conns sender_demo = peers_up"
    "1 < length (conns (glob_with [] [entry_demo]))" "conns (glob_with [] [entry_demo]) ! 1 = \<lparr>fd = 4, state = 1, peer_id = 1\<rparr>"
    "conns (glob_with [] [entry_demo]) = peers_up"
    by (simp_all add: sender_demo_def glob_with_facts)
  have q: "find (for_conn (peer_id (conns sender_demo ! 0))) (b_queue sender_broker) = Some ?v"
    "\<not> tail_only (peer_id (conns sender_demo ! 0)) (b_queue sender_broker)" "mq_len ?v = 27"
    "load_req (requests sender_demo) (mq_data ?v) = Inr ?r"
    by (simp_all add: sender_demo_def sender_broker_def broker_with_def glob_with_facts tail_only_def for_conn_def msg_demo_def load_req_def)
  have b: "req_buf ?r = CHR ''<'' # ''TYPE>2</TYPE><TID>t1</TID>'' @ [NUL]" by (simp add: response_demo_def)
  from lost_header_drops_connection [OF rep c(1,2) q(1,2) _ _ q(4) b, of "\<lparr>outq = [], wplan = [Send_fail (E_other 32), Accept 99]\<rparr>" 32 99
      1 "glob_with [] [entry_demo]" 4 1 9 "dial_ok 9" "[]" "\<lambda>_. \<lparr>inq = [], rplan = [], rerrno = E_none\<rparr>" "[]" E_none "Timeval 12 0" 5] q(3) c
  show ?thesis by (auto simp: eval_nat_numeral)
qed

end
