(* ===== verification/Transaction.thy ===== *)
theory Transaction
  imports Link Session
begin

section \<open>A transaction through all threads\<close>

text \<open>
  From the call of the client to its callback: \<open>sl_send_buf\<close>, a turn of the sender of the chosen peer,
  a pass of the queue manager, and a turn of that peer's receiver, which finds the response on
  the connection.
\<close>

lemma ready_to_send_other:
  "ready_to_send req f p now g = Inr (rc, sig, g') \<Longrightarrow> conns g' = conns g \<and> cfg g' = cfg g \<and> requests g' = requests g"
  by (auto simp: ready_to_send_def push_request_def outcome_iffs)

lemma push_request_strs: "push_request req f p now g = Inr g' \<Longrightarrow> c_strs g' = c_strs g"
  by (auto simp: push_request_def outcome_iffs)

lemma sender_turn_strs: "sender_turn i d socks g = Inr (g', socks') \<Longrightarrow> c_strs g' = c_strs g"
  by (auto simp: sender_turn_def sender_pop_def send_node_def Let_def outcome_iffs split: if_splits sender_pc.splits)

lemma marks_ok_snoc:
  "marks_ok strs nows 0 (es @ [new_entry s con t0 f p]) \<longleftrightarrow>
     (\<forall>j < length es. ETime (es ! j) < nows j \<longrightarrow> callback_param (es ! j) \<noteq> 0 \<and> strs (callback_param (es ! j))) \<and>
     (plus_expiry t0 < nows (length es) \<longrightarrow> p \<noteq> 0 \<and> strs p)"
proof -
  have "marks_ok strs nows i (es @ [e]) \<longleftrightarrow> marks_ok strs nows i es \<and> log_expired strs (nows (i + length es)) e = Inr ()" for i e
    by (induction es arbitrary: i) auto
  from this [of 0 "new_entry s con t0 f p"] show ?thesis
    by (simp only: marks_ok_nth [of strs nows 0 es] log_expired_less log_str_ok) (simp add: new_entry_def)
qed

lemma con_eta: "state c = 1 \<Longrightarrow> peer_id c = k \<Longrightarrow> c = \<lparr>fd = fd c, state = 1, peer_id = k\<rparr>"
  by (cases c) simp

subsection \<open>The request on its way\<close>

lemma request_goes_out:
  assumes "broker_rep g b" "broker_ok (num_peers (cfg g)) b" "num_peers (cfg g) = int (length (conns g))"
    and "\<forall>c < length (conns g). state (conns g ! c) = 1 \<and> peer_id (conns g ! c) = int c" "b_queue b = []"
    and "load_req (requests g) req = Inr r" "c_str (req_id r) = Inr s" "s \<noteq> []" "length s < KEY_SIZE"
    and "find (has_id s) (b_sessions b) = None" "0 \<le> msg_len r" "msg_len r \<le> 9999"
    and "msg_len r \<le> int (length (req_buf r))" "NUL \<in> set (req_buf r)"
    and "takes_bytes sends" "4 + nat (msg_len r) \<le> accepts sends"
  shows "\<exists>i rr g1 g2 out. i < length (conns g) \<and> sl_send_buf req f p t0 g = Inr (1, True, g1) \<and>
    send_worker_thread i [d] (\<lambda>_. \<lparr>outq = [], wplan = sends\<rparr>) g1 = Inr (g2, out) \<and>
    outq (out (fd (conns g ! i))) = frame (take (nat (msg_len r)) (req_buf r)) \<and> requests g2 req = None \<and>
    conns g2 = conns g \<and> c_strs g2 = c_strs g \<and>
    broker_rep g2 \<lparr>b_sessions = b_sessions b @ [new_entry s (int i) t0 f p], b_queue = [], b_rr = rr\<rparr>"
proof -
  have n: "0 < length (conns g)" using assms(2,3) by (auto simp: broker_ok_def)
  with assms(3,4) have up: "0 < nat (num_peers (cfg g))" "state (conns g ! 0) = 1" by simp_all
  have le: "num_peers (cfg g) \<le> int (length (conns g))" using assms(3) by simp
  from push_new_session [OF assms(2) le up assms(10), of "msg_len r" req t0 f p] obtain con rr where
    push: "b_push (conns g) (num_peers (cfg g)) s (msg_len r) req t0 f p b = Inr
      \<lparr>b_sessions = b_sessions b @ [new_entry s con t0 f p],
       b_queue = [\<lparr>mq_data = req, mq_id = s, mq_len = msg_len r, mq_conn = con\<rparr>], b_rr = rr\<rparr>"
    using assms(5) by auto
  let ?v = "\<lparr>mq_data = req, mq_id = s, mq_len = msg_len r, mq_conn = con\<rparr>"
  let ?b = "\<lparr>b_sessions = b_sessions b @ [new_entry s con t0 f p], b_queue = [?v], b_rr = rr\<rparr>"
  have "0 \<le> con" "con < int (length (conns g))"
    using broker_ok_push [OF assms(2,8) le push] assms(3) by (simp_all add: broker_ok_def)
  then obtain i where i: "con = int i" "i < length (conns g)" using zero_le_imp_eq_int by fastforce
  from ready_to_send_signals [OF assms(1,2) le assms(6-9), of f p t0] push assms(5) obtain g1 where
    g1: "ready_to_send req f p t0 g = Inr (1, True, g1)" "broker_rep g1 ?b" by auto
  note o = ready_to_send_other [OF g1(1)]
  have c: "i < length (conns g1)" "conns g1 ! i = \<lparr>fd = fd (conns g ! i), state = 1, peer_id = con\<rparr>"
    using i o assms(4) con_eta [of "conns g ! i" con] by auto
  have r: "req \<noteq> 0" "requests g req = Some r" using assms(6) by (auto simp: load_req_def split: if_splits option.splits)
  have v: "sendable g1 ?v" "body g1 ?v = take (nat (msg_len r)) (req_buf r)"
    using r o assms(11-14) by (auto simp: sendable_def body_def)
  have q: "filter (for_conn con) (b_queue ?b) = ?v # []" "safe_for con (b_queue ?b)"
    by (simp_all add: for_conn_def safe_for_def)
  let ?ws = "\<lambda>_. \<lparr>outq = [], wplan = sends\<rparr>"
  have "4 + length (body g1 ?v) \<le> accepts (wplan (?ws (fd (conns g ! i))))"
    using assms(13,16) sendable_length [OF v(1)] by simp
  from sender_turn_sends [where socks = ?ws, OF g1(2) c q v(1) _ this, of d] assms(15) obtain g2 ws where
    t: "sender_turn i d ?ws g1 = Inr (g2, ?ws(fd (conns g ! i) := ws))" "outq ws = frame (body g1 ?v)"
    "broker_rep g2 (b_take con ?b)" "conns g2 = conns g1" "requests g2 = (requests g1)(req := None)" by auto
  have "c_strs g2 = c_strs g"
    using sender_turn_strs [OF t(1)] push_request_strs g1(1) by (auto simp: ready_to_send_def outcome_iffs)
  moreover have "b_take con ?b = \<lparr>b_sessions = b_sessions b @ [new_entry s (int i) t0 f p], b_queue = [], b_rr = rr\<rparr>"
    by (simp add: b_take_def for_conn_def i(1))
  ultimately show ?thesis using t g1(1) i(2) o v(2)
    by (intro exI [of _ i] exI [of _ rr] exI [of _ g1] exI [of _ g2] exI [of _ "?ws(fd (conns g ! i) := ws)"])
      (simp add: sl_send_buf_def)
qed

subsection \<open>The response on its way back\<close>

lemma reply_comes_back:
  assumes "broker_rep g \<lparr>b_sessions = es @ [new_entry s con t0 f p], b_queue = [], b_rr = rr\<rparr>"
    and "find (has_id s) es = None" "s \<noteq> []" "length s < KEY_SIZE" "CHR ''<'' \<notin> set s" "NUL \<notin> set s" "f \<noteq> 0"
    and "0 \<le> code" "code < 2 ^ 31" "length (response_text code s) \<le> 9999"
    and "i < length (conns g)" "state (conns g ! i) = 1"
    and "serves e0 [length (response_text code s)] reads"
  shows "if marks_ok (c_strs g) nows 0 (es @ [new_entry s con t0 f p]) then
    \<exists>g3 g4 rc ins'. qmanager_thread [nows] g = Inr g3 \<and>
    recv_worker_thread i [t] (\<lambda>_. \<lparr>inq = frame (response_text code s), rplan = reads, rerrno = e0\<rparr>) g3 = Inr (g4, rc, ins',
      [Call_res f (if plus_expiry t0 < nows (length es) then 1 else 0) p
         \<lparr>res_id = s, retcode = code, query_res = response_text code s\<rparr> (elapsed_ms (rt_now t) t0)]) \<and>
    broker_rep g4 \<lparr>b_sessions = mark_all nows 0 es, b_queue = [], b_rr = rr\<rparr>
    else \<exists>x. qmanager_thread [nows] g = Inl (UB x)"
proof (cases "marks_ok (c_strs g) nows 0 (es @ [new_entry s con t0 f p])")
  case True
  let ?m = "response_text code s"
  from True response_closes_session [OF assms(1-9), of nows "rt_now t"] obtain g3 g4 where
    g3: "qmanager_round nows g = Inr g3" "conns g3 = conns g"
    and g4: "handle_message (rt_now t) (Some ?m) (int (length ?m)) g3 = Inr (g4,
      [Call_res f (if plus_expiry t0 < nows (length es) then 1 else 0) p
         \<lparr>res_id = s, retcode = code, query_res = ?m\<rparr> (elapsed_ms (rt_now t) t0)])"
    "broker_rep g4 \<lparr>b_sessions = mark_all nows 0 es, b_queue = [], b_rr = rr\<rparr>" by (simp only: if_True) blast
  from g4(1) have h: "handle_all (zip (map rt_now [t]) [?m]) g3 = Inr (g4,
      [Call_res f (if plus_expiry t0 < nows (length es) then 1 else 0) p
         \<lparr>res_id = s, retcode = code, query_res = ?m\<rparr> (elapsed_ms (rt_now t) t0)])" by simp
  have "?m \<noteq> []" by (simp add: response_text_def)
  with recv_worker_stream [of "[t]" "[?m]" i g3 "fd (conns g ! i)" "\<lambda>_. \<lparr>inq = frame ?m, rplan = reads, rerrno = e0\<rparr>" "[]" 0]
    g3(2) assms(10-13) have "\<exists>rc ins'. recv_worker_thread i [t] (\<lambda>_. \<lparr>inq = frame ?m, rplan = reads, rerrno = e0\<rparr>) g3 =
      Inr (g4, rc, ins', [Call_res f (if plus_expiry t0 < nows (length es) then 1 else 0) p
         \<lparr>res_id = s, retcode = code, query_res = ?m\<rparr> (elapsed_ms (rt_now t) t0)])"
    unfolding h by (auto simp: recv_worker_thread_def)
  with True g3(1) g4(2) show ?thesis by auto
next
  case False
  with response_closes_session [OF assms(1-9), of nows "rt_now t"] show ?thesis by auto
qed

lemma response_length:
  assumes "0 \<le> code" "code < 2 ^ 31" "length s < KEY_SIZE"
  shows "length (response_text code s) \<le> 9999"
proof -
  have "length (dec_nat (nat code)) \<le> 10" using assms(2) by (subst length_dec_nat) auto
  then show ?thesis using assms by (simp add: response_text_def fmt_d_def KEY_SIZE_def)
qed

subsection \<open>Property\<close>

text \<open>C1. A transaction from the client's call to its callback. All peers are up and nothing is queued; a
  client sends a request with a new id. It wakes a sender; one turn of the sender of the chosen peer
  writes the frame of the request, and the request is freed. The queue manager makes a pass. When the
  peer has sent a response with this id, one turn of its receiver calls the client's callback once, with its
  parameter, the reply code, the whole message and the time since
  the request, flagged as a timeout exactly when the pass read a time later than 30 seconds after
  the request; then the session is closed, the other sessions are as the pass left them, and the queue is empty.
  The reads may cut the message in any way, and its header while \<open>errno\<close> says to try again (\<open>serves\<close>). The
  pass ends only if the callback parameters of the sessions it finds expired are strings, which it prints;
  else it is undefined.\<close>

theorem transaction_over_the_wire:
  assumes "broker_rep g b" "broker_ok (num_peers (cfg g)) b" "num_peers (cfg g) = int (length (conns g))"
    and "\<forall>c < length (conns g). state (conns g ! c) = 1 \<and> peer_id (conns g ! c) = int c" "b_queue b = []"
    and "load_req (requests g) req = Inr r" "c_str (req_id r) = Inr s" "s \<noteq> []" "length s < KEY_SIZE"
    and "CHR ''<'' \<notin> set s" "find (has_id s) (b_sessions b) = None" "f \<noteq> 0" "0 \<le> code" "code < 2 ^ 31"
    and "0 \<le> msg_len r" "msg_len r \<le> 9999" "msg_len r \<le> int (length (req_buf r))" "NUL \<in> set (req_buf r)"
    and "takes_bytes sends" "4 + nat (msg_len r) \<le> accepts sends"
    and "serves e0 [length (response_text code s)] reads"
  shows "\<exists>i g1 g2 out rr. i < length (conns g) \<and>
    sl_send_buf req f p t0 g = Inr (1, True, g1) \<and>
    send_worker_thread i [d] (\<lambda>_. \<lparr>outq = [], wplan = sends\<rparr>) g1 = Inr (g2, out) \<and>
    outq (out (fd (conns g ! i))) = frame (take (nat (msg_len r)) (req_buf r)) \<and> requests g2 req = None \<and>
    (if (\<forall>j < length (b_sessions b). ETime (b_sessions b ! j) < nows j \<longrightarrow>
           callback_param (b_sessions b ! j) \<noteq> 0 \<and> c_strs g (callback_param (b_sessions b ! j))) \<and>
         (plus_expiry t0 < nows (length (b_sessions b)) \<longrightarrow> p \<noteq> 0 \<and> c_strs g p)
     then \<exists>g3 g4 rc ins. qmanager_thread [nows] g2 = Inr g3 \<and>
       recv_worker_thread i [t] (\<lambda>_. \<lparr>inq = frame (response_text code s), rplan = reads, rerrno = e0\<rparr>) g3 = Inr (g4, rc, ins,
         [Call_res f (if plus_expiry t0 < nows (length (b_sessions b)) then 1 else 0) p
            \<lparr>res_id = s, retcode = code, query_res = response_text code s\<rparr> (elapsed_ms (rt_now t) t0)]) \<and>
       broker_rep g4 \<lparr>b_sessions = mark_all nows 0 (b_sessions b), b_queue = [], b_rr = rr\<rparr>
     else \<exists>x. qmanager_thread [nows] g2 = Inl (UB x))"
proof -
  from request_goes_out [OF assms(1-9,11,15-20), of f p t0 d] obtain i rr g1 g2 out where
    s: "i < length (conns g)" "sl_send_buf req f p t0 g = Inr (1, True, g1)"
    "send_worker_thread i [d] (\<lambda>_. \<lparr>outq = [], wplan = sends\<rparr>) g1 = Inr (g2, out)"
    "outq (out (fd (conns g ! i))) = frame (take (nat (msg_len r)) (req_buf r))" "requests g2 req = None"
    "conns g2 = conns g" "c_strs g2 = c_strs g"
    "broker_rep g2 \<lparr>b_sessions = b_sessions b @ [new_entry s (int i) t0 f p], b_queue = [], b_rr = rr\<rparr>" by blast
  have "i < length (conns g2)" "state (conns g2 ! i) = 1" using s(1,6) assms(4) by simp_all
  from reply_comes_back [OF s(8) assms(11,8,9,10) c_str_no_nul [OF assms(7)] assms(12-14)
      response_length [OF assms(13,14,9)] this assms(21), of nows t, unfolded marks_ok_snoc s(7)]
  show ?thesis by (intro exI [of _ i] exI [of _ g1] exI [of _ g2] exI [of _ out] exI [of _ rr] conjI s(1-5))
qed

text \<open>The demo: the pass reads an early time, then a late one; the header comes byte by byte after an interruption.\<close>

theorem transaction_over_the_wire_witness:
  "\<exists>i g1 g2 g3 g4 out rc ins rr. i < length (conns glob_demo) \<and>
    sl_send_buf 5 11 12 (Timeval 1 0) glob_demo = Inr (1, True, g1) \<and>
    send_worker_thread i [dial_ok 9] (\<lambda>_. \<lparr>outq = [], wplan = replicate 6 (Accept 4)\<rparr>) g1 = Inr (g2, out) \<and>
    outq (out (fd (conns glob_demo ! i))) = frame (take (nat (msg_len (req_demo ''a''))) (req_buf (req_demo ''a''))) \<and>
    requests g2 5 = None \<and> qmanager_thread [\<lambda>_. Timeval 99 0] g2 = Inr g3 \<and>
    recv_worker_thread i [\<lparr>rt_dials = [], rt_now = Timeval 100 0\<rparr>]
      (\<lambda>_. \<lparr>inq = frame (response_text 200 ''a''), rplan = Recv_fail EINTR # replicate 58 (Deliver 0), rerrno = E_none\<rparr>) g3 = Inr (g4, rc, ins,
      [Call_res 11 1 12 \<lparr>res_id = ''a'', retcode = 200, query_res = response_text 200 ''a''\<rparr> 99000]) \<and>
    broker_rep g4 \<lparr>b_sessions = [], b_queue = [], b_rr = rr\<rparr>"
proof -
  have 1: "c_str (req_id (req_demo ''a'')) = Inr ''a''" using req_demo_facts [of "''a''"] by (simp add: KEY_SIZE_def)
  have 2: "\<forall>c < length (conns glob_demo). state (conns glob_demo ! c) = 1 \<and> peer_id (conns glob_demo ! c) = int c"
    by (simp add: glob_demo_def peers_up_def less_Suc_eq)
  have 3: "serves E_none [length (response_text 200 ''a'')] (Recv_fail EINTR # replicate 58 (Deliver 0))"
  proof -
    have "length (response_text 200 ''a'') = 54" by code_simp
    moreover have "serves E_none [54] (Recv_fail EINTR # replicate 58 (Deliver 0))" by code_simp
    ultimately show ?thesis by simp
  qed
  have 4: "c_strs glob_demo 12" by (simp add: glob_demo_def)
  have 5: "plus_expiry (Timeval 1 0) < Timeval 99 0" "elapsed_ms (Timeval 100 0) (Timeval 1 0) = 99000"
    by (simp_all add: plus_expiry_def EXPIRY_def less_timeval_def) code_simp
  have "takes_bytes (replicate 6 (Accept 4))" "accepts (replicate 6 (Accept 4)) = 6" by (simp_all add: takes_bytes_def accepts_def)
  with transaction_over_the_wire [of glob_demo broker_empty 5 "req_demo ''a''" "''a''" 11 200 "replicate 6 (Accept 4)" E_none
      "Recv_fail EINTR # replicate 58 (Deliver 0)" 12 "Timeval 1 0" "dial_ok 9" "\<lambda>_. Timeval 99 0" "\<lparr>rt_dials = [], rt_now = Timeval 100 0\<rparr>"]
    1 2 3 4 5 glob_demo_rep glob_demo_facts
  show ?thesis by (fastforce simp: KEY_SIZE_def peers_up_def broker_empty_def req_demo_def)
qed

end
