(* ===== verification/Stub.thy ===== *)
theory Stub
  imports Module
begin

section \<open>The stub program: \<open>main\<close> of \<^verbatim>\<open>stub.c\<close>\<close>

text \<open>
  The file is \<open>None\<close> if it cannot be opened, and else its bytes. The stub then opens its FIFO for
  writing, which waits until someone reads it (\<open>reader\<close>), and starts the module. \<open>junk\<close> and
  \<open>config\<close> are what \<open>malloc\<close> left in the objects. The result is that of \<open>main\<close>, with the state and the
  threads of the module.
\<close>

definition stub_main :: "end_peers \<Rightarrow> configurator \<Rightarrow> string option \<Rightarrow> bool \<Rightarrow>
    (nat \<Rightarrow> dial) \<Rightarrow> (nat \<Rightarrow> int) \<Rightarrow> (int \<times> glob \<times> thread list) res" where
  "stub_main junk config file reader ds pthread_create =
     (case file of
        None \<Rightarrow> Inl (Exit 1)
      | Some bytes \<Rightarrow>
          bindE (read_config junk config bytes) (\<lambda>config.
            if \<not> reader then Inl Hang
            else bindE (mod_init config ds pthread_create mod_zero) (\<lambda>(rc, g, ts). Inr (0, g, ts))))"

subsection \<open>Lemmas\<close>

lemma create_peer_returns:
  "peer_ok p \<Longrightarrow> port p \<le> 9999 \<Longrightarrow> gai_ok d \<Longrightarrow> 0 \<le> socket_fd d \<Longrightarrow> \<exists>c. create_peer p d i = Inr c"
  by (simp add: create_peer_def port_text_ok peer_ok_def)

lemma create_from_returns:
  assumes "num_peers cf = int (length (peers cf))"
    and "\<forall>i < length (peers cf). \<exists>c. create_peer (peers cf ! i) (ds i) i = Inr c"
  shows "\<exists>cl. create_from cf ds i = Inr cl"
proof (induction "length (peers cf) - i" arbitrary: i)
  case 0
  then show ?case using assms(1) by (simp add: create_from.simps [of cf])
next
  case (Suc k)
  then have "i < length (peers cf)" by simp
  with assms(2) obtain c where "create_peer (peers cf ! i) (ds i) i = Inr c" by blast
  moreover have "k = length (peers cf) - Suc i" using Suc(2) by linarith
  from Suc(1) [OF this] obtain cl where "create_from cf ds (Suc i) = Inr cl" by blast
  ultimately show ?case using assms(1) \<open>i < length (peers cf)\<close> by (simp add: create_from.simps [of cf ds i])
qed

lemma copy_peers_returns:
  assumes "num_peers cf = int (length (peers cf))" "\<forall>p \<in> set (peers cf). length (ip p) < 16"
  shows "\<exists>ps. copy_peers cf i = Inr ps"
proof (induction "length (peers cf) - i" arbitrary: i)
  case 0
  then show ?case using assms(1) by (simp add: copy_peers.simps [of cf])
next
  case (Suc k)
  then have "i < length (peers cf)" by simp
  moreover have "k = length (peers cf) - Suc i" using Suc(2) by linarith
  from Suc(1) [OF this] obtain ps where "copy_peers cf (Suc i) = Inr ps" by blast
  moreover from assms(2) have "length (ip (peers cf ! i)) < 16" if "i < length (peers cf)" using that by simp
  ultimately show ?case using assms(1) by (simp add: copy_peers.simps [of cf i] store_str_def)
qed

lemma spawn_workers_returns: "\<exists>ts. spawn_workers n (\<lambda>_. 0) i = Inr ts"
proof (induction n "\<lambda>_ :: nat. 0 :: int" i rule: spawn_workers.induct)
  case (1 n i)
  show ?case
  proof (cases "int i < n")
    case True
    with 1 obtain ts where "spawn_workers n (\<lambda>_. 0) (Suc i) = Inr ts" by auto
    with True show ?thesis by (simp add: spawn_workers.simps [of n _ i])
  qed (simp add: spawn_workers.simps)
qed

lemma mod_init_returns:
  assumes "num_peers cf = int (length (peers cf))" "\<forall>p \<in> set (peers cf). peer_ok p \<and> port p \<le> 9999"
    and "\<forall>i < length (peers cf). gai_ok (ds i) \<and> 0 \<le> socket_fd (ds i)"
  shows "\<exists>rc g ts. mod_init cf ds (\<lambda>_. 0) mod_zero = Inr (rc, g, ts)"
proof -
  from copy_peers_returns [OF assms(1), of 0] assms(2) obtain ps where ps: "copy_peers cf 0 = Inr ps"
    by (auto simp: peer_ok_def)
  with copy_peers_all [OF this] assms(1) have "ps = peers cf" by simp
  have "\<forall>i < length (peers cf). \<exists>c. create_peer (peers cf ! i) (ds i) i = Inr c"
    using assms(2,3) create_peer_returns by simp
  from create_from_returns [OF assms(1) this, of 0] obtain cl where "create_peers cf ds = Inr cl"
    by (auto simp: create_peers_def)
  moreover obtain ts where "spawn_workers (num_peers cf) (\<lambda>_. 0) 0 = Inr ts" using spawn_workers_returns by blast
  ultimately show ?thesis using ps \<open>ps = peers cf\<close> by (simp add: mod_init_def manage_def)
qed

subsection \<open>Properties\<close>

text \<open>C15. The stub on a printed configuration whose \<open>GW\<close> line fits the buffer of \<open>fgets\<close>: with peers that are valid and have ports of at most four
  digits, each a name that resolves and a socket, threads that can be created and a reader of the
  FIFO, \<open>main\<close> returns 0, whether or not the peers accept; the module then holds exactly the
  configured peers and runs a queue manager and a receiver and a sender per peer, on well formed
  empty queues.\<close>

theorem stub_starts_from_printed_file:
  assumes "\<forall>p \<in> set ps. peer_ok p \<and> port p \<le> 9999" "ps \<noteq> []" "0 \<le> n" "n \<le> 32"
    and "\<forall>i < length ps. gai_ok (ds i) \<and> 0 \<le> socket_fd (ds i)" "length (gw_text ps) < BUF"
  shows "\<exists>g. stub_main junk config (Some (gw_text ps @ wt_text n)) True ds (\<lambda>_. 0) =
      Inr (0, g, Qmanager # concat (map (\<lambda>k. [Recv_worker k, Send_worker k]) [0..<length ps])) \<and>
    queues_ok g \<and> broker_rep g broker_empty \<and> cfg g = \<lparr>num_worker_threads = n, num_peers = int (length ps), peers = ps\<rparr> \<and>
    length (conns g) = length ps"
proof -
  let ?cf = "\<lparr>num_worker_threads = n, num_peers = int (length ps), peers = ps\<rparr>"
  have read: "read_config junk config (gw_text ps @ wt_text n) = Inr ?cf" using assms read_printed by simp
  from mod_init_returns [of ?cf ds] assms(1,5) obtain rc g ts where m: "mod_init ?cf ds (\<lambda>_. 0) mod_zero = Inr (rc, g, ts)"
    by auto
  then obtain qs cl us where
    c: "g = mod_zero\<lparr>cfg := ?cf\<lparr>peers := qs\<rparr>, conns := cl\<rparr>" "copy_peers ?cf 0 = Inr qs" "create_peers (?cf\<lparr>peers := qs\<rparr>) ds = Inr cl"
    "spawn_workers (int (length ps)) (\<lambda>_. 0) 0 = Inr us" "ts = Qmanager # us"
    by (auto simp: mod_init_def manage_def outcome_iffs Let_def)
  from copy_peers_all [OF c(2)] have "qs = ps" by simp
  moreover from spawn_workers_all [OF c(4)] have "us = concat (map (\<lambda>k. [Recv_worker k, Send_worker k]) [0..<length ps])" by simp
  moreover from create_from_created [OF c(3) [unfolded create_peers_def]] have "length cl = length ps" by simp
  moreover have "queues_ok g" using started_queues_ok [OF m] assms(2) by simp
  moreover have "broker_rep g broker_empty" using c(1) by (simp add: broker_rep_def mod_zero_def broker_empty_def)
  ultimately show ?thesis using read m c(1,5) by (simp add: stub_main_def)
qed

theorem stub_starts_from_printed_file_witness:
  "\<exists>g. stub_main peer_demo config_garbage (Some (gw_text [peer_demo] @ wt_text 4)) True (\<lambda>_. dial_ok 3) (\<lambda>_. 0) =
      Inr (0, g, Qmanager # concat (map (\<lambda>k. [Recv_worker k, Send_worker k]) [0..<length [peer_demo]])) \<and>
    queues_ok g \<and> broker_rep g broker_empty \<and> cfg g = \<lparr>num_worker_threads = 4, num_peers = int (length [peer_demo]), peers = [peer_demo]\<rparr> \<and>
    length (conns g) = length [peer_demo]"
proof (rule stub_starts_from_printed_file)
  show "length (gw_text [peer_demo]) < BUF" by (rule gw_text_fits) (simp_all add: peer_demo_ok)
qed (use peer_demo_ok in \<open>simp_all add: peer_demo_def dial_ok_def\<close>)

end
