(* ===== verification/Workqueue.thy ===== *)
theory Workqueue
  imports Prelude
begin

section \<open>The work queue of the libevent variant: \<^verbatim>\<open>withlibev/src/workev.c\<close>\<close>

text \<open>
  A pool of threads that take jobs from a shared list. The structs are those of \<^verbatim>\<open>workqev.h\<close>:
  \<open>worker_t\<close> and \<open>job_t\<close> are the payloads of list nodes, \<open>workqueue_t\<close> is the two heads with the
  memory of their nodes (the back pointer \<open>worker->workqueue\<close> is always the one queue, and the
  mutex and the condition variable are in the steps below). Functions and \<open>user_data\<close> are
  addresses.
\<close>

record worker_t =
  w_thread :: int       \<comment> \<open>what \<open>pthread_create\<close> stores: the number of the worker\<close>
  terminate :: int

record job_t =
  job_function :: addr
  user_data :: addr

record workqueue_t =
  wq_workers :: "worker_t lqueue"
  waiting_jobs :: "job_t lqueue"

subsection \<open>The list macros\<close>

text \<open>\<open>LL_ADD\<close>, lines 6 to 10: the old head keeps its \<open>prev\<close>.\<close>

definition LL_ADD :: "addr \<Rightarrow> 'a lqueue \<Rightarrow> 'a lqueue res" where
  "LL_ADD item q =
     bindE (set_prev (qmem q) item 0) (\<lambda>m.
     bindE (set_next m item (qhead q)) (\<lambda>m. Inr \<lparr>qhead = item, qmem = m\<rparr>))"

text \<open>\<open>LL_REMOVE\<close>, lines 12 to 17.\<close>

definition LL_REMOVE :: "addr \<Rightarrow> 'a lqueue \<Rightarrow> 'a lqueue res" where
  "LL_REMOVE item q =
     bindE (load (qmem q) item) (\<lambda>c.
     bindE (if c_prev c \<noteq> 0 then set_next (qmem q) (c_prev c) (c_next c) else Inr (qmem q)) (\<lambda>m.
     bindE (load m item) (\<lambda>c.
     bindE (if c_next c \<noteq> 0 then set_prev m (c_next c) (c_prev c) else Inr m) (\<lambda>m.
     bindE (load m item) (\<lambda>c.
     bindE (set_next m item 0) (\<lambda>m.
     bindE (set_prev m item 0) (\<lambda>m.
       Inr \<lparr>qhead = (if qhead q = item then c_next c else qhead q), qmem = m\<rparr>)))))))"

subsection \<open>The interface\<close>

text \<open>
  \<open>workqueue_init\<close>, lines 56 to 83. \<open>malloc_ok i\<close> and \<open>pthread_create i\<close> are the outcomes of the
  calls for worker \<open>i\<close>. The result is the return value, the queue and the workers whose threads
  have started.
\<close>

fun init_workers ::
  "nat \<Rightarrow> (nat \<Rightarrow> bool) \<Rightarrow> (nat \<Rightarrow> int) \<Rightarrow> nat \<Rightarrow> worker_t lqueue \<Rightarrow> (int \<times> worker_t lqueue \<times> addr list) res" where
  "init_workers 0 malloc_ok pthread_create i q = Inr (0, q, [])"
| "init_workers (Suc k) malloc_ok pthread_create i q =
     (if \<not> malloc_ok i then Inr (1, q, [])
      else let (worker, m) = calloc_cell \<lparr>w_thread = int i, terminate = 0\<rparr> (qmem q) in
        if pthread_create i \<noteq> 0
        then bindE (free_cell m worker) (\<lambda>m. Inr (1, q\<lparr>qmem := m\<rparr>, []))
        else bindE (LL_ADD worker (q\<lparr>qmem := m\<rparr>)) (\<lambda>q.
             bindE (init_workers k malloc_ok pthread_create (Suc i) q) (\<lambda>(rc, q, ts).
               Inr (rc, q, worker # ts))))"

definition workqueue_init ::
  "int \<Rightarrow> (nat \<Rightarrow> bool) \<Rightarrow> (nat \<Rightarrow> int) \<Rightarrow> worker_t mem \<Rightarrow> job_t mem \<Rightarrow> (int \<times> workqueue_t \<times> addr list) res" where
  "workqueue_init numWorkers malloc_ok pthread_create wm jm =
     (let numWorkers = (if numWorkers < 1 then 1 else numWorkers) in
      bindE (init_workers (nat numWorkers) malloc_ok pthread_create 0 \<lparr>qhead = 0, qmem = wm\<rparr>) (\<lambda>(rc, q, ts).
        Inr (rc, \<lparr>wq_workers = q, waiting_jobs = \<lparr>qhead = 0, qmem = jm\<rparr>\<rparr>, ts)))"

text \<open>\<open>workqueue_add_job\<close>, lines 102 to 108; the signal is part of the step below.\<close>

definition workqueue_add_job :: "addr \<Rightarrow> workqueue_t \<Rightarrow> workqueue_t res" where
  "workqueue_add_job job wq = bindE (LL_ADD job (waiting_jobs wq)) (\<lambda>q. Inr (wq\<lparr>waiting_jobs := q\<rparr>))"

text \<open>
  \<open>workqueue_shutdown\<close>, lines 85 to 100, in the pieces between which other threads can run: for
  each worker the store to \<open>terminate\<close> and the read of \<open>next\<close>, then the part under the mutex.
\<close>

definition shutdown_mark :: "addr \<Rightarrow> workqueue_t \<Rightarrow> workqueue_t res" where
  "shutdown_mark worker wq =
     bindE (modify (qmem (wq_workers wq)) worker (\<lambda>c. c\<lparr>c_val := (c_val c)\<lparr>terminate := 1\<rparr>\<rparr>)) (\<lambda>m.
       Inr (wq\<lparr>wq_workers := (wq_workers wq)\<lparr>qmem := m\<rparr>\<rparr>))"

definition shutdown_next :: "addr \<Rightarrow> workqueue_t \<Rightarrow> addr res" where
  "shutdown_next worker wq = bindE (load (qmem (wq_workers wq)) worker) (\<lambda>c. Inr (c_next c))"

definition shutdown_drop :: "workqueue_t \<Rightarrow> workqueue_t" where
  "shutdown_drop wq = wq\<lparr>wq_workers := (wq_workers wq)\<lparr>qhead := 0\<rparr>, waiting_jobs := (waiting_jobs wq)\<lparr>qhead := 0\<rparr>\<rparr>"

text \<open>The whole function, when no other thread runs.\<close>

fun shutdown_loop :: "nat \<Rightarrow> addr \<Rightarrow> workqueue_t \<Rightarrow> workqueue_t res" where
  "shutdown_loop 0 worker wq = (if worker = 0 then Inr wq else Inl Hang)"
| "shutdown_loop (Suc k) worker wq = (if worker = 0 then Inr wq else
     bindE (shutdown_mark worker wq) (\<lambda>wq.
     bindE (shutdown_next worker wq) (\<lambda>next. shutdown_loop k next wq)))"

definition workqueue_shutdown :: "workqueue_t \<Rightarrow> workqueue_t res" where
  "workqueue_shutdown wq =
     bindE (shutdown_loop (brk (qmem (wq_workers wq))) (qhead (wq_workers wq)) wq) (\<lambda>wq. Inr (shutdown_drop wq))"

subsection \<open>A worker\<close>

text \<open>
  \<open>worker_function\<close>, lines 23 to 46: everything under the mutex up to a wait, an exit or a job.
  A worker that is woken starts it again, which is what its inner loop does.
\<close>

datatype worker_pc =
    W_top             \<comment> \<open>at \<open>pthread_mutex_lock\<close>\<close>
  | W_wait            \<comment> \<open>in \<open>pthread_cond_wait\<close>\<close>
  | W_run addr        \<comment> \<open>about to execute a job\<close>
  | W_exit            \<comment> \<open>out of the loop, about to free its node\<close>
  | W_done

text \<open>Lines 39 to 42: the first waiting job, or NULL.\<close>

definition take_job :: "workqueue_t \<Rightarrow> (addr \<times> workqueue_t) res" where
  "take_job wq = (let job = qhead (waiting_jobs wq) in
     if job \<noteq> 0 then bindE (LL_REMOVE job (waiting_jobs wq)) (\<lambda>q. Inr (job, wq\<lparr>waiting_jobs := q\<rparr>))
     else Inr (job, wq))"

definition worker_section :: "addr \<Rightarrow> workqueue_t \<Rightarrow> (worker_pc \<times> workqueue_t) res" where
  "worker_section worker wq =
     bindE (load (qmem (wq_workers wq)) worker) (\<lambda>c.
       if terminate (c_val c) \<noteq> 0 then Inr (W_exit, wq)
       else if qhead (waiting_jobs wq) = 0 then Inr (W_wait, wq)
       else bindE (take_job wq) (\<lambda>(job, wq). Inr (if job = 0 then W_top else W_run job, wq)))"

text \<open>
  Lines 48 and 49: the call through the job's function pointer. \<open>frees\<close> tells whether the function frees
  its job, as \<open>job_function\<close> of \<^verbatim>\<open>module.c\<close> does.
\<close>

definition run_job :: "bool \<Rightarrow> addr \<Rightarrow> job_t lqueue \<Rightarrow> job_t lqueue res" where
  "run_job frees job q =
     bindE (load (qmem q) job) (\<lambda>c.
       if job_function (c_val c) = 0 then Inl (UB Null_Deref)
       else if frees then bindE (free_cell (qmem q) job) (\<lambda>m. Inr (q\<lparr>qmem := m\<rparr>))
       else Inr q)"

text \<open>Lines 52 and 53.\<close>

definition worker_leave :: "addr \<Rightarrow> workqueue_t \<Rightarrow> workqueue_t res" where
  "worker_leave worker wq =
     bindE (free_cell (qmem (wq_workers wq)) worker) (\<lambda>m. Inr (wq\<lparr>wq_workers := (wq_workers wq)\<lparr>qmem := m\<rparr>\<rparr>))"

subsection \<open>Stacks of nodes\<close>

text \<open>
  What the macros maintain: a list through \<open>next\<close> whose nodes all have \<open>prev\<close> NULL.
\<close>

definition stack_rep :: "'a lqueue \<Rightarrow> (addr \<times> 'a) list \<Rightarrow> bool" where
  "stack_rep q xs \<longleftrightarrow> mem_ok (qmem q) \<and> chain False (qmem q) (qhead q) xs \<and>
     (\<forall>a \<in> fst ` set xs. \<forall>c. cells (qmem q) a = Some c \<longrightarrow> c_prev c = 0)"

lemma stack_rep_Nil [simp]: "stack_rep q [] \<longleftrightarrow> mem_ok (qmem q) \<and> qhead q = 0"
  by (auto simp: stack_rep_def)

lemma stack_rep_distinct: "stack_rep q xs \<Longrightarrow> distinct (map fst xs)"
  by (auto simp: stack_rep_def dest: chain_distinct)

lemma stack_rep_unique: "stack_rep q xs \<Longrightarrow> stack_rep q ys \<Longrightarrow> xs = ys"
  by (auto simp: stack_rep_def dest: chain_unique)

lemma stack_rep_null: "stack_rep q xs \<Longrightarrow> qhead q = 0 \<longleftrightarrow> xs = []"
  by (metis chain_Nil chain_null stack_rep_def)

lemma seg_prev_irrelevant: "seg False m q p xs r = seg False m 0 p xs r"
  by (cases xs) (auto simp: seg_Cons_iff)

lemma stack_rep_Cons:
  "stack_rep q ((a, v) # xs) \<longleftrightarrow> a \<noteq> 0 \<and> qhead q = a \<and> a \<notin> fst ` set xs \<and>
     (\<exists>n. cells (qmem q) a = Some \<lparr>c_val = v, c_prev = 0, c_next = n\<rparr> \<and> stack_rep (q\<lparr>qhead := n\<rparr>) xs)"
  (is "?l \<longleftrightarrow> ?r")
proof
  assume l: ?l
  then have "chain False (qmem q) (qhead q) ((a, v) # xs)" by (simp add: stack_rep_def)
  then have "a \<notin> fst ` set xs" using chain_distinct [of False "qmem q" "qhead q"] by force
  moreover from l obtain c where "cells (qmem q) a = Some c" "c_val c = v" "c_prev c = 0"
    "seg False (qmem q) a (c_next c) xs 0" "qhead q = a" "a \<noteq> 0"
    by (auto simp: stack_rep_def chain_def seg_Cons_iff)
  ultimately show ?r using l
    by (intro conjI exI [of _ "c_next c"]) (auto simp: stack_rep_def chain_def seg_prev_irrelevant [of _ a])
qed (auto simp: stack_rep_def chain_def seg_Cons_iff seg_prev_irrelevant [of _ a])

lemma stack_rep_other:
  assumes "stack_rep q xs" "mem_ok m" "\<And>a. a \<in> fst ` set xs \<Longrightarrow> cells m a = cells (qmem q) a"
    and "qhead q' = qhead q" "qmem q' = m"
  shows "stack_rep q' xs"
proof -
  have "seg False m 0 (qhead q) xs 0 = seg False (qmem q) 0 (qhead q) xs 0"
    by (rule seg_cong) (rule assms(3))
  with assms show ?thesis by (simp add: stack_rep_def chain_def)
qed

lemma stack_rep_outside:
  assumes "stack_rep q xs" "a \<notin> fst ` set xs" "mem_ok m"
    and "\<And>b. b \<noteq> a \<Longrightarrow> cells m b = cells (qmem q) b" "qhead q' = qhead q" "qmem q' = m"
  shows "stack_rep q' xs"
proof (rule stack_rep_other [OF assms(1,3) _ assms(5,6)])
  show "cells m b = cells (qmem q) b" if "b \<in> fst ` set xs" for b
    using that assms(2) by (intro assms(4)) blast
qed

lemma LL_ADD_stack:
  assumes "stack_rep q xs" "cells (qmem q) a = Some c" "a \<notin> fst ` set xs"
  shows "\<exists>q'. LL_ADD a q = Inr q' \<and> stack_rep q' ((a, c_val c) # xs) \<and>
    cells (qmem q') = (cells (qmem q))(a \<mapsto> \<lparr>c_val = c_val c, c_prev = 0, c_next = qhead q\<rparr>) \<and>
    brk (qmem q') = brk (qmem q)"
proof -
  have ok: "mem_ok (qmem q)" using assms(1) by (simp add: stack_rep_def)
  then have a: "a \<noteq> 0" using mem_okD assms(2) by blast
  let ?m = "(qmem q)\<lparr>cells := (cells (qmem q))(a \<mapsto> \<lparr>c_val = c_val c, c_prev = 0, c_next = qhead q\<rparr>)\<rparr>"
  have m: "mem_ok ?m" by (rule mem_ok_upd [OF ok assms(2)])
  have "LL_ADD a q = Inr \<lparr>qhead = a, qmem = ?m\<rparr>"
    using a assms(2) by (cases c) (simp add: LL_ADD_def set_prev_def set_next_def modify_def)
  moreover have "stack_rep \<lparr>qhead = qhead q, qmem = ?m\<rparr> xs"
    by (rule stack_rep_other [OF assms(1) m]) (use assms(3) in auto)
  ultimately show ?thesis using a assms(3) by (auto simp: stack_rep_Cons)
qed

lemma LL_REMOVE_head:
  assumes "stack_rep q ((a, v) # xs)"
  shows "\<exists>q'. LL_REMOVE a q = Inr q' \<and> stack_rep q' xs \<and>
    cells (qmem q') = (cells (qmem q))(a \<mapsto> \<lparr>c_val = v, c_prev = 0, c_next = 0\<rparr>) \<and>
    brk (qmem q') = brk (qmem q)"
proof -
  from assms obtain n where n: "a \<noteq> 0" "qhead q = a" "a \<notin> fst ` set xs"
    "cells (qmem q) a = Some \<lparr>c_val = v, c_prev = 0, c_next = n\<rparr>" "stack_rep (q\<lparr>qhead := n\<rparr>) xs"
    by (auto simp: stack_rep_Cons)
  have ok: "mem_ok (qmem q)" using assms by (simp add: stack_rep_def)
  let ?m = "(qmem q)\<lparr>cells := (cells (qmem q))(a \<mapsto> \<lparr>c_val = v, c_prev = 0, c_next = 0\<rparr>)\<rparr>"
  have m: "mem_ok ?m" by (rule mem_ok_upd [OF ok n(4)])
  have "LL_REMOVE a q = Inr \<lparr>qhead = n, qmem = ?m\<rparr>"
  proof (cases xs)
    case Nil
    with n show ?thesis by (simp add: LL_REMOVE_def set_prev_def set_next_def modify_def)
  next
    case (Cons y ys)
    obtain b w where y: "y = (b, w)" by force
    with Cons n(3,5) obtain k where k: "n = b" "b \<noteq> 0" "b \<noteq> a"
      "cells (qmem q) b = Some \<lparr>c_val = w, c_prev = 0, c_next = k\<rparr>" by (auto simp: stack_rep_Cons)
    then have "(cells (qmem q))(b \<mapsto> \<lparr>c_val = w, c_prev = 0, c_next = k\<rparr>) = cells (qmem q)" by auto
    with k n show ?thesis
      by (simp add: LL_REMOVE_def set_prev_def set_next_def modify_def)
  qed
  moreover have "stack_rep \<lparr>qhead = n, qmem = ?m\<rparr> xs"
    by (rule stack_rep_other [OF n(5) m]) (use n(3) in auto)
  ultimately show ?thesis by simp
qed

text \<open>
  An inner node is not taken out: its predecessor still leads to it, and all nodes behind it are
  lost, because \<open>LL_ADD\<close> never gave it a \<open>prev\<close>.
\<close>

lemma LL_REMOVE_inner:
  assumes "stack_rep q ((b, w) # (a, v) # xs)"
  shows "\<exists>q'. LL_REMOVE a q = Inr q' \<and> stack_rep q' [(b, w), (a, v)]"
proof -
  from assms obtain n where n: "a \<noteq> 0" "b \<noteq> 0" "b \<noteq> a" "qhead q = b" "a \<notin> fst ` set xs" "b \<notin> fst ` set xs"
    "cells (qmem q) b = Some \<lparr>c_val = w, c_prev = 0, c_next = a\<rparr>"
    "cells (qmem q) a = Some \<lparr>c_val = v, c_prev = 0, c_next = n\<rparr>" "stack_rep (q\<lparr>qhead := n\<rparr>) xs"
    by (auto simp: stack_rep_Cons)
  have ok: "mem_ok (qmem q)" using assms by (simp add: stack_rep_def)
  let ?m = "(qmem q)\<lparr>cells := (cells (qmem q))(a \<mapsto> \<lparr>c_val = v, c_prev = 0, c_next = 0\<rparr>)\<rparr>"
  have m: "mem_ok ?m" by (rule mem_ok_upd [OF ok n(8)])
  have "LL_REMOVE a q = Inr \<lparr>qhead = b, qmem = ?m\<rparr>"
  proof (cases xs)
    case Nil
    with n show ?thesis by (simp add: LL_REMOVE_def set_prev_def set_next_def modify_def)
  next
    case (Cons y ys)
    obtain d u where y: "y = (d, u)" by force
    with Cons n(5,9) obtain k where k: "n = d" "d \<noteq> 0" "d \<noteq> a"
      "cells (qmem q) d = Some \<lparr>c_val = u, c_prev = 0, c_next = k\<rparr>" by (auto simp: stack_rep_Cons)
    then have "(cells (qmem q))(d \<mapsto> \<lparr>c_val = u, c_prev = 0, c_next = k\<rparr>) = cells (qmem q)" by auto
    with k n show ?thesis
      by (simp add: LL_REMOVE_def set_prev_def set_next_def modify_def)
  qed
  then show ?thesis using n m by (auto simp: stack_rep_Cons)
qed

subsection \<open>Creating and stopping the workers\<close>

lemma stack_rep_calloc:
  assumes "stack_rep q xs" "calloc_cell v (qmem q) = (a, m)"
  shows "stack_rep (q\<lparr>qmem := m\<rparr>) xs" "cells m a = Some \<lparr>c_val = v, c_prev = 0, c_next = 0\<rparr>"
    and "a \<notin> fst ` set xs" "a \<noteq> 0" "a = brk (qmem q)" "brk m = Suc a" "mem_ok m"
    and "\<And>b. b \<noteq> a \<Longrightarrow> cells m b = cells (qmem q) b"
proof -
  have ok: "mem_ok (qmem q)" and ch: "chain False (qmem q) (qhead q) xs"
    using assms(1) by (auto simp: stack_rep_def)
  note c = calloc_cell_chain [OF ok ch assms(2)]
  show "cells m a = Some \<lparr>c_val = v, c_prev = 0, c_next = 0\<rparr>" "a \<notin> fst ` set xs" "a \<noteq> 0"
    "a = brk (qmem q)" "mem_ok m" "\<And>b. b \<noteq> a \<Longrightarrow> cells m b = cells (qmem q) b"
    using c by auto
  show "brk m = Suc a" using c(6,7) by simp
  show "stack_rep (q\<lparr>qmem := m\<rparr>) xs"
    by (rule stack_rep_outside [OF assms(1) c(4,2,8)]) simp_all
qed

lemma stack_rep_fresh_free:
  assumes "stack_rep q xs" "calloc_cell v (qmem q) = (a, m)" "free_cell m a = Inr m'"
  shows "stack_rep (q\<lparr>qmem := m'\<rparr>) xs"
proof (rule stack_rep_other [OF assms(1)])
  note c = stack_rep_calloc [OF assms(1,2)]
  from assms(3) c(2,4) have m': "m' = m\<lparr>cells := (cells m)(a := None)\<rparr>" by (simp add: free_cell_def)
  then show "mem_ok m'" using mem_ok_del [OF c(7)] by simp
  show "cells m' b = cells (qmem q) b" if "b \<in> fst ` set xs" for b
    using that c(3) c(8) [of b] m' by auto
qed simp_all

lemma init_workers_rep:
  assumes "stack_rep q xs"
  shows "\<exists>rc q' ts ys. init_workers k mk pt i q = Inr (rc, q', ts) \<and> stack_rep q' (ys @ xs) \<and>
    map fst ys = rev ts \<and> (\<forall>w \<in> snd ` set ys. terminate w = 0) \<and>
    (rc = 0 \<and> length ts = k \<or> rc = 1 \<and> length ts < k)"
  using assms
proof (induction k arbitrary: i q xs)
  case 0
  then show ?case by (intro exI [of _ 0] exI [of _ q] exI [of _ "[]"]) simp
next
  case (Suc k)
  let ?w = "\<lparr>w_thread = int i, terminate = 0\<rparr>"
  obtain a m where am: "calloc_cell ?w (qmem q) = (a, m)" by force
  note c = stack_rep_calloc [OF Suc.prems am]
  consider "\<not> mk i" | "mk i" "pt i \<noteq> 0" | "mk i" "pt i = 0" by blast
  then show ?case
  proof cases
    case 1
    then show ?thesis using Suc.prems by (intro exI [of _ 1] exI [of _ q] exI [of _ "[]"]) simp
  next
    case 2
    obtain m' where m': "free_cell m a = Inr m'" using c(2,4) by (simp add: free_cell_def)
    show ?thesis using 2 am m' stack_rep_fresh_free [OF Suc.prems am m']
      by (intro exI [of _ 1] exI [of _ "q\<lparr>qmem := m'\<rparr>"] exI [of _ "[]"]) simp
  next
    case 3
    have "cells (qmem (q\<lparr>qmem := m\<rparr>)) a = Some \<lparr>c_val = ?w, c_prev = 0, c_next = 0\<rparr>" using c(2) by simp
    from LL_ADD_stack [OF c(1) this c(3)] obtain q1 where
      q1: "LL_ADD a (q\<lparr>qmem := m\<rparr>) = Inr q1" "stack_rep q1 ((a, ?w) # xs)" by auto
    from Suc.IH [OF q1(2), of "Suc i"] obtain rc q' ts ys where r:
      "init_workers k mk pt (Suc i) q1 = Inr (rc, q', ts)" "stack_rep q' (ys @ (a, ?w) # xs)"
      "map fst ys = rev ts" "\<forall>w \<in> snd ` set ys. terminate w = 0"
      "rc = 0 \<and> length ts = k \<or> rc = 1 \<and> length ts < k" by blast
    with 3 am q1(1) show ?thesis
      by (intro exI [of _ rc] exI [of _ q'] exI [of _ "a # ts"] exI [of _ "ys @ [(a, ?w)]"]) auto
  qed
qed

text \<open>One step of the loop of \<open>workqueue_shutdown\<close> over the stack of workers.\<close>

definition stopped :: "worker_t \<Rightarrow> worker_t" where
  "stopped w = w\<lparr>terminate := 1\<rparr>"

lemma shutdown_mark_cell:
  "a \<noteq> 0 \<Longrightarrow> cells (qmem (wq_workers wq)) a = Some c \<Longrightarrow>
   shutdown_mark a wq = Inr (wq\<lparr>wq_workers := (wq_workers wq)\<lparr>qmem := (qmem (wq_workers wq))
     \<lparr>cells := (cells (qmem (wq_workers wq)))(a \<mapsto> c\<lparr>c_val := stopped (c_val c)\<rparr>)\<rparr>\<rparr>\<rparr>)"
  by (simp add: shutdown_mark_def modify_def stopped_def)

lemma seg_mark:
  assumes "seg False m 0 p (ys @ (a, w) # xs) 0" "cells m a = Some c"
  shows "seg False (m\<lparr>cells := (cells m)(a \<mapsto> c\<lparr>c_val := v\<rparr>)\<rparr>) 0 p (ys @ (a, v) # xs) 0"
proof -
  have "distinct (map fst (ys @ (a, w) # xs))" using assms(1) by (rule seg_distinct)
  then have "a \<notin> fst ` set ys" "a \<notin> fst ` set xs" by auto
  with assms show ?thesis by (auto simp: seg_append seg_Cons_iff)
qed

lemma shutdown_loop_rep:
  assumes "stack_rep (wq_workers wq) (ys @ xs)" "worker = addr_of (case xs of [] \<Rightarrow> None | x # _ \<Rightarrow> Some x)"
    and "length xs \<le> k"
  shows "\<exists>wq'. shutdown_loop k worker wq = Inr wq' \<and> waiting_jobs wq' = waiting_jobs wq \<and>
    stack_rep (wq_workers wq') (ys @ map (\<lambda>(a, w). (a, stopped w)) xs)"
  using assms
proof (induction xs arbitrary: k ys worker wq)
  case Nil
  then show ?case by (cases k) auto
next
  case (Cons x xs)
  obtain a w where x: "x = (a, w)" by force
  from Cons.prems(3) obtain j where k: "k = Suc j" "length xs \<le> j" by (cases k) auto
  let ?q = "wq_workers wq"
  from Cons.prems(1) x have sr: "mem_ok (qmem ?q)" "seg False (qmem ?q) 0 (qhead ?q) (ys @ (a, w) # xs) 0"
    "\<forall>b \<in> fst ` set (ys @ x # xs). \<forall>c. cells (qmem ?q) b = Some c \<longrightarrow> c_prev c = 0"
    by (auto simp: stack_rep_def chain_def)
  then obtain c where c: "a \<noteq> 0" "cells (qmem ?q) a = Some c" "c_val c = w" "seg False (qmem ?q) a (c_next c) xs 0"
    by (auto simp: seg_append seg_Cons_iff)
  let ?wq = "wq\<lparr>wq_workers := ?q\<lparr>qmem := (qmem ?q)\<lparr>cells := (cells (qmem ?q))(a \<mapsto> c\<lparr>c_val := stopped w\<rparr>)\<rparr>\<rparr>\<rparr>"
  have mark: "shutdown_mark a wq = Inr ?wq" using shutdown_mark_cell [OF c(1,2)] c(3) by simp
  have nxt: "shutdown_next a ?wq = Inr (c_next c)" using c(1) by (simp add: shutdown_next_def)
  have nx: "c_next c = addr_of (case xs of [] \<Rightarrow> None | x # _ \<Rightarrow> Some x)"
    using c(4) by (cases xs) (auto simp: seg_Cons_iff)
  have "stack_rep (wq_workers ?wq) (ys @ (a, stopped w) # xs)"
    using seg_mark [OF sr(2) c(2), of "stopped w"] mem_ok_upd [OF sr(1) c(2)] sr(3) c(2) x
    by (auto simp: stack_rep_def chain_def)
  then have "stack_rep (wq_workers ?wq) ((ys @ [(a, stopped w)]) @ xs)" by simp
  from Cons.IH [OF this nx k(2)] mark nxt x k(1) c(1) Cons.prems(2) show ?case by auto
qed

lemma workqueue_shutdown_rep:
  assumes "stack_rep (wq_workers wq) ws" "stack_rep (waiting_jobs wq) js"
  shows "\<exists>wq'. workqueue_shutdown wq = Inr wq' \<and> qhead (wq_workers wq') = 0 \<and> qhead (waiting_jobs wq') = 0 \<and>
    (\<forall>a \<in> fst ` set ws. \<exists>c. cells (qmem (wq_workers wq')) a = Some c \<and> terminate (c_val c) = 1)"
proof -
  let ?q = "wq_workers wq"
  have ch: "chain False (qmem ?q) (qhead ?q) ws" "mem_ok (qmem ?q)" using assms(1) by (auto simp: stack_rep_def)
  have h: "qhead ?q = addr_of (case ws of [] \<Rightarrow> None | x # _ \<Rightarrow> Some x)"
    using ch(1) by (cases ws) (auto simp: chain_def seg_Cons_iff)
  from shutdown_loop_rep [of wq "[]" ws, OF _ h less_imp_le [OF chain_fuel [OF ch]]] assms(1)
  obtain wq' where w: "shutdown_loop (brk (qmem ?q)) (qhead ?q) wq = Inr wq'"
    "waiting_jobs wq' = waiting_jobs wq" "stack_rep (wq_workers wq') (map (\<lambda>(a, w). (a, stopped w)) ws)" by auto
  have "\<exists>c. cells (qmem (wq_workers wq')) a = Some c \<and> terminate (c_val c) = 1" if "a \<in> fst ` set ws" for a
  proof -
    from that obtain w where "(a, w) \<in> set ws" by force
    then have "(a, stopped w) \<in> set (map (\<lambda>(a, w). (a, stopped w)) ws)" by force
    then obtain us vs where "map (\<lambda>(a, w). (a, stopped w)) ws = us @ (a, stopped w) # vs" by (meson split_list)
    with w(3) show ?thesis
      by (auto simp: stack_rep_def chain_def seg_append seg_Cons_iff stopped_def)
  qed
  with w(1,2) show ?thesis by (auto simp: workqueue_shutdown_def shutdown_drop_def)
qed

subsection \<open>The contract of the job list\<close>

text \<open>
  A stack of nodes: what a client of the queue may rely on. The lemma of the locale is what
  follows for a batch of jobs.
\<close>

fun push_list :: "(addr \<Rightarrow> 'q \<Rightarrow> 'q res) \<Rightarrow> addr list \<Rightarrow> 'q \<Rightarrow> 'q res" where
  "push_list push [] q = Inr q"
| "push_list push (a # as) q = bindE (push a q) (push_list push as)"

fun pop_list :: "('q \<Rightarrow> (addr \<times> 'q) res) \<Rightarrow> nat \<Rightarrow> 'q \<Rightarrow> (addr list \<times> 'q) res" where
  "pop_list pop 0 q = Inr ([], q)"
| "pop_list pop (Suc n) q = bindE (pop q) (\<lambda>(a, q). bindE (pop_list pop n q) (\<lambda>(as, q). Inr (a # as, q)))"

locale node_stack =
  fixes push :: "addr \<Rightarrow> 'q \<Rightarrow> 'q res"
    and pop :: "'q \<Rightarrow> (addr \<times> 'q) res"
    and holds :: "'q \<Rightarrow> addr list \<Rightarrow> bool"
    and node :: "'q \<Rightarrow> addr \<Rightarrow> bool"
  assumes push_law: "holds q as \<Longrightarrow> node q a \<Longrightarrow> a \<notin> set as \<Longrightarrow>
      \<exists>q'. push a q = Inr q' \<and> holds q' (a # as) \<and> (\<forall>b. node q b \<longrightarrow> node q' b)"
    and pop_law: "holds q (a # as) \<Longrightarrow> \<exists>q'. pop q = Inr (a, q') \<and> holds q' as"
    and pop_none: "holds q [] \<Longrightarrow> pop q = Inr (0, q)"
begin

lemma pushes:
  "holds q bs \<Longrightarrow> \<forall>a \<in> set as. node q a \<Longrightarrow> distinct as \<Longrightarrow> set as \<inter> set bs = {} \<Longrightarrow>
   \<exists>q'. push_list push as q = Inr q' \<and> holds q' (rev as @ bs) \<and> (\<forall>b. node q b \<longrightarrow> node q' b)"
proof (induction as arbitrary: q bs)
  case (Cons a as)
  with push_law [of q bs a] obtain q' where
    q': "push a q = Inr q'" "holds q' (a # bs)" "\<forall>b. node q b \<longrightarrow> node q' b" by auto
  with Cons.IH [OF q'(2)] Cons.prems show ?case by auto
qed simp

lemma pops: "holds q (as @ bs) \<Longrightarrow> \<exists>q'. pop_list pop (length as) q = Inr (as, q') \<and> holds q' bs"
proof (induction as arbitrary: q)
  case (Cons a as)
  with pop_law [of q a "as @ bs"] obtain q' where "pop q = Inr (a, q')" "holds q' (as @ bs)" by auto
  with Cons.IH [of q'] show ?case by auto
qed simp

lemma last_in_first_out:
  assumes "holds q bs" "\<forall>a \<in> set as. node q a" "distinct as" "set as \<inter> set bs = {}"
  shows "\<exists>q1 q2. push_list push as q = Inr q1 \<and> pop_list pop (length as) q1 = Inr (rev as, q2) \<and> holds q2 bs"
proof -
  from pushes [OF assms] obtain q1 where "push_list push as q = Inr q1" "holds q1 (rev as @ bs)" by blast
  with pops [of q1 "rev as" bs] show ?thesis by auto
qed

end

text \<open>The waiting jobs, and the job nodes that exist.\<close>

definition jobs_are :: "workqueue_t \<Rightarrow> addr list \<Rightarrow> bool" where
  "jobs_are wq as \<longleftrightarrow> (\<exists>xs. stack_rep (waiting_jobs wq) xs \<and> map fst xs = as)"

definition job_node :: "workqueue_t \<Rightarrow> addr \<Rightarrow> bool" where
  "job_node wq a \<longleftrightarrow> cells (qmem (waiting_jobs wq)) a \<noteq> None"

lemma add_job_jobs:
  assumes "jobs_are wq as" "cells (qmem (waiting_jobs wq)) a = Some c" "a \<notin> set as"
  shows "\<exists>q. workqueue_add_job a wq = Inr (wq\<lparr>waiting_jobs := q\<rparr>) \<and> jobs_are (wq\<lparr>waiting_jobs := q\<rparr>) (a # as) \<and>
    cells (qmem q) = (cells (qmem (waiting_jobs wq)))(a \<mapsto> \<lparr>c_val = c_val c, c_prev = 0, c_next = qhead (waiting_jobs wq)\<rparr>) \<and>
    brk (qmem q) = brk (qmem (waiting_jobs wq))"
proof -
  from assms(1) obtain xs where xs: "stack_rep (waiting_jobs wq) xs" "map fst xs = as" by (auto simp: jobs_are_def)
  with assms(3) have "a \<notin> fst ` set xs" by force
  from LL_ADD_stack [OF xs(1) assms(2) this] obtain q where q: "LL_ADD a (waiting_jobs wq) = Inr q"
    "stack_rep q ((a, c_val c) # xs)"
    "cells (qmem q) = (cells (qmem (waiting_jobs wq)))(a \<mapsto> \<lparr>c_val = c_val c, c_prev = 0, c_next = qhead (waiting_jobs wq)\<rparr>)"
    "brk (qmem q) = brk (qmem (waiting_jobs wq))" by auto
  moreover have "jobs_are (wq\<lparr>waiting_jobs := q\<rparr>) (a # as)"
    using q(2) xs(2) by (auto simp: jobs_are_def intro!: exI [of _ "(a, c_val c) # xs"])
  ultimately show ?thesis by (intro exI [of _ q]) (simp add: workqueue_add_job_def)
qed

lemma take_job_none: "jobs_are wq [] \<Longrightarrow> take_job wq = Inr (0, wq)"
  by (auto simp: jobs_are_def take_job_def)

lemma take_job_some:
  assumes "jobs_are wq (a # as)"
  shows "\<exists>q c. take_job wq = Inr (a, wq\<lparr>waiting_jobs := q\<rparr>) \<and> jobs_are (wq\<lparr>waiting_jobs := q\<rparr>) as \<and> a \<noteq> 0 \<and>
    a \<notin> set as \<and> cells (qmem (waiting_jobs wq)) a = Some c \<and>
    cells (qmem q) = (cells (qmem (waiting_jobs wq)))(a \<mapsto> \<lparr>c_val = c_val c, c_prev = 0, c_next = 0\<rparr>) \<and>
    brk (qmem q) = brk (qmem (waiting_jobs wq))"
proof -
  from assms obtain v xs where xs: "stack_rep (waiting_jobs wq) ((a, v) # xs)" "map fst xs = as"
    by (auto simp: jobs_are_def)
  from LL_REMOVE_head [OF xs(1)] obtain q where q: "LL_REMOVE a (waiting_jobs wq) = Inr q" "stack_rep q xs"
    "cells (qmem q) = (cells (qmem (waiting_jobs wq)))(a \<mapsto> \<lparr>c_val = v, c_prev = 0, c_next = 0\<rparr>)"
    "brk (qmem q) = brk (qmem (waiting_jobs wq))" by blast
  from xs obtain n where "a \<noteq> 0" "qhead (waiting_jobs wq) = a" "a \<notin> set as"
    "cells (qmem (waiting_jobs wq)) a = Some \<lparr>c_val = v, c_prev = 0, c_next = n\<rparr>"
    by (auto simp: stack_rep_Cons)
  with q xs(2) show ?thesis
    by (intro exI [of _ q] exI [of _ "\<lparr>c_val = v, c_prev = 0, c_next = n\<rparr>"]) (auto simp: take_job_def jobs_are_def)
qed

interpretation jobs: node_stack workqueue_add_job take_job jobs_are job_node
proof
  fix wq as a
  assume "jobs_are wq as" "job_node wq a" "a \<notin> set as"
  then show "\<exists>wq'. workqueue_add_job a wq = Inr wq' \<and> jobs_are wq' (a # as) \<and> (\<forall>b. job_node wq b \<longrightarrow> job_node wq' b)"
    using add_job_jobs [of wq as a] by (fastforce simp: job_node_def)
next
  fix wq a as
  assume "jobs_are wq (a # as)"
  then show "\<exists>wq'. take_job wq = Inr (a, wq') \<and> jobs_are wq' as" using take_job_some [of wq a as] by blast
qed (rule take_job_none)

subsection \<open>Properties\<close>

definition jobs_demo :: "workqueue_t" where
  "jobs_demo = \<lparr>wq_workers = queue_empty, waiting_jobs = \<lparr>qhead = 0,
     qmem = \<lparr>cells = (\<lambda>a. if a \<in> {1, 2, 3} then Some \<lparr>c_val = \<lparr>job_function = 7, user_data = a\<rparr>, c_prev = 0, c_next = 0\<rparr> else None),
              brk = 4\<rparr>\<rparr>\<rparr>"

text \<open>The jobs are not a queue: jobs that are added one after the other are taken in the reverse
  order, before all older ones.\<close>

theorem jobs_are_taken_last_in_first_out:
  assumes "jobs_are wq old" "\<forall>a \<in> set as. job_node wq a" "distinct as" "set as \<inter> set old = {}"
  shows "\<exists>wq1 wq2. push_list workqueue_add_job as wq = Inr wq1 \<and>
    pop_list take_job (length as) wq1 = Inr (rev as, wq2) \<and> jobs_are wq2 old"
  using assms by (rule jobs.last_in_first_out)

theorem jobs_are_taken_last_in_first_out_witness:
  "\<exists>wq1 wq2. push_list workqueue_add_job [1, 2, 3] jobs_demo = Inr wq1 \<and>
    pop_list take_job (length [1, 2, 3 :: addr]) wq1 = Inr (rev [1, 2, 3], wq2) \<and> jobs_are wq2 []"
proof (rule jobs_are_taken_last_in_first_out)
  show "jobs_are jobs_demo []" by (simp add: jobs_are_def jobs_demo_def mem_ok_def)
qed (simp_all add: job_node_def jobs_demo_def)

text \<open>Whatever \<open>malloc\<close> and \<open>pthread_create\<close> do, \<open>workqueue_init\<close> ends without a fault: with 0
  it has started the workers that were asked for, at least one, and with 1 fewer. If no thread interferes, \<open>workqueue_shutdown\<close> then sets \<open>terminate\<close> in every worker that
  was started, also after a failed start, and empties both lists.\<close>

theorem init_then_shutdown:
  assumes "mem_ok wm" "mem_ok jm"
  shows "\<exists>rc wq ts wq'. workqueue_init n malloc_ok pthread_create wm jm = Inr (rc, wq, ts) \<and>
    (rc = 0 \<and> length ts = nat (max 1 n) \<or> rc = 1 \<and> length ts < nat (max 1 n)) \<and>
    workqueue_shutdown wq = Inr wq' \<and> qhead (wq_workers wq') = 0 \<and> qhead (waiting_jobs wq') = 0 \<and>
    (\<forall>a \<in> set ts. \<exists>c. cells (qmem (wq_workers wq')) a = Some c \<and> terminate (c_val c) = 1)"
proof -
  have "stack_rep \<lparr>qhead = 0, qmem = wm\<rparr> []" using assms(1) by simp
  from init_workers_rep [OF this, of "nat (max 1 n)" malloc_ok pthread_create 0] obtain rc q ts ys where
    i: "init_workers (nat (max 1 n)) malloc_ok pthread_create 0 \<lparr>qhead = 0, qmem = wm\<rparr> = Inr (rc, q, ts)"
    "stack_rep q ys" "map fst ys = rev ts"
    "rc = 0 \<and> length ts = nat (max 1 n) \<or> rc = 1 \<and> length ts < nat (max 1 n)" by auto
  let ?wq = "\<lparr>wq_workers = q, waiting_jobs = \<lparr>qhead = 0, qmem = jm\<rparr>\<rparr>"
  have "(if n < 1 then 1 else n) = max 1 n" by simp
  then have "workqueue_init n malloc_ok pthread_create wm jm = Inr (rc, ?wq, ts)"
    using i(1) by (simp add: workqueue_init_def Let_def del: init_workers.simps)
  moreover have "fst ` set ys = set ts" using i(3) by (metis set_map set_rev)
  ultimately show ?thesis
    using workqueue_shutdown_rep [of ?wq ys "[]"] i(2,4) assms(2) by auto
qed

theorem init_then_shutdown_witness:
  "\<exists>rc wq ts wq'. workqueue_init 3 (\<lambda>i. i < 2) (\<lambda>_. 0) mem_empty mem_empty = Inr (rc, wq, ts) \<and>
    (rc = 0 \<and> length ts = nat (max 1 3) \<or> rc = 1 \<and> length ts < nat (max 1 3)) \<and>
    workqueue_shutdown wq = Inr wq' \<and> qhead (wq_workers wq') = 0 \<and> qhead (waiting_jobs wq') = 0 \<and>
    (\<forall>a \<in> set ts. \<exists>c. cells (qmem (wq_workers wq')) a = Some c \<and> terminate (c_val c) = 1)"
  by (rule init_then_shutdown) simp_all

end
