(* ===== verification/WorkSteps.thy ===== *)
theory WorkSteps
  imports Workqueue Runs
begin

section \<open>The work queue with its threads\<close>

text \<open>
  The workers, the clients that add jobs and the thread that calls \<open>workqueue_shutdown\<close> (a signal
  handler of \<^verbatim>\<open>withlibev/src/module.c\<close>) interleave at the mutex, at the calls of jobs, and, in the
  loop of \<open>workqueue_shutdown\<close>, which takes no lock, at each access to a worker. Spurious
  wake-ups are steps too. \<open>ran\<close> records the jobs that were executed.
\<close>

datatype stop_pc = Stop_idle | Stop_mark addr | Stop_next addr | Stop_drop | Stop_done

record wstate =
  wq :: workqueue_t
  wthreads :: "(addr \<times> worker_pc) list"
  stopper :: stop_pc
  ran :: "addr list"

abbreviation set_pc :: "(addr \<times> worker_pc) list \<Rightarrow> nat \<Rightarrow> worker_pc \<Rightarrow> (addr \<times> worker_pc) list" where
  "set_pc ts j pc \<equiv> ts[j := (fst (ts ! j), pc)]"

text \<open>\<open>pthread_cond_signal\<close> wakes a thread that waits, if there is one; \<open>pthread_cond_broadcast\<close> all.\<close>

inductive signalled :: "(addr \<times> worker_pc) list \<Rightarrow> (addr \<times> worker_pc) list \<Rightarrow> bool" where
  signal_none: "(\<forall>j < length ts. snd (ts ! j) \<noteq> W_wait) \<Longrightarrow> signalled ts ts"
| signal_one: "j < length ts \<Longrightarrow> snd (ts ! j) = W_wait \<Longrightarrow> signalled ts (set_pc ts j W_top)"

inductive_cases signalledE: "signalled ts ts'"

definition broadcast :: "(addr \<times> worker_pc) list \<Rightarrow> (addr \<times> worker_pc) list" where
  "broadcast ts = map (\<lambda>(w, pc). (w, if pc = W_wait then W_top else pc)) ts"

text \<open>A client allocates a job and adds it.\<close>

definition new_job :: "job_t \<Rightarrow> workqueue_t \<Rightarrow> (addr \<times> workqueue_t)" where
  "new_job v q = (let (a, m) = calloc_cell v (qmem (waiting_jobs q))
                  in (a, q\<lparr>waiting_jobs := (waiting_jobs q)\<lparr>qmem := m\<rparr>\<rparr>))"

definition stop_at :: "addr \<Rightarrow> stop_pc" where
  "stop_at a = (if a = 0 then Stop_drop else Stop_mark a)"

inductive wstep :: "wstate \<Rightarrow> wstate res \<Rightarrow> bool" where
  client_adds: "job_function v \<noteq> 0 \<Longrightarrow> signalled (wthreads s) ts \<Longrightarrow>
    wstep s (case new_job v (wq s) of (job, q) \<Rightarrow> bindE (workqueue_add_job job q) (\<lambda>q.
      Inr (s\<lparr>wq := q, wthreads := ts\<rparr>)))"
| worker_looks: "j < length (wthreads s) \<Longrightarrow> snd (wthreads s ! j) = W_top \<Longrightarrow>
    wstep s (bindE (worker_section (fst (wthreads s ! j)) (wq s)) (\<lambda>(pc, q).
      Inr (s\<lparr>wq := q, wthreads := set_pc (wthreads s) j pc\<rparr>)))"
| worker_wakes: "j < length (wthreads s) \<Longrightarrow> snd (wthreads s ! j) = W_wait \<Longrightarrow>
    wstep s (Inr (s\<lparr>wthreads := set_pc (wthreads s) j W_top\<rparr>))"
| worker_runs: "j < length (wthreads s) \<Longrightarrow> snd (wthreads s ! j) = W_run job \<Longrightarrow>
    wstep s (bindE (run_job frees job (waiting_jobs (wq s))) (\<lambda>q.
      Inr (s\<lparr>wq := (wq s)\<lparr>waiting_jobs := q\<rparr>, wthreads := set_pc (wthreads s) j W_top, ran := job # ran s\<rparr>)))"
| worker_leaves: "j < length (wthreads s) \<Longrightarrow> snd (wthreads s ! j) = W_exit \<Longrightarrow>
    wstep s (bindE (worker_leave (fst (wthreads s ! j)) (wq s)) (\<lambda>q.
      Inr (s\<lparr>wq := q, wthreads := set_pc (wthreads s) j W_done\<rparr>)))"
| stop_begins: "stopper s = Stop_idle \<Longrightarrow>
    wstep s (Inr (s\<lparr>stopper := stop_at (qhead (wq_workers (wq s)))\<rparr>))"
| stop_marks: "stopper s = Stop_mark a \<Longrightarrow>
    wstep s (bindE (shutdown_mark a (wq s)) (\<lambda>q. Inr (s\<lparr>wq := q, stopper := Stop_next a\<rparr>)))"
| stop_reads: "stopper s = Stop_next a \<Longrightarrow>
    wstep s (bindE (shutdown_next a (wq s)) (\<lambda>b. Inr (s\<lparr>stopper := stop_at b\<rparr>)))"
| stop_drops: "stopper s = Stop_drop \<Longrightarrow>
    wstep s (Inr (s\<lparr>wq := shutdown_drop (wq s), wthreads := broadcast (wthreads s), stopper := Stop_done\<rparr>))"

definition wnext :: "wstate \<Rightarrow> wstate \<Rightarrow> bool" where
  "wnext s s' \<longleftrightarrow> wstep s (Inr s')"

text \<open>After \<open>workqueue_init\<close>.\<close>

definition wstart :: "workqueue_t \<Rightarrow> addr list \<Rightarrow> wstate" where
  "wstart q ts = \<lparr>wq = q, wthreads = map (\<lambda>w. (w, W_top)) ts, stopper = Stop_idle, ran = []\<rparr>"

definition wstarted :: "int \<Rightarrow> wstate \<Rightarrow> bool" where
  "wstarted n s \<longleftrightarrow> (\<exists>mk pt rc q ts. workqueue_init n mk pt mem_empty mem_empty = Inr (rc, q, ts) \<and> s = wstart q ts)"

definition wreach :: "int \<Rightarrow> wstate \<Rightarrow> bool" where
  "wreach n s \<longleftrightarrow> (\<exists>s0. wstarted n s0 \<and> wnext\<^sup>*\<^sup>* s0 s)"

lemma wreach_run:
  "workqueue_init n mk pt mem_empty mem_empty = Inr (rc, q, ts) \<Longrightarrow> wnext\<^sup>*\<^sup>* (wstart q ts) s \<Longrightarrow> wreach n s"
  unfolding wreach_def wstarted_def by blast

lemma wreach_step: "wreach n s \<Longrightarrow> wnext s s' \<Longrightarrow> wreach n s'"
  by (auto simp: wreach_def intro: rtranclp.rtrancl_into_rtrancl)

subsection \<open>The invariant\<close>

text \<open>
  A job is in one place: waiting, held by one worker, or executed. Jobs that wait or are held
  exist, and so do the nodes of the workers that have not left.
\<close>

definition live_job :: "workqueue_t \<Rightarrow> addr \<Rightarrow> bool" where
  "live_job q a \<longleftrightarrow> (\<exists>c. cells (qmem (waiting_jobs q)) a = Some c \<and> job_function (c_val c) \<noteq> 0)"

definition held :: "(addr \<times> worker_pc) list \<Rightarrow> nat \<Rightarrow> addr \<Rightarrow> bool" where
  "held ts j a \<longleftrightarrow> j < length ts \<and> snd (ts ! j) = W_run a"

definition jobs_inv :: "workqueue_t \<Rightarrow> (addr \<times> worker_pc) list \<Rightarrow> addr list \<Rightarrow> bool" where
  "jobs_inv q ts rn \<longleftrightarrow> (\<exists>js. jobs_are q js \<and> distinct rn \<and> set js \<inter> set rn = {} \<and>
     (\<forall>j a. held ts j a \<longrightarrow> a \<notin> set js \<and> a \<notin> set rn \<and> live_job q a \<and> (\<forall>i. held ts i a \<longrightarrow> i = j)) \<and>
     (\<forall>a \<in> set js. live_job q a) \<and> (\<forall>a \<in> set rn. a < brk (qmem (waiting_jobs q))))"

definition workers_inv :: "workqueue_t \<Rightarrow> (addr \<times> worker_pc) list \<Rightarrow> bool" where
  "workers_inv q ts \<longleftrightarrow> mem_ok (qmem (wq_workers q)) \<and> distinct (map fst ts) \<and>
     (\<forall>j < length ts. snd (ts ! j) \<noteq> W_done \<longrightarrow> cells (qmem (wq_workers q)) (fst (ts ! j)) \<noteq> None)"

lemma jobs_are_mem: "jobs_are q js \<Longrightarrow> mem_ok (qmem (waiting_jobs q)) \<and> distinct js"
  by (auto simp: jobs_are_def stack_rep_def dest: chain_distinct)

lemma jobs_inv_mem: "jobs_inv q ts rn \<Longrightarrow> mem_ok (qmem (waiting_jobs q))"
  by (auto simp: jobs_inv_def dest: jobs_are_mem)

lemma held_set_pc: "held (set_pc ts j pc) i a \<longleftrightarrow> (if i = j then j < length ts \<and> pc = W_run a else held ts i a)"
  by (auto simp: held_def)

lemma held_set_pc_idle:
  "(\<And>a. pc \<noteq> W_run a) \<Longrightarrow> (\<And>a. snd (ts ! j) \<noteq> W_run a) \<Longrightarrow> held (set_pc ts j pc) i a = held ts i a"
  by (cases "i = j") (auto simp: held_set_pc held_def)

lemma held_signalled: "signalled ts ts' \<Longrightarrow> held ts' j a = held ts j a"
  by (erule signalledE) (auto simp: held_set_pc_idle)

lemma held_broadcast: "held (broadcast ts) j a = held ts j a"
  by (auto simp: held_def broadcast_def split: prod.splits if_splits)

lemma fst_set_pc [simp]: "map fst (set_pc ts j pc) = map fst ts"
  by (cases "j < length ts") (simp_all add: map_update list_update_same_conv list_update_beyond)

lemma jobs_inv_held:
  assumes "\<And>j a. held ts' j a = held ts j a"
  shows "jobs_inv q ts' rn = jobs_inv q ts rn"
  unfolding jobs_inv_def assms ..

lemma jobs_inv_signalled: "signalled ts ts' \<Longrightarrow> jobs_inv q ts' rn = jobs_inv q ts rn"
  by (rule jobs_inv_held) (rule held_signalled)

lemma jobs_inv_broadcast: "jobs_inv q (broadcast ts) rn = jobs_inv q ts rn"
  by (rule jobs_inv_held) (rule held_broadcast)

lemma jobs_inv_idle:
  "(\<And>a. pc \<noteq> W_run a) \<Longrightarrow> (\<And>a. snd (ts ! j) \<noteq> W_run a) \<Longrightarrow> jobs_inv q (set_pc ts j pc) rn = jobs_inv q ts rn"
  by (rule jobs_inv_held) (rule held_set_pc_idle)

lemmas jobs_inv_threads = jobs_inv_signalled jobs_inv_broadcast jobs_inv_idle

subsection \<open>Every step keeps it\<close>

lemma new_job_inv:
  assumes "jobs_inv q ts rn" "new_job v q = (a, q1)" "job_function v \<noteq> 0"
  shows "\<exists>q2. workqueue_add_job a q1 = Inr q2 \<and> jobs_inv q2 ts rn \<and> wq_workers q2 = wq_workers q \<and>
    brk (qmem (waiting_jobs q2)) = Suc (brk (qmem (waiting_jobs q))) \<and>
    (\<forall>js. jobs_are q js \<longrightarrow> jobs_are q2 (brk (qmem (waiting_jobs q)) # js))"
proof -
  let ?m = "qmem (waiting_jobs q)"
  from assms(1) obtain js where js: "jobs_are q js" "distinct rn" "set js \<inter> set rn = {}"
    "\<forall>j a. held ts j a \<longrightarrow> a \<notin> set js \<and> a \<notin> set rn \<and> live_job q a \<and> (\<forall>i. held ts i a \<longrightarrow> i = j)"
    "\<forall>a \<in> set js. live_job q a" "\<forall>a \<in> set rn. a < brk ?m"
    by (auto simp: jobs_inv_def)
  from js(1) obtain xs where xs: "stack_rep (waiting_jobs q) xs" "map fst xs = js" by (auto simp: jobs_are_def)
  obtain m where am: "calloc_cell v ?m = (a, m)" "q1 = q\<lparr>waiting_jobs := (waiting_jobs q)\<lparr>qmem := m\<rparr>\<rparr>"
    using assms(2) by (auto simp: new_job_def split: prod.splits)
  note c = stack_rep_calloc [OF xs(1) am(1)]
  have q1: "jobs_are q1 js" using c(1) xs(2) am(2) by (auto simp: jobs_are_def)
  have fresh: "a \<notin> set js" using c(3) xs(2) by force
  have "cells (qmem (waiting_jobs q1)) a = Some \<lparr>c_val = v, c_prev = 0, c_next = 0\<rparr>" using c(2) am(2) by simp
  from add_job_jobs [OF q1 this fresh] obtain p where p: "workqueue_add_job a q1 = Inr (q1\<lparr>waiting_jobs := p\<rparr>)"
    "jobs_are (q1\<lparr>waiting_jobs := p\<rparr>) (a # js)"
    "cells (qmem p) = (cells m)(a \<mapsto> \<lparr>c_val = v, c_prev = 0, c_next = qhead (waiting_jobs q1)\<rparr>)"
    "brk (qmem p) = Suc a" using am(2) c(6) by auto
  let ?q2 = "q1\<lparr>waiting_jobs := p\<rparr>"
  have none: "cells ?m a = None" using jobs_are_mem [OF js(1)] c(5) by simp
  have live: "live_job ?q2 b" if "live_job q b" for b
    using that none p(3) c(8) [of b] by (cases "b = a") (auto simp: live_job_def)
  have "live_job ?q2 a" using p(3) assms(3) by (simp add: live_job_def)
  moreover have "\<not> held ts j a" for j using js(4) [rule_format, of j a] none by (auto simp: live_job_def)
  moreover have "a \<notin> set rn" using js(6) c(5) by auto
  moreover have "\<forall>b \<in> set rn. b < brk (qmem p)" using js(6) c(5) p(4) by auto
  ultimately have "jobs_inv ?q2 ts rn" unfolding jobs_inv_def
    using p(2) js(2-5) live by (intro exI [of _ "a # js"]) auto
  moreover have "jobs_are ?q2 (a # js')" if "jobs_are q js'" for js'
  proof -
    have "js' = js" using that js(1) stack_rep_unique by (auto simp: jobs_are_def)
    then show ?thesis using p(2) by simp
  qed
  ultimately show ?thesis using p(1,4) am(2) c(5) by (intro exI [of _ ?q2]) auto
qed

lemma section_inv:
  assumes "jobs_inv q ts rn" "workers_inv q ts" "j < length ts" "snd (ts ! j) = W_top"
  shows "\<exists>pc q'. worker_section (fst (ts ! j)) q = Inr (pc, q') \<and> jobs_inv q' (set_pc ts j pc) rn \<and>
    wq_workers q' = wq_workers q \<and> pc \<noteq> W_done \<and> brk (qmem (waiting_jobs q')) = brk (qmem (waiting_jobs q)) \<and>
    (\<forall>a js. jobs_are q (a # js) \<longrightarrow> (pc = W_exit \<and> q' = q \<or> pc = W_run a \<and> jobs_are q' js)) \<and>
    (jobs_are q [] \<longrightarrow> pc \<in> {W_exit, W_wait} \<and> q' = q) \<and>
    (pc = W_exit \<longrightarrow> (\<exists>c. cells (qmem (wq_workers q)) (fst (ts ! j)) = Some c \<and> terminate (c_val c) \<noteq> 0))"
proof -
  from assms(1) obtain js where js: "jobs_are q js" "distinct rn" "set js \<inter> set rn = {}"
    "\<forall>j a. held ts j a \<longrightarrow> a \<notin> set js \<and> a \<notin> set rn \<and> live_job q a \<and> (\<forall>i. held ts i a \<longrightarrow> i = j)"
    "\<forall>a \<in> set js. live_job q a" "\<forall>a \<in> set rn. a < brk (qmem (waiting_jobs q))"
    by (auto simp: jobs_inv_def)
  have uniq: "ks = js" if "jobs_are q ks" for ks
    using that js(1) stack_rep_unique by (auto simp: jobs_are_def)
  from assms(2-4) obtain c where c: "cells (qmem (wq_workers q)) (fst (ts ! j)) = Some c" "fst (ts ! j) \<noteq> 0"
    unfolding workers_inv_def by (fastforce dest: mem_okD)
  have null: "qhead (waiting_jobs q) = 0 \<longleftrightarrow> js = []"
    using js(1) stack_rep_null by (auto simp: jobs_are_def)
  have keep: "jobs_inv q (set_pc ts j pc) rn" if "\<And>a. pc \<noteq> W_run a" for pc
    using assms(1,4) that by (simp add: jobs_inv_idle)
  show ?thesis
  proof (cases "terminate (c_val c) = 0 \<and> js \<noteq> []")
    case False
    then have "worker_section (fst (ts ! j)) q = Inr (if terminate (c_val c) \<noteq> 0 then W_exit else W_wait, q)"
      using c null by (auto simp: worker_section_def)
    then show ?thesis using False keep uniq c(1) by (intro exI [of _ "if terminate (c_val c) \<noteq> 0 then W_exit else W_wait"] exI [of _ q]) auto
  next
    case True
    then obtain a ks where a: "js = a # ks" by (cases js) auto
    from take_job_some [of q a ks] js(1) a obtain p d where p: "take_job q = Inr (a, q\<lparr>waiting_jobs := p\<rparr>)"
      "jobs_are (q\<lparr>waiting_jobs := p\<rparr>) ks" "a \<noteq> 0" "a \<notin> set ks" "cells (qmem (waiting_jobs q)) a = Some d"
      "cells (qmem p) = (cells (qmem (waiting_jobs q)))(a \<mapsto> \<lparr>c_val = c_val d, c_prev = 0, c_next = 0\<rparr>)"
      "brk (qmem p) = brk (qmem (waiting_jobs q))" by blast
    let ?q = "q\<lparr>waiting_jobs := p\<rparr>"
    have sec: "worker_section (fst (ts ! j)) q = Inr (W_run a, ?q)"
      using c null True a p(1,3) by (auto simp: worker_section_def)
    have live: "live_job ?q b" if "live_job q b" for b
      using that p(5,6) by (auto simp: live_job_def)
    have "jobs_inv ?q (set_pc ts j (W_run a)) rn" unfolding jobs_inv_def
    proof (intro exI [of _ ks] conjI allI impI)
      fix i b assume h: "held (set_pc ts j (W_run a)) i b"
      show "b \<notin> set ks" "b \<notin> set rn" "live_job ?q b"
        using h js a p(4) live by (auto simp: held_set_pc split: if_splits)
      show "k = i" if "held (set_pc ts j (W_run a)) k b" for k
        using h that js(4) a by (auto simp: held_set_pc split: if_splits)
    qed (use p js a live in auto)
    with sec p a uniq show ?thesis by (intro exI [of _ "W_run a"] exI [of _ ?q]) auto
  qed
qed

lemma run_job_inv:
  assumes "jobs_inv q ts rn" "held ts j a"
  shows "\<exists>p. run_job frees a (waiting_jobs q) = Inr p \<and> jobs_inv (q\<lparr>waiting_jobs := p\<rparr>) (set_pc ts j W_top) (a # rn) \<and>
    brk (qmem p) = brk (qmem (waiting_jobs q)) \<and> (\<forall>js. jobs_are q js \<longrightarrow> jobs_are (q\<lparr>waiting_jobs := p\<rparr>) js)"
proof -
  let ?m = "qmem (waiting_jobs q)"
  from assms(1) obtain js where js: "jobs_are q js" "distinct rn" "set js \<inter> set rn = {}"
    "\<forall>j a. held ts j a \<longrightarrow> a \<notin> set js \<and> a \<notin> set rn \<and> live_job q a \<and> (\<forall>i. held ts i a \<longrightarrow> i = j)"
    "\<forall>a \<in> set js. live_job q a" "\<forall>a \<in> set rn. a < brk ?m"
    by (auto simp: jobs_inv_def)
  from js(4) [rule_format, OF assms(2)] obtain c where c: "cells ?m a = Some c" "job_function (c_val c) \<noteq> 0" "a \<notin> set js" "a \<notin> set rn"
    by (auto simp: live_job_def)
  have ok: "mem_ok ?m" using jobs_are_mem [OF js(1)] by blast
  then have a: "a \<noteq> 0" "a < brk ?m" using mem_okD c(1) by blast+
  obtain p where p: "run_job frees a (waiting_jobs q) = Inr p" "brk (qmem p) = brk ?m" "qhead p = qhead (waiting_jobs q)"
    "mem_ok (qmem p)" "\<And>b. b \<noteq> a \<Longrightarrow> cells (qmem p) b = cells ?m b"
  proof (cases frees)
    case True
    then show ?thesis using that [of "(waiting_jobs q)\<lparr>qmem := ?m\<lparr>cells := (cells ?m)(a := None)\<rparr>\<rparr>"] c a ok
      by (auto simp: run_job_def free_cell_def mem_ok_del)
  next
    case False
    then show ?thesis using that [of "waiting_jobs q"] c a ok by (simp add: run_job_def)
  qed
  have jobs: "jobs_are (q\<lparr>waiting_jobs := p\<rparr>) ks" if ks: "jobs_are q ks" for ks
  proof -
    from ks obtain xs where xs: "stack_rep (waiting_jobs q) xs" "map fst xs = ks" by (auto simp: jobs_are_def)
    have "ks = js" using ks js(1) stack_rep_unique by (auto simp: jobs_are_def)
    then have "a \<notin> fst ` set xs" using c(3) xs(2) by force
    then have "stack_rep p xs" by (rule stack_rep_outside [OF xs(1) _ p(4,5,3) refl])
    then show ?thesis using xs(2) by (auto simp: jobs_are_def)
  qed
  have live: "live_job (q\<lparr>waiting_jobs := p\<rparr>) b" if "live_job q b" "b \<noteq> a" for b
    using that p(5) by (simp add: live_job_def)
  have "\<forall>b \<in> set js. live_job (q\<lparr>waiting_jobs := p\<rparr>) b" using js(5) c(3) live by blast
  moreover have "jobs_are (q\<lparr>waiting_jobs := p\<rparr>) js" by (rule jobs [OF js(1)])
  ultimately have "jobs_inv (q\<lparr>waiting_jobs := p\<rparr>) (set_pc ts j W_top) (a # rn)" unfolding jobs_inv_def
  proof (intro exI [of _ js] conjI allI impI)
    fix i b assume h: "held (set_pc ts j W_top) i b"
    then have h': "held ts i b" "i \<noteq> j" by (auto simp: held_set_pc split: if_splits)
    then have "b \<noteq> a" using js(4) assms(2) by blast
    then show "b \<notin> set js" "b \<notin> set (a # rn)" "live_job (q\<lparr>waiting_jobs := p\<rparr>) b"
      using h' js(4) live by auto
    show "k = i" if "held (set_pc ts j W_top) k b" for k
      using that h' js(4) by (auto simp: held_set_pc split: if_splits)
  qed (use js c a p(2) in auto)
  with p jobs show ?thesis by blast
qed

lemma workers_inv_pc:
  assumes "workers_inv q ts" "wq_workers q' = wq_workers q" "snd (ts ! j) \<noteq> W_done"
  shows "workers_inv q' (set_pc ts j pc)"
  unfolding workers_inv_def
proof (intro conjI allI impI)
  show "mem_ok (qmem (wq_workers q'))" "distinct (map fst (set_pc ts j pc))"
    using assms by (simp_all add: workers_inv_def del: map_update)
next
  fix i assume "i < length (set_pc ts j pc)" "snd (set_pc ts j pc ! i) \<noteq> W_done"
  then show "cells (qmem (wq_workers q')) (fst (set_pc ts j pc ! i)) \<noteq> None"
    using assms by (cases "i = j") (auto simp: workers_inv_def)
qed

lemma workers_inv_signalled:
  "workers_inv q ts \<Longrightarrow> signalled ts ts' \<Longrightarrow> wq_workers q' = wq_workers q \<Longrightarrow> workers_inv q' ts'"
  by (erule signalledE) (simp add: workers_inv_def, simp add: workers_inv_pc)

lemma workers_inv_broadcast:
  "workers_inv q ts \<Longrightarrow> qmem (wq_workers q') = qmem (wq_workers q) \<Longrightarrow> workers_inv q' (broadcast ts)"
  by (auto simp: workers_inv_def broadcast_def o_def case_prod_beta)

lemma worker_leave_inv:
  assumes "workers_inv q ts" "j < length ts" "snd (ts ! j) = W_exit"
  shows "\<exists>q'. worker_leave (fst (ts ! j)) q = Inr q' \<and> waiting_jobs q' = waiting_jobs q \<and>
    workers_inv q' (set_pc ts j W_done)"
proof -
  let ?m = "qmem (wq_workers q)" and ?w = "fst (ts ! j)"
  from assms obtain c where c: "cells ?m ?w = Some c" "mem_ok ?m" by (fastforce simp: workers_inv_def)
  then have w: "?w \<noteq> 0" by (blast dest: mem_okD)
  let ?q = "q\<lparr>wq_workers := (wq_workers q)\<lparr>qmem := ?m\<lparr>cells := (cells ?m)(?w := None)\<rparr>\<rparr>\<rparr>"
  have "worker_leave ?w q = Inr ?q" using c w by (simp add: worker_leave_def free_cell_def)
  moreover have "workers_inv ?q (set_pc ts j W_done)" unfolding workers_inv_def
  proof (intro conjI allI impI)
    show "mem_ok (qmem (wq_workers ?q))" using mem_ok_del [OF c(2)] by simp
    show "distinct (map fst (set_pc ts j W_done))" using assms(1) by (simp add: workers_inv_def del: map_update)
  next
    fix i assume i: "i < length (set_pc ts j W_done)" "snd (set_pc ts j W_done ! i) \<noteq> W_done"
    with assms(2) have "i \<noteq> j" "i < length ts" "snd (ts ! i) \<noteq> W_done" by (auto simp: nth_list_update split: if_splits)
    moreover from this assms(1,2) have "fst (ts ! i) \<noteq> ?w"
      unfolding workers_inv_def by (metis length_map nth_eq_iff_index_eq nth_map)
    ultimately show "cells (qmem (wq_workers ?q)) (fst (set_pc ts j W_done ! i)) \<noteq> None"
      using assms(1) by (simp add: workers_inv_def)
  qed
  ultimately show ?thesis by (intro exI [of _ ?q]) simp
qed

lemma shutdown_mark_inv:
  assumes "workers_inv q ts" "shutdown_mark a q = Inr q'"
  shows "workers_inv q' ts \<and> waiting_jobs q' = waiting_jobs q"
proof -
  from assms(2) obtain c where c: "a \<noteq> 0" "cells (qmem (wq_workers q)) a = Some c"
    by (auto simp: shutdown_mark_def modify_def load_def outcome_iffs split: if_splits option.splits)
  with assms mem_ok_upd [of "qmem (wq_workers q)" a c] show ?thesis
    by (auto simp: shutdown_mark_cell workers_inv_def)
qed

lemma jobs_inv_other: "jobs_inv q ts rn \<Longrightarrow> waiting_jobs q' = waiting_jobs q \<Longrightarrow> jobs_inv q' ts rn"
  by (simp add: jobs_inv_def jobs_are_def live_job_def)

lemma shutdown_drop_inv:
  assumes "jobs_inv q ts rn"
  shows "jobs_inv (shutdown_drop q) (broadcast ts) rn"
proof -
  have "jobs_are (shutdown_drop q) []"
    using jobs_inv_mem [OF assms] by (simp add: jobs_are_def shutdown_drop_def)
  moreover have "live_job (shutdown_drop q) a = live_job q a" for a
    by (simp add: live_job_def shutdown_drop_def)
  moreover have "brk (qmem (waiting_jobs (shutdown_drop q))) = brk (qmem (waiting_jobs q))"
    by (simp add: shutdown_drop_def)
  ultimately have "jobs_inv (shutdown_drop q) ts rn"
    using assms unfolding jobs_inv_def by (elim exE conjE, intro exI [of _ "[]"]) simp
  then show ?thesis by (simp add: jobs_inv_broadcast)
qed

definition winv :: "wstate \<Rightarrow> bool" where
  "winv s \<longleftrightarrow> jobs_inv (wq s) (wthreads s) (ran s) \<and> workers_inv (wq s) (wthreads s)"

lemma wstep_winv:
  assumes "wstep s (Inr s')" "winv s"
  shows "winv s'"
  using assms(1)
proof (cases rule: wstep.cases)
  case (client_adds v ts)
  obtain a q where aq: "new_job v (wq s) = (a, q)" by force
  from new_job_inv [of "wq s" "wthreads s" "ran s", OF _ aq client_adds(2)] assms(2) obtain q2 where
    "workqueue_add_job a q = Inr q2" "jobs_inv q2 (wthreads s) (ran s)" "wq_workers q2 = wq_workers (wq s)"
    by (auto simp: winv_def)
  with client_adds aq assms(2) show ?thesis
    by (auto simp: winv_def outcome_iffs jobs_inv_signalled intro: workers_inv_signalled)
next
  case (worker_looks j)
  with section_inv [of "wq s" "wthreads s" "ran s" j] assms(2) show ?thesis
    by (fastforce simp: winv_def outcome_iffs intro: workers_inv_pc)
next
  case (worker_wakes j)
  with assms(2) workers_inv_pc [of "wq s" "wthreads s" "wq s" j] show ?thesis
    by (auto simp: winv_def jobs_inv_idle)
next
  case (worker_runs j job frees)
  then have "held (wthreads s) j job" by (simp add: held_def)
  with run_job_inv [of "wq s" "wthreads s" "ran s" j job frees] worker_runs assms(2)
    workers_inv_pc [of "wq s" "wthreads s" _ j] show ?thesis
    by (fastforce simp: winv_def outcome_iffs)
next
  case (worker_leaves j)
  with worker_leave_inv [of "wq s" "wthreads s" j] assms(2) obtain q' where
    "s' = s\<lparr>wq := q', wthreads := set_pc (wthreads s) j W_done\<rparr>" "waiting_jobs q' = waiting_jobs (wq s)"
    "workers_inv q' (set_pc (wthreads s) j W_done)" by (auto simp: winv_def outcome_iffs)
  with worker_leaves assms(2) show ?thesis
    by (auto simp: winv_def jobs_inv_idle intro: jobs_inv_other)
next
  case (stop_marks a)
  with shutdown_mark_inv [of "wq s" "wthreads s" a] assms(2) show ?thesis
    by (auto simp: winv_def outcome_iffs intro: jobs_inv_other)
next
  case stop_drops
  moreover have "qmem (wq_workers (shutdown_drop (wq s))) = qmem (wq_workers (wq s))" by (simp add: shutdown_drop_def)
  ultimately show ?thesis using assms(2) by (auto simp: winv_def shutdown_drop_inv intro: workers_inv_broadcast)
qed (use assms(2) in \<open>auto simp: winv_def outcome_iffs\<close>)

lemma wstart_winv:
  assumes "workqueue_init n mk pt mem_empty mem_empty = Inr (rc, q, ts)"
  shows "winv (wstart q ts)" "jobs_are q []"
    and "\<forall>w \<in> set ts. \<exists>c. cells (qmem (wq_workers q)) w = Some c \<and> terminate (c_val c) = 0"
    and "0 < n \<Longrightarrow> rc = 0 \<Longrightarrow> length ts = nat n" and "qhead (wq_workers q) = (if ts = [] then 0 else last ts)"
proof -
  let ?k = "nat (if n < 1 then 1 else n)"
  have "stack_rep \<lparr>qhead = 0, qmem = mem_empty\<rparr> []" by simp
  from init_workers_rep [OF this, of ?k mk pt 0] obtain rc' q0 ts' ys where
    i: "init_workers ?k mk pt 0 \<lparr>qhead = 0, qmem = mem_empty\<rparr> = Inr (rc', q0, ts')" "stack_rep q0 ys"
    "map fst ys = rev ts'" "\<forall>w \<in> snd ` set ys. terminate w = 0" "rc' = 0 \<and> length ts' = ?k \<or> rc' = 1 \<and> length ts' < ?k"
    by auto
  from assms i(1) have e: "rc = rc'" "ts = ts'" "q = \<lparr>wq_workers = q0, waiting_jobs = \<lparr>qhead = 0, qmem = mem_empty\<rparr>\<rparr>"
    by (auto simp: workqueue_init_def Let_def)
  show jobs: "jobs_are q []" by (simp add: jobs_are_def e)
  have cell: "\<exists>c. cells (qmem q0) w = Some c \<and> terminate (c_val c) = 0" if "w \<in> set ts" for w
  proof -
    from that i(3) e(2) have "w \<in> fst ` set ys" by (metis set_map set_rev)
    then obtain v where v: "(w, v) \<in> set ys" by force
    then obtain us vs where "ys = us @ (w, v) # vs" by (meson split_list)
    with i(2) obtain c where "cells (qmem q0) w = Some c" "c_val c = v"
      by (auto simp: stack_rep_def chain_def seg_append seg_Cons_iff)
    moreover from v i(4) have "terminate v = 0" by force
    ultimately show ?thesis by blast
  qed
  then show "\<forall>w \<in> set ts. \<exists>c. cells (qmem (wq_workers q)) w = Some c \<and> terminate (c_val c) = 0" by (simp add: e)
  have "distinct ts" using stack_rep_distinct [OF i(2)] i(3) e(2) by simp
  with cell i(2) have "workers_inv q (map (\<lambda>w. (w, W_top)) ts)"
    by (auto simp: workers_inv_def e(3) stack_rep_def o_def) (metis nth_mem option.distinct(1))
  moreover have "jobs_inv q (map (\<lambda>w. (w, W_top)) ts) []" unfolding jobs_inv_def
    using jobs by (intro exI [of _ "[]"]) (auto simp: held_def)
  ultimately show "winv (wstart q ts)" by (simp add: winv_def wstart_def)
  show "length ts = nat n" if "0 < n" "rc = 0" using i(5) e that by (auto split: if_splits)
  show "qhead (wq_workers q) = (if ts = [] then 0 else last ts)"
    using i(2,3) e by (cases ys; cases ts' rule: rev_cases) (auto simp: stack_rep_Cons)
qed

interpretation jobs_once: started_steps wnext winv "wstarted n" for n
  by unfold_locales (auto simp: wnext_def wstarted_def intro: wstep_winv wstart_winv(1))

lemma wreach_winv: "wreach n s \<Longrightarrow> winv s"
  using jobs_once.reach_inv by (auto simp: wreach_def)

subsection \<open>No job is anywhere else\<close>

text \<open>Until the waiting jobs are dropped, every job that was added is in one of the three places.\<close>

definition placed :: "wstate \<Rightarrow> bool" where
  "placed s \<longleftrightarrow> stopper s \<noteq> Stop_done \<longrightarrow> (\<exists>js. jobs_are (wq s) js \<and>
     (\<forall>a. 0 < a \<and> a < brk (qmem (waiting_jobs (wq s))) \<longrightarrow>
        a \<in> set js \<or> (\<exists>j. held (wthreads s) j a) \<or> a \<in> set (ran s)))"

lemma placedI:
  assumes "placed s" "stopper s' \<noteq> Stop_done \<Longrightarrow> stopper s \<noteq> Stop_done" "waiting_jobs (wq s') = waiting_jobs (wq s)"
    and "\<And>j a. held (wthreads s) j a \<Longrightarrow> held (wthreads s') j a" "ran s' = ran s"
  shows "placed s'"
proof (cases "stopper s' = Stop_done")
  case False
  with assms(1,2) obtain js where js: "jobs_are (wq s) js"
    "\<forall>a. 0 < a \<and> a < brk (qmem (waiting_jobs (wq s))) \<longrightarrow> a \<in> set js \<or> (\<exists>j. held (wthreads s) j a) \<or> a \<in> set (ran s)"
    by (auto simp: placed_def)
  moreover have "jobs_are (wq s') js" using js(1) assms(3) by (simp add: jobs_are_def)
  ultimately show ?thesis unfolding placed_def assms(3,5) using assms(4) by blast
qed (simp add: placed_def)

lemma wstep_placed:
  assumes "wstep s (Inr s')" "winv s" "placed s"
  shows "placed s'"
  using assms(1)
proof (cases rule: wstep.cases)
  case (client_adds v ts)
  obtain a q where aq: "new_job v (wq s) = (a, q)" by force
  from new_job_inv [of "wq s" "wthreads s" "ran s", OF _ aq client_adds(2)] assms(2) obtain q2 where
    q2: "workqueue_add_job a q = Inr q2" "brk (qmem (waiting_jobs q2)) = Suc (brk (qmem (waiting_jobs (wq s))))"
    "\<forall>js. jobs_are (wq s) js \<longrightarrow> jobs_are q2 (brk (qmem (waiting_jobs (wq s))) # js)" by (auto simp: winv_def)
  have s': "s' = s\<lparr>wq := q2, wthreads := ts\<rparr>" using client_adds aq q2(1) by simp
  show ?thesis unfolding placed_def
  proof
    assume "stopper s' \<noteq> Stop_done"
    with assms(3) s' obtain js where "jobs_are (wq s) js"
      "\<forall>a. 0 < a \<and> a < brk (qmem (waiting_jobs (wq s))) \<longrightarrow> a \<in> set js \<or> (\<exists>j. held (wthreads s) j a) \<or> a \<in> set (ran s)"
      by (auto simp: placed_def)
    then show "\<exists>js. jobs_are (wq s') js \<and> (\<forall>a. 0 < a \<and> a < brk (qmem (waiting_jobs (wq s'))) \<longrightarrow>
        a \<in> set js \<or> (\<exists>j. held (wthreads s') j a) \<or> a \<in> set (ran s'))"
      using q2(2,3) s' by (intro exI [of _ "brk (qmem (waiting_jobs (wq s))) # js"])
        (auto simp: held_signalled [OF client_adds(3)] less_Suc_eq)
  qed
next
  case (worker_looks j)
  from section_inv [of "wq s" "wthreads s" "ran s" j] worker_looks(2,3) assms(2) obtain pc q' where
    p: "worker_section (fst (wthreads s ! j)) (wq s) = Inr (pc, q')" "brk (qmem (waiting_jobs q')) = brk (qmem (waiting_jobs (wq s)))"
    "\<forall>a js. jobs_are (wq s) (a # js) \<longrightarrow> (pc = W_exit \<and> q' = wq s \<or> pc = W_run a \<and> jobs_are q' js)"
    "jobs_are (wq s) [] \<longrightarrow> pc \<in> {W_exit, W_wait} \<and> q' = wq s" by (auto simp: winv_def)
  have s': "s' = s\<lparr>wq := q', wthreads := set_pc (wthreads s) j pc\<rparr>" using worker_looks(1) p(1) by simp
  have h: "held (set_pc (wthreads s) j pc) i a" if "held (wthreads s) i a" for i a
    using that worker_looks(3) by (cases "i = j") (auto simp: held_def)
  show ?thesis unfolding placed_def
  proof
    assume "stopper s' \<noteq> Stop_done"
    with assms(3) s' obtain js where js: "jobs_are (wq s) js"
      "\<forall>a. 0 < a \<and> a < brk (qmem (waiting_jobs (wq s))) \<longrightarrow> a \<in> set js \<or> (\<exists>j. held (wthreads s) j a) \<or> a \<in> set (ran s)"
      by (auto simp: placed_def)
    show "\<exists>js. jobs_are (wq s') js \<and> (\<forall>a. 0 < a \<and> a < brk (qmem (waiting_jobs (wq s'))) \<longrightarrow>
        a \<in> set js \<or> (\<exists>j. held (wthreads s') j a) \<or> a \<in> set (ran s'))"
    proof (cases "q' = wq s")
      case True
      then show ?thesis using js h s' by (intro exI [of _ js]) (simp, blast)
    next
      case False
      with js(1) p(3,4) obtain b ks where b: "js = b # ks" "pc = W_run b" "jobs_are q' ks" by (cases js) auto
      then have "held (set_pc (wthreads s) j pc) j b" using worker_looks(2) by (simp add: held_def)
      then show ?thesis using js(2) b h s' p(2) by (intro exI [of _ ks]) (simp, blast)
    qed
  qed
next
  case (worker_runs j job frees)
  then have "held (wthreads s) j job" by (simp add: held_def)
  with run_job_inv [of "wq s" "wthreads s" "ran s" j job frees] assms(2) obtain p where
    p: "run_job frees job (waiting_jobs (wq s)) = Inr p" "brk (qmem p) = brk (qmem (waiting_jobs (wq s)))"
    "\<forall>js. jobs_are (wq s) js \<longrightarrow> jobs_are ((wq s)\<lparr>waiting_jobs := p\<rparr>) js" by (auto simp: winv_def)
  have s': "s' = s\<lparr>wq := (wq s)\<lparr>waiting_jobs := p\<rparr>, wthreads := set_pc (wthreads s) j W_top, ran := job # ran s\<rparr>"
    using worker_runs(1) p(1) by simp
  have h: "held (wthreads s) i a \<Longrightarrow> a = job \<or> held (set_pc (wthreads s) j W_top) i a" for i a
    using worker_runs(3) by (cases "i = j") (auto simp: held_def)
  show ?thesis unfolding placed_def
  proof
    assume "stopper s' \<noteq> Stop_done"
    with assms(3) s' obtain js where js: "jobs_are (wq s) js"
      "\<forall>a. 0 < a \<and> a < brk (qmem (waiting_jobs (wq s))) \<longrightarrow> a \<in> set js \<or> (\<exists>j. held (wthreads s) j a) \<or> a \<in> set (ran s)"
      by (auto simp: placed_def)
    have "jobs_are (wq s') js" using p(3) js(1) s' by simp
    moreover have "a \<in> set js \<or> (\<exists>i. held (wthreads s') i a) \<or> a \<in> set (ran s')"
      if "0 < a" "a < brk (qmem (waiting_jobs (wq s')))" for a
    proof -
      from that p(2) s' js(2) consider "a \<in> set js" | i where "held (wthreads s) i a" | "a \<in> set (ran s)" by auto
      then show ?thesis
      proof cases
        case 2
        with h [OF this] s' show ?thesis by auto
      qed (simp_all add: s')
    qed
    ultimately show "\<exists>js. jobs_are (wq s') js \<and> (\<forall>a. 0 < a \<and> a < brk (qmem (waiting_jobs (wq s'))) \<longrightarrow>
        a \<in> set js \<or> (\<exists>j. held (wthreads s') j a) \<or> a \<in> set (ran s'))" by blast
  qed
next
  case (worker_wakes j)
  then show ?thesis
    by (intro placedI [OF assms(3)]) (auto simp: held_def nth_list_update)
next
  case (worker_leaves j)
  with worker_leave_inv [of "wq s" "wthreads s" j] assms(2) obtain q' where
    "s' = s\<lparr>wq := q', wthreads := set_pc (wthreads s) j W_done\<rparr>" "waiting_jobs q' = waiting_jobs (wq s)"
    by (auto simp: winv_def outcome_iffs)
  with worker_leaves show ?thesis by (intro placedI [OF assms(3)]) (auto simp: held_def nth_list_update)
next
  case (stop_marks a)
  with shutdown_mark_inv [of "wq s" "wthreads s" a] assms(2) show ?thesis
    by (intro placedI [OF assms(3)]) (auto simp: winv_def outcome_iffs)
next
  case stop_drops
  then show ?thesis by (simp add: placed_def)
qed (auto simp: outcome_iffs intro: placedI [OF assms(3)])

interpretation jobs_placed: started_steps wnext "\<lambda>s. winv s \<and> placed s" "wstarted n" for n
proof unfold_locales
  fix s assume "wstarted n s"
  then obtain mk pt rc q ts where i: "workqueue_init n mk pt mem_empty mem_empty = Inr (rc, q, ts)" "s = wstart q ts"
    by (auto simp: wstarted_def)
  then have "waiting_jobs q = \<lparr>qhead = 0, qmem = mem_empty\<rparr>" by (auto simp: workqueue_init_def Let_def outcome_iffs)
  then have "placed s" using wstart_winv(2) [OF i(1)] i(2)
    by (auto simp: placed_def wstart_def mem_empty_def)
  then show "winv s \<and> placed s" using wstart_winv(1) [OF i(1)] i(2) by simp
qed (auto simp: wnext_def intro: wstep_winv wstep_placed)

lemma wreach_placed: "wreach n s \<Longrightarrow> placed s"
  using jobs_placed.reach_inv by (auto simp: wreach_def)

subsection \<open>No waiting job is left to sleeping workers\<close>

definition idle_inv :: "wstate \<Rightarrow> bool" where
  "idle_inv s \<longleftrightarrow> stopper s = Stop_idle \<longrightarrow>
     (\<forall>j < length (wthreads s). snd (wthreads s ! j) \<notin> {W_exit, W_done} \<and>
       (\<exists>c. cells (qmem (wq_workers (wq s))) (fst (wthreads s ! j)) = Some c \<and> terminate (c_val c) = 0)) \<and>
     (wthreads s = [] \<or> jobs_are (wq s) [] \<or> (\<exists>j < length (wthreads s). snd (wthreads s ! j) \<noteq> W_wait))"

lemma idle_inv_awake:
  assumes "idle_inv s" "stopper s = Stop_idle" "j < length (wthreads s)" "pc \<notin> {W_exit, W_done, W_wait}"
    and "wthreads s' = set_pc (wthreads s) j pc" "wq_workers (wq s') = wq_workers (wq s)"
  shows "idle_inv s'"
  unfolding idle_inv_def
proof (intro impI conjI allI)
  show "snd (wthreads s' ! i) \<notin> {W_exit, W_done}" if "i < length (wthreads s')" for i
    using assms that by (cases "i = j") (auto simp: idle_inv_def)
  show "\<exists>c. cells (qmem (wq_workers (wq s'))) (fst (wthreads s' ! i)) = Some c \<and> terminate (c_val c) = 0"
    if "i < length (wthreads s')" for i
    using assms that by (cases "i = j") (auto simp: idle_inv_def)
  show "wthreads s' = [] \<or> jobs_are (wq s') [] \<or> (\<exists>j < length (wthreads s'). snd (wthreads s' ! j) \<noteq> W_wait)"
    using assms by (intro disjI2 exI [of _ j]) auto
qed

lemma wstep_idle: "wstep s (Inr s') \<Longrightarrow> stopper s' = Stop_idle \<Longrightarrow> stopper s = Stop_idle"
  by (erule wstep.cases) (auto simp: outcome_iffs stop_at_def split: prod.splits if_splits)

lemma wstep_idle_inv:
  assumes "wstep s (Inr s')" "winv s" "idle_inv s"
  shows "idle_inv s'"
proof (cases "stopper s' = Stop_idle")
  case False
  then show ?thesis by (simp add: idle_inv_def)
next
  case True
  with assms(1) have idle: "stopper s = Stop_idle" by (rule wstep_idle)
  have ji: "jobs_inv (wq s) (wthreads s) (ran s)" "workers_inv (wq s) (wthreads s)"
    using assms(2) by (auto simp: winv_def)
  note awake = idle_inv_awake [OF assms(3) idle]
  show ?thesis using assms(1)
  proof (cases rule: wstep.cases)
    case (client_adds v ts)
    obtain a q where aq: "new_job v (wq s) = (a, q)" by force
    from new_job_inv [OF ji(1) aq client_adds(2)] obtain q2 where
      q2: "workqueue_add_job a q = Inr q2" "wq_workers q2 = wq_workers (wq s)" by blast
    with client_adds(1) aq have s': "s' = s\<lparr>wq := q2, wthreads := ts\<rparr>" by (simp add: outcome_iffs)
    show ?thesis using client_adds(3)
    proof (cases rule: signalled.cases)
      case signal_none
      with s' q2(2) assms(3) idle show ?thesis by (auto simp: idle_inv_def)
    next
      case (signal_one j)
      then show ?thesis using s' q2(2) by (intro awake [of j W_top]) simp_all
    qed
  next
    case (worker_looks j)
    from section_inv [OF ji worker_looks(2,3)] obtain pc q' where
      sec: "worker_section (fst (wthreads s ! j)) (wq s) = Inr (pc, q')" "wq_workers q' = wq_workers (wq s)" "pc \<noteq> W_done"
      "\<forall>a js. jobs_are (wq s) (a # js) \<longrightarrow> (pc = W_exit \<and> q' = wq s \<or> pc = W_run a \<and> jobs_are q' js)"
      "jobs_are (wq s) [] \<longrightarrow> pc \<in> {W_exit, W_wait} \<and> q' = wq s"
      "pc = W_exit \<longrightarrow> (\<exists>c. cells (qmem (wq_workers (wq s))) (fst (wthreads s ! j)) = Some c \<and> terminate (c_val c) \<noteq> 0)"
      by blast
    with worker_looks(1) have s': "s' = s\<lparr>wq := q', wthreads := set_pc (wthreads s) j pc\<rparr>" by simp
    have nx: "pc \<noteq> W_exit" using sec(6) assms(3) idle worker_looks(2) by (auto simp: idle_inv_def)
    from ji(1) obtain js where js: "jobs_are (wq s) js" by (auto simp: jobs_inv_def)
    show ?thesis
    proof (cases js)
      case (Cons a ks)
      with sec(4) js nx have "pc = W_run a" by blast
      then show ?thesis using s' sec(2) worker_looks(2) by (intro awake [of j pc]) simp_all
    next
      case Nil
      with sec(5) js nx have pc: "pc = W_wait" "q' = wq s" by auto
      have "snd (wthreads s' ! i) \<notin> {W_exit, W_done} \<and>
          (\<exists>c. cells (qmem (wq_workers (wq s'))) (fst (wthreads s' ! i)) = Some c \<and> terminate (c_val c) = 0)"
        if "i < length (wthreads s')" for i
        using assms(3) idle s' pc that by (cases "i = j") (auto simp: idle_inv_def)
      then show ?thesis using js Nil s' pc by (simp add: idle_inv_def)
    qed
  next
    case (worker_wakes j)
    then show ?thesis by (intro awake [of j W_top]) simp_all
  next
    case (worker_runs j job frees)
    then show ?thesis by (intro awake [of j W_top]) (auto simp: outcome_iffs)
  next
    case (worker_leaves j)
    with assms(3) idle show ?thesis by (simp add: idle_inv_def)
  qed (use idle True in \<open>auto simp: outcome_iffs stop_at_def split: if_splits\<close>)
qed

lemma wstarted_idle_inv: "wstarted n s \<Longrightarrow> idle_inv s"
  using wstart_winv(2,3) by (fastforce simp: wstarted_def idle_inv_def wstart_def)

interpretation nobody_sleeps: started_steps wnext "\<lambda>s. winv s \<and> idle_inv s" "wstarted n" for n
  by unfold_locales (auto simp: wnext_def intro: wstep_winv wstep_idle_inv jobs_once.start_inv wstarted_idle_inv)

lemma wreach_idle_inv: "wreach n s \<Longrightarrow> idle_inv s"
  using nobody_sleeps.reach_inv by (auto simp: wreach_def)

text \<open>A worker that is at the top of its loop can execute all jobs that wait.\<close>

lemma wnext_trans: "wnext s s1 \<Longrightarrow> wnext\<^sup>*\<^sup>* s1 s' \<Longrightarrow> wnext\<^sup>*\<^sup>* s s'"
  by (rule converse_rtranclp_into_rtranclp)

lemma run_all_jobs:
  assumes "jobs_are (wq s) js" "winv s" "idle_inv s" "stopper s = Stop_idle"
    and "j < length (wthreads s)" "snd (wthreads s ! j) = W_top"
  shows "\<exists>s'. wnext\<^sup>*\<^sup>* s s' \<and> ran s' = rev js @ ran s"
  using assms
proof (induction js arbitrary: s)
  case Nil
  then show ?case by (intro exI [of _ s]) simp
next
  case (Cons a js)
  note ji = Cons.prems(2) [unfolded winv_def]
  from section_inv [OF conjunct1 [OF ji] conjunct2 [OF ji] Cons.prems(5,6)] obtain pc q' where
    sec: "worker_section (fst (wthreads s ! j)) (wq s) = Inr (pc, q')"
    "jobs_inv q' (set_pc (wthreads s) j pc) (ran s)" "pc \<noteq> W_done"
    "pc = W_exit \<or> pc = W_run a \<and> jobs_are q' js"
    "pc = W_exit \<longrightarrow> (\<exists>c. cells (qmem (wq_workers (wq s))) (fst (wthreads s ! j)) = Some c \<and> terminate (c_val c) \<noteq> 0)"
    using Cons.prems(1) by blast
  with Cons.prems(3-5) have pc: "pc = W_run a" "jobs_are q' js" by (auto simp: idle_inv_def)
  let ?s1 = "s\<lparr>wq := q', wthreads := set_pc (wthreads s) j pc\<rparr>"
  have s1: "wnext s ?s1" using worker_looks [OF Cons.prems(5,6)] sec(1) by (simp add: wnext_def)
  have h: "held (wthreads ?s1) j a" using Cons.prems(5) pc(1) by (simp add: held_def)
  from run_job_inv [OF _ this, of q' "ran s" False] sec(2) obtain p where
    p: "run_job False a (waiting_jobs q') = Inr p" "\<forall>ks. jobs_are q' ks \<longrightarrow> jobs_are (q'\<lparr>waiting_jobs := p\<rparr>) ks" by auto
  let ?s2 = "?s1\<lparr>wq := q'\<lparr>waiting_jobs := p\<rparr>, wthreads := set_pc (wthreads ?s1) j W_top, ran := a # ran s\<rparr>"
  have s2: "wnext ?s1 ?s2" using worker_runs [of j ?s1 a False] h p(1) pc(1) by (simp add: wnext_def held_def)
  have inv: "winv ?s2 \<and> idle_inv ?s2"
    using s1 s2 Cons.prems(2,3) wstep_winv wstep_idle_inv unfolding wnext_def by metis
  have "jobs_are (wq ?s2) js" using p(2) pc(2) by simp
  from Cons.IH [OF this] inv Cons.prems(4,5) obtain s' where "wnext\<^sup>*\<^sup>* ?s2 s'" "ran s' = rev js @ a # ran s" by auto
  with s1 s2 show ?case by (metis (no_types, lifting) append.assoc append_Cons append_Nil rev.simps(2) wnext_trans)
qed

lemma run_all_jobs_awake:
  assumes "jobs_are (wq s) js" "winv s" "idle_inv s" "stopper s = Stop_idle"
    and "j < length (wthreads s)" "snd (wthreads s ! j) \<noteq> W_wait"
  shows "\<exists>s'. wnext\<^sup>*\<^sup>* s s' \<and> set js \<subseteq> set (ran s')"
proof (cases "snd (wthreads s ! j)")
  case W_top
  from run_all_jobs [OF assms(1-5) this] show ?thesis by (metis Un_upper1 set_append set_rev)
next
  case (W_run a)
  have "jobs_inv (wq s) (wthreads s) (ran s)" "held (wthreads s) j a"
    using assms(2,5) W_run by (auto simp: winv_def held_def)
  from run_job_inv [OF this, of False] obtain p where p: "run_job False a (waiting_jobs (wq s)) = Inr p"
    "\<forall>ks. jobs_are (wq s) ks \<longrightarrow> jobs_are ((wq s)\<lparr>waiting_jobs := p\<rparr>) ks" by blast
  let ?s1 = "s\<lparr>wq := (wq s)\<lparr>waiting_jobs := p\<rparr>, wthreads := set_pc (wthreads s) j W_top, ran := a # ran s\<rparr>"
  have s1: "wnext s ?s1" using worker_runs [OF assms(5) W_run, of False] p(1) by (simp add: wnext_def)
  with assms(2,3) have "winv ?s1" "idle_inv ?s1" unfolding wnext_def by (blast intro: wstep_winv wstep_idle_inv)+
  from run_all_jobs [OF _ this, of js j] p(2) assms(1,4,5) obtain s' where
    "wnext\<^sup>*\<^sup>* ?s1 s'" "ran s' = rev js @ a # ran s" by auto
  with s1 show ?thesis by (intro exI [of _ s']) (auto intro: wnext_trans)
qed (use assms in \<open>auto simp: idle_inv_def\<close>)

subsection \<open>Jobs that are dropped\<close>

text \<open>A job that neither waits nor is held nor was executed is never executed.\<close>

definition lost_job :: "addr \<Rightarrow> wstate \<Rightarrow> bool" where
  "lost_job a s \<longleftrightarrow> a < brk (qmem (waiting_jobs (wq s))) \<and> a \<notin> set (ran s) \<and>
     (\<forall>j. \<not> held (wthreads s) j a) \<and> (\<forall>js. jobs_are (wq s) js \<longrightarrow> a \<notin> set js)"

lemma jobs_are_unique: "jobs_are q js \<Longrightarrow> jobs_are q ks \<Longrightarrow> js = ks"
  using stack_rep_unique by (auto simp: jobs_are_def)

lemma lost_jobI:
  assumes "jobs_are (wq s) js" "a \<notin> set js" "a \<notin> set (ran s)" "\<And>j. \<not> held (wthreads s) j a"
    and "a < brk (qmem (waiting_jobs (wq s)))"
  shows "lost_job a s"
  unfolding lost_job_def using assms jobs_are_unique by blast

lemma wstep_lost_job:
  assumes "wstep s (Inr s')" "winv s" "lost_job a s"
  shows "lost_job a s'"
proof -
  have ji: "jobs_inv (wq s) (wthreads s) (ran s)" "workers_inv (wq s) (wthreads s)"
    using assms(2) by (auto simp: winv_def)
  then obtain js where js: "jobs_are (wq s) js" "a \<notin> set js" using assms(3) by (auto simp: jobs_inv_def lost_job_def)
  show ?thesis using assms(1)
  proof (cases rule: wstep.cases)
    case (client_adds v ts)
    obtain b q where aq: "new_job v (wq s) = (b, q)" by force
    from new_job_inv [OF ji(1) aq client_adds(2)] obtain q2 where
      q2: "workqueue_add_job b q = Inr q2" "brk (qmem (waiting_jobs q2)) = Suc (brk (qmem (waiting_jobs (wq s))))"
      "jobs_are q2 (brk (qmem (waiting_jobs (wq s))) # js)" using js(1) by blast
    with client_adds(1) aq have "s' = s\<lparr>wq := q2, wthreads := ts\<rparr>" by (simp add: outcome_iffs)
    with q2 held_signalled [OF client_adds(3)] js assms(3) show ?thesis
      by (intro lost_jobI [of s' "brk (qmem (waiting_jobs (wq s))) # js"]) (auto simp: lost_job_def)
  next
    case (worker_looks j)
    from section_inv [OF ji worker_looks(2,3)] obtain pc q' where
      sec: "worker_section (fst (wthreads s ! j)) (wq s) = Inr (pc, q')" "brk (qmem (waiting_jobs q')) = brk (qmem (waiting_jobs (wq s)))"
      "\<forall>a js. jobs_are (wq s) (a # js) \<longrightarrow> (pc = W_exit \<and> q' = wq s \<or> pc = W_run a \<and> jobs_are q' js)"
      "jobs_are (wq s) [] \<longrightarrow> pc \<in> {W_exit, W_wait} \<and> q' = wq s" by blast
    with worker_looks(1) have s': "s' = s\<lparr>wq := q', wthreads := set_pc (wthreads s) j pc\<rparr>" by simp
    have "\<exists>ks. jobs_are q' ks \<and> a \<notin> set ks \<and> pc \<noteq> W_run a"
    proof (cases js)
      case (Cons b ks)
      with sec(3) js(1) have "pc = W_exit \<and> q' = wq s \<or> pc = W_run b \<and> jobs_are q' ks" by blast
      with js Cons show ?thesis by auto
    qed (use sec(4) js in auto)
    then obtain ks where "jobs_are q' ks" "a \<notin> set ks" "pc \<noteq> W_run a" by blast
    with s' sec(2) assms(3) show ?thesis
      by (intro lost_jobI [of s' ks]) (auto simp: lost_job_def held_set_pc)
  next
    case (worker_runs j job frees)
    then have h: "held (wthreads s) j job" by (simp add: held_def)
    from run_job_inv [OF ji(1) h, of frees] obtain p where p: "run_job frees job (waiting_jobs (wq s)) = Inr p"
      "brk (qmem p) = brk (qmem (waiting_jobs (wq s)))" "jobs_are ((wq s)\<lparr>waiting_jobs := p\<rparr>) js" using js(1) by blast
    moreover have "a \<noteq> job" using h assms(3) by (auto simp: lost_job_def)
    ultimately show ?thesis using worker_runs(1) assms(3) js
      by (intro lost_jobI [of s' js]) (auto simp: lost_job_def held_set_pc)
  next
    case (worker_leaves j)
    from worker_leave_inv [OF ji(2) worker_leaves(2,3)] obtain q' where
      "worker_leave (fst (wthreads s ! j)) (wq s) = Inr q'" "waiting_jobs q' = waiting_jobs (wq s)" by blast
    with worker_leaves(1) assms(3) show ?thesis by (simp add: lost_job_def held_set_pc jobs_are_def)
  next
    case (stop_marks b)
    then obtain q' where "s' = s\<lparr>wq := q', stopper := Stop_next b\<rparr>" "shutdown_mark b (wq s) = Inr q'"
      by (auto simp: outcome_iffs)
    with shutdown_mark_inv [OF ji(2)] assms(3) show ?thesis by (simp add: lost_job_def jobs_are_def)
  next
    case stop_drops
    have "jobs_are (shutdown_drop (wq s)) []"
      using jobs_inv_mem [OF ji(1)] by (simp add: jobs_are_def shutdown_drop_def)
    with stop_drops assms(3) show ?thesis
      by (intro lost_jobI [of s' "[]"]) (auto simp: lost_job_def held_broadcast shutdown_drop_def)
  qed (use assms(3) in \<open>auto simp: lost_job_def held_set_pc outcome_iffs\<close>)
qed

lemma dropped_jobs_lost:
  assumes "winv s" "jobs_are (wq s) js" "a \<in> set js"
  shows "lost_job a (s\<lparr>wq := shutdown_drop (wq s), wthreads := broadcast (wthreads s), stopper := Stop_done\<rparr>)"
proof -
  have ji: "jobs_inv (wq s) (wthreads s) (ran s)" using assms(1) by (simp add: winv_def)
  then obtain ks where ks: "jobs_are (wq s) ks" "set ks \<inter> set (ran s) = {}"
    "\<forall>j a. held (wthreads s) j a \<longrightarrow> a \<notin> set ks" "\<forall>a \<in> set ks. live_job (wq s) a" by (auto simp: jobs_inv_def)
  with assms(2,3) have a: "a \<in> set ks" using jobs_are_unique by blast
  then have "a < brk (qmem (waiting_jobs (wq s)))"
    using ks(4) jobs_inv_mem [OF ji] by (auto simp: live_job_def dest: mem_okD)
  moreover have "jobs_are (shutdown_drop (wq s)) []"
    using jobs_inv_mem [OF ji] by (simp add: jobs_are_def shutdown_drop_def)
  ultimately show ?thesis using a ks(2,3)
    by (intro lost_jobI [of _ "[]"]) (auto simp: held_broadcast shutdown_drop_def)
qed

subsection \<open>Faults\<close>

text \<open>The functions of workers and clients end, whatever the loop of \<open>workqueue_shutdown\<close> has done.\<close>

lemma workers_do_not_fault:
  assumes "winv s"
  shows "j < length (wthreads s) \<Longrightarrow> snd (wthreads s ! j) = W_top \<Longrightarrow> \<exists>r. worker_section (fst (wthreads s ! j)) (wq s) = Inr r"
    and "j < length (wthreads s) \<Longrightarrow> snd (wthreads s ! j) = W_run job \<Longrightarrow> \<exists>r. run_job frees job (waiting_jobs (wq s)) = Inr r"
    and "j < length (wthreads s) \<Longrightarrow> snd (wthreads s ! j) = W_exit \<Longrightarrow> \<exists>r. worker_leave (fst (wthreads s ! j)) (wq s) = Inr r"
    and "job_function v \<noteq> 0 \<Longrightarrow> \<exists>r. workqueue_add_job (fst (new_job v (wq s))) (snd (new_job v (wq s))) = Inr r"
proof -
  have i: "jobs_inv (wq s) (wthreads s) (ran s)" "workers_inv (wq s) (wthreads s)" using assms by (simp_all add: winv_def)
  show "\<exists>r. worker_section (fst (wthreads s ! j)) (wq s) = Inr r" if "j < length (wthreads s)" "snd (wthreads s ! j) = W_top"
    using section_inv [OF i that] by blast
  show "\<exists>r. run_job frees job (waiting_jobs (wq s)) = Inr r" if "j < length (wthreads s)" "snd (wthreads s ! j) = W_run job"
    using run_job_inv [OF i(1), of j job frees] that by (auto simp: held_def)
  show "\<exists>r. worker_leave (fst (wthreads s ! j)) (wq s) = Inr r" if "j < length (wthreads s)" "snd (wthreads s ! j) = W_exit"
    using worker_leave_inv [OF i(2) that] by blast
  show "\<exists>r. workqueue_add_job (fst (new_job v (wq s))) (snd (new_job v (wq s))) = Inr r" if "job_function v \<noteq> 0"
    using new_job_inv [OF i(1) _ that, of "fst (new_job v (wq s))" "snd (new_job v (wq s))"] by auto
qed

lemma wstep_fault:
  assumes "wstep s r" "r = Inl e" "winv s"
  shows "\<exists>a. stopper s = Stop_mark a \<and> shutdown_mark a (wq s) = Inl e \<or> stopper s = Stop_next a \<and> shutdown_next a (wq s) = Inl e"
  using assms(1)
proof (cases rule: wstep.cases)
  case (client_adds v ts)
  then show ?thesis using workers_do_not_fault(4) [OF assms(3) client_adds(2)] assms(2) by (auto simp: split_def)
next
  case (worker_looks j)
  then show ?thesis using workers_do_not_fault(1) [OF assms(3) worker_looks(2,3)] assms(2) by auto
next
  case (worker_runs j job frees)
  then show ?thesis using workers_do_not_fault(2) [OF assms(3) worker_runs(2,3), of frees] assms(2) by auto
next
  case (worker_leaves j)
  then show ?thesis using workers_do_not_fault(3) [OF assms(3) worker_leaves(2,3)] assms(2) by auto
next
  case (stop_marks a)
  then show ?thesis using assms(2) by (simp add: Inl_bindE_iff)
next
  case (stop_reads a)
  then show ?thesis using assms(2) by (simp add: Inl_bindE_iff)
qed (use assms(2) in auto)

text \<open>The worker that \<open>workqueue_shutdown\<close> has just marked leaves before its \<open>next\<close> is read.\<close>

lemma shutdown_race:
  assumes "workqueue_init n mk pt mem_empty mem_empty = Inr (rc, q, ts)" "ts \<noteq> []"
  shows "\<exists>s. wnext\<^sup>*\<^sup>* (wstart q ts) s \<and> wstep s (Inl (UB Invalid_Access))"
proof -
  let ?m = "qmem (wq_workers q)" and ?a = "last ts" and ?j = "length ts - 1"
  from wstart_winv(3) [OF assms(1)] assms(2) obtain c where c: "cells ?m ?a = Some c" by (meson last_in_set)
  have "mem_ok ?m" using wstart_winv(1) [OF assms(1)] by (simp add: winv_def workers_inv_def wstart_def)
  with c have a: "?a \<noteq> 0" by (blast dest: mem_okD)
  have j: "?j < length ts" "ts ! ?j = ?a" using assms(2) by (auto simp: last_conv_nth)
  let ?ts = "map (\<lambda>w. (w, W_top)) ts"
  let ?q1 = "q\<lparr>wq_workers := (wq_workers q)\<lparr>qmem := ?m\<lparr>cells := (cells ?m)(?a \<mapsto> c\<lparr>c_val := stopped (c_val c)\<rparr>)\<rparr>\<rparr>\<rparr>"
  let ?q2 = "q\<lparr>wq_workers := (wq_workers q)\<lparr>qmem := ?m\<lparr>cells := (cells ?m)(?a := None)\<rparr>\<rparr>\<rparr>"
  let ?s = "\<lambda>q ts st. \<lparr>wq = q, wthreads = ts, stopper = st, ran = []\<rparr>"
  have "wnext (wstart q ts) (?s q ?ts (Stop_mark ?a))"
    using stop_begins [of "wstart q ts"] wstart_winv(5) [OF assms(1)] assms(2) a
    by (simp add: wnext_def wstart_def stop_at_def)
  moreover have "wnext (?s q ?ts (Stop_mark ?a)) (?s ?q1 ?ts (Stop_next ?a))"
    using stop_marks [of "?s q ?ts (Stop_mark ?a)"] shutdown_mark_cell [OF a c] by (simp add: wnext_def)
  moreover have "worker_section ?a ?q1 = Inr (W_exit, ?q1)"
    using a by (simp add: worker_section_def stopped_def)
  then have "wnext (?s ?q1 ?ts (Stop_next ?a)) (?s ?q1 (?ts[?j := (?a, W_exit)]) (Stop_next ?a))"
    using worker_looks [of ?j "?s ?q1 ?ts (Stop_next ?a)"] j by (simp add: wnext_def)
  moreover have "worker_leave ?a ?q1 = Inr ?q2" using a by (simp add: worker_leave_def free_cell_def)
  then have "wnext (?s ?q1 (?ts[?j := (?a, W_exit)]) (Stop_next ?a)) (?s ?q2 (?ts[?j := (?a, W_done)]) (Stop_next ?a))"
    using worker_leaves [of ?j "?s ?q1 (?ts[?j := (?a, W_exit)]) (Stop_next ?a)"] j by (simp add: wnext_def)
  ultimately have "wnext\<^sup>*\<^sup>* (wstart q ts) (?s ?q2 (?ts[?j := (?a, W_done)]) (Stop_next ?a))"
    by (meson rtranclp.rtrancl_into_rtrancl rtranclp.rtrancl_refl)
  moreover have "wstep (?s ?q2 (?ts[?j := (?a, W_done)]) (Stop_next ?a)) (Inl (UB Invalid_Access))"
    using stop_reads [of "?s ?q2 (?ts[?j := (?a, W_done)]) (Stop_next ?a)" ?a] a by (simp add: shutdown_next_def)
  ultimately show ?thesis by blast
qed

subsection \<open>Properties\<close>

text \<open>One worker, and one job that is added before the queue is shut down.\<close>

lemma work_demo:
  "\<exists>q q2 q3. workqueue_init 1 (\<lambda>_. True) (\<lambda>_. 0) mem_empty mem_empty = Inr (0, q, [1]) \<and> qhead (wq_workers q2) = 1 \<and>
     new_job \<lparr>job_function = 7, user_data = 0\<rparr> q = (1, snd (new_job \<lparr>job_function = 7, user_data = 0\<rparr> q)) \<and>
     workqueue_add_job 1 (snd (new_job \<lparr>job_function = 7, user_data = 0\<rparr> q)) = Inr q2 \<and>
     shutdown_mark 1 q2 = Inr q3 \<and> shutdown_next 1 q3 = Inr 0 \<and> qhead (waiting_jobs q2) = 1 \<and> qhead (waiting_jobs q3) = 1"
proof -
  have "case workqueue_init 1 (\<lambda>_. True) (\<lambda>_. 0) mem_empty mem_empty of Inl e \<Rightarrow> False | Inr (rc, q, ts) \<Rightarrow>
      rc = 0 \<and> ts = [1] \<and> fst (new_job \<lparr>job_function = 7, user_data = 0\<rparr> q) = 1 \<and>
      (case workqueue_add_job 1 (snd (new_job \<lparr>job_function = 7, user_data = 0\<rparr> q)) of Inl e \<Rightarrow> False | Inr q2 \<Rightarrow>
        qhead (wq_workers q2) = 1 \<and> qhead (waiting_jobs q2) = 1 \<and>
        (case shutdown_mark 1 q2 of Inl e \<Rightarrow> False | Inr q3 \<Rightarrow>
          (case shutdown_next 1 q3 of Inl e \<Rightarrow> False | Inr b \<Rightarrow> b = 0) \<and> qhead (waiting_jobs q3) = 1))"
    by code_simp
  then show ?thesis by (auto simp: res_case_iff prod_eq_iff)
qed

lemma work_demo_run:
  "\<exists>q2 q3. wreach 1 \<lparr>wq = q2, wthreads = [(1, W_top)], stopper = Stop_idle, ran = []\<rparr> \<and> jobs_are q2 [1] \<and>
     wreach 1 \<lparr>wq = q3, wthreads = [(1, W_top)], stopper = Stop_drop, ran = []\<rparr> \<and> jobs_are q3 [1]"
proof -
  let ?v = "\<lparr>job_function = 7, user_data = 0\<rparr>" and ?s = "\<lambda>q st. \<lparr>wq = q, wthreads = [(1, W_top)], stopper = st, ran = []\<rparr>"
  from work_demo obtain q q2 q3 where d: "workqueue_init 1 (\<lambda>_. True) (\<lambda>_. 0) mem_empty mem_empty = Inr (0, q, [1])"
    "qhead (wq_workers q2) = 1" "new_job ?v q = (1, snd (new_job ?v q))" "workqueue_add_job 1 (snd (new_job ?v q)) = Inr q2"
    "shutdown_mark 1 q2 = Inr q3" "shutdown_next 1 q3 = Inr 0" by blast
  have "signalled [(1 :: addr, W_top)] [(1, W_top)]" by (rule signal_none) simp
  then have "wstep (?s q Stop_idle) (case new_job ?v q of (job, q) \<Rightarrow> bindE (workqueue_add_job job q) (\<lambda>q. Inr (?s q Stop_idle)))"
    using client_adds [of ?v "?s q Stop_idle" "[(1, W_top)]"] by simp
  then have "wnext (?s q Stop_idle) (?s q2 Stop_idle)" using d(4) by (subst (asm) d(3)) (simp add: wnext_def)
  moreover have "?s q Stop_idle = wstart q [1]" by (simp add: wstart_def)
  ultimately have 1: "wnext\<^sup>*\<^sup>* (wstart q [1]) (?s q2 Stop_idle)" by auto
  have "wnext (?s q2 Stop_idle) (?s q2 (Stop_mark 1))"
    using stop_begins [of "?s q2 Stop_idle"] d(2) by (simp add: wnext_def stop_at_def)
  moreover have "wnext (?s q2 (Stop_mark 1)) (?s q3 (Stop_next 1))"
    using stop_marks [of "?s q2 (Stop_mark 1)" 1] d(5) by (simp add: wnext_def)
  moreover have "wnext (?s q3 (Stop_next 1)) (?s q3 Stop_drop)"
    using stop_reads [of "?s q3 (Stop_next 1)" 1] d(6) by (simp add: wnext_def stop_at_def)
  ultimately have 2: "wnext\<^sup>*\<^sup>* (wstart q [1]) (?s q3 Stop_drop)" using 1
    by (meson rtranclp.rtrancl_into_rtrancl)
  have i: "winv (wstart q [1])" "jobs_are q []" by (rule wstart_winv [OF d(1)])+
  then have ji: "jobs_inv q [(1, W_top)] []" "workers_inv q [(1, W_top)]" by (simp_all add: winv_def wstart_def)
  from new_job_inv [OF ji(1) d(3)] d(4) i(2) have "jobs_are q2 [brk (qmem (waiting_jobs q))]" by auto
  moreover have "brk (qmem (waiting_jobs q)) = 1"
    using d(3) by (auto simp: new_job_def calloc_cell_def Let_def prod_eq_iff)
  ultimately have j2: "jobs_are q2 [1]" by simp
  have "waiting_jobs q3 = waiting_jobs q2"
    using d(5) by (auto simp: shutdown_mark_def outcome_iffs)
  with j2 have "jobs_are q3 [1]" by (simp add: jobs_are_def)
  with wreach_run [OF d(1) 1] wreach_run [OF d(1) 2] j2 show ?thesis by blast
qed

text \<open>C19. However workers, clients and a shutdown interleave, each job is executed at most once: it
  waits, is held by one worker, or was executed, never two of these, and until the shutdown drops
  the waiting jobs every job that was added is one of them. And no worker and no client
  ever touches a node that is freed: whatever one of them does next ends without a fault, and every fault
  is an access of the loop of \<open>workqueue_shutdown\<close> to a worker.\<close>

theorem each_job_runs_at_most_once:
  assumes "wreach n s"
  shows "\<exists>js. jobs_are (wq s) js \<and> distinct js \<and> distinct (ran s) \<and> set js \<inter> set (ran s) = {} \<and>
    (\<forall>j a. held (wthreads s) j a \<longrightarrow> a \<notin> set js \<and> a \<notin> set (ran s) \<and> (\<forall>i. held (wthreads s) i a \<longrightarrow> i = j)) \<and>
    (stopper s \<noteq> Stop_done \<longrightarrow> (\<forall>a. 0 < a \<and> a < brk (qmem (waiting_jobs (wq s))) \<longrightarrow>
       a \<in> set js \<or> (\<exists>j. held (wthreads s) j a) \<or> a \<in> set (ran s))) \<and>
    (\<forall>j < length (wthreads s). case snd (wthreads s ! j) of
         W_top \<Rightarrow> \<exists>r. worker_section (fst (wthreads s ! j)) (wq s) = Inr r
       | W_run job \<Rightarrow> \<forall>frees. \<exists>r. run_job frees job (waiting_jobs (wq s)) = Inr r
       | W_exit \<Rightarrow> \<exists>r. worker_leave (fst (wthreads s ! j)) (wq s) = Inr r
       | _ \<Rightarrow> True) \<and>
    (\<forall>v. job_function v \<noteq> 0 \<longrightarrow> (\<exists>r. workqueue_add_job (fst (new_job v (wq s))) (snd (new_job v (wq s))) = Inr r)) \<and>
    (\<forall>e. wstep s (Inl e) \<longrightarrow> (\<exists>a. stopper s = Stop_mark a \<and> shutdown_mark a (wq s) = Inl e \<or>
       stopper s = Stop_next a \<and> shutdown_next a (wq s) = Inl e))"
proof -
  from wreach_winv [OF assms] have w: "winv s" .
  then obtain js where js: "jobs_are (wq s) js" "distinct (ran s)" "set js \<inter> set (ran s) = {}"
    "\<forall>j a. held (wthreads s) j a \<longrightarrow> a \<notin> set js \<and> a \<notin> set (ran s) \<and> live_job (wq s) a \<and> (\<forall>i. held (wthreads s) i a \<longrightarrow> i = j)"
    by (auto simp: winv_def jobs_inv_def)
  have "distinct js" using jobs_are_mem [OF js(1)] by blast
  moreover have "stopper s \<noteq> Stop_done \<longrightarrow> (\<forall>a. 0 < a \<and> a < brk (qmem (waiting_jobs (wq s))) \<longrightarrow>
       a \<in> set js \<or> (\<exists>j. held (wthreads s) j a) \<or> a \<in> set (ran s))"
    using wreach_placed [OF assms] jobs_are_unique [OF js(1)] unfolding placed_def by metis
  moreover have "case snd (wthreads s ! j) of
         W_top \<Rightarrow> \<exists>r. worker_section (fst (wthreads s ! j)) (wq s) = Inr r
       | W_run job \<Rightarrow> \<forall>frees. \<exists>r. run_job frees job (waiting_jobs (wq s)) = Inr r
       | W_exit \<Rightarrow> \<exists>r. worker_leave (fst (wthreads s ! j)) (wq s) = Inr r
       | _ \<Rightarrow> True" if "j < length (wthreads s)" for j
    using workers_do_not_fault(1-3) [OF w that] by (auto split: worker_pc.splits)
  ultimately show ?thesis using js workers_do_not_fault(4) [OF w] wstep_fault w by (intro exI [of _ js]) blast
qed

theorem each_job_runs_at_most_once_witness:
  "\<exists>s js. jobs_are (wq s) js \<and> js \<noteq> [] \<and> stopper s = Stop_idle \<and> set js \<inter> set (ran s) = {} \<and> (\<forall>e. \<not> wstep s (Inl e))"
proof -
  from work_demo_run obtain q where q: "wreach 1 \<lparr>wq = q, wthreads = [(1, W_top)], stopper = Stop_idle, ran = []\<rparr>"
    "jobs_are q [1]" by blast
  from each_job_runs_at_most_once [OF q(1)] q(2) show ?thesis
    by (intro exI [of _ "\<lparr>wq = q, wthreads = [(1, W_top)], stopper = Stop_idle, ran = []\<rparr>"] exI [of _ "[1]"]) auto
qed

text \<open>C20. Before a shutdown no waiting job is left to sleeping workers: while jobs wait, some worker is
  not waiting, so no wake-up is lost, and all waiting jobs can still be executed.\<close>

theorem no_job_is_left_to_sleepers:
  assumes "wreach n s" "stopper s = Stop_idle" "wthreads s \<noteq> []" "jobs_are (wq s) js" "js \<noteq> []"
  shows "(\<exists>j < length (wthreads s). snd (wthreads s ! j) \<noteq> W_wait) \<and> (\<exists>s'. wnext\<^sup>*\<^sup>* s s' \<and> set js \<subseteq> set (ran s'))"
proof -
  note i = wreach_winv [OF assms(1)] wreach_idle_inv [OF assms(1)]
  have "\<not> jobs_are (wq s) []" using jobs_are_unique [OF assms(4)] assms(5) by blast
  with i(2) assms(2,3) obtain j where "j < length (wthreads s)" "snd (wthreads s ! j) \<noteq> W_wait" by (auto simp: idle_inv_def)
  with run_all_jobs_awake [OF assms(4) i assms(2)] show ?thesis by blast
qed

theorem no_job_is_left_to_sleepers_witness:
  "\<exists>s s'. jobs_are (wq s) [1] \<and> stopper s = Stop_idle \<and> wnext\<^sup>*\<^sup>* s s' \<and> set [1] \<subseteq> set (ran s')"
proof -
  from work_demo_run obtain q where q: "wreach 1 \<lparr>wq = q, wthreads = [(1, W_top)], stopper = Stop_idle, ran = []\<rparr>"
    "jobs_are q [1]" by blast
  let ?s = "\<lparr>wq = q, wthreads = [(1, W_top)], stopper = Stop_idle, ran = []\<rparr>"
  from no_job_is_left_to_sleepers [OF q(1), of "[1]"] q(2) obtain s' where "wnext\<^sup>*\<^sup>* ?s s'" "set [1] \<subseteq> set (ran s')" by auto
  with q(2) show ?thesis by (intro exI [of _ ?s] exI [of _ s']) simp
qed

text \<open>C23. \<open>workqueue_shutdown\<close> races with its workers: whenever a worker was started, there is a run in
  which the worker that it has just marked leaves and frees its node before the loop reads the
  \<open>next\<close> of that node.\<close>

theorem shutdown_reads_freed_worker:
  assumes "workqueue_init n malloc_ok pthread_create mem_empty mem_empty = Inr (rc, q, ts)" "ts \<noteq> []"
  shows "\<exists>s. wnext\<^sup>*\<^sup>* (wstart q ts) s \<and> wstep s (Inl (UB Invalid_Access))"
  using assms by (rule shutdown_race)

theorem shutdown_reads_freed_worker_witness:
  "\<exists>q s. wnext\<^sup>*\<^sup>* (wstart q [1]) s \<and> wstep s (Inl (UB Invalid_Access))"
  using work_demo shutdown_reads_freed_worker [of 1 "\<lambda>_. True" "\<lambda>_. 0" 0 _ "[1]"] by blast

interpretation dropped_jobs: safe_steps wnext "\<lambda>s. winv s \<and> lost_job a s" for a
  by unfold_locales (auto simp: wnext_def intro: wstep_winv wstep_lost_job)

text \<open>C28. The jobs that still wait when \<open>workqueue_shutdown\<close> empties the list are never executed, by no
  later step of any thread.\<close>

theorem shutdown_drops_waiting_jobs:
  assumes "wreach n s" "stopper s = Stop_drop" "jobs_are (wq s) js" "a \<in> set js"
    and "wnext\<^sup>*\<^sup>* (s\<lparr>wq := shutdown_drop (wq s), wthreads := broadcast (wthreads s), stopper := Stop_done\<rparr>) s'"
  shows "a \<notin> set (ran s')"
proof -
  let ?s = "s\<lparr>wq := shutdown_drop (wq s), wthreads := broadcast (wthreads s), stopper := Stop_done\<rparr>"
  have w: "winv s" by (rule wreach_winv [OF assms(1)])
  then have "winv ?s" by (rule wstep_winv [OF stop_drops [OF assms(2)]])
  with dropped_jobs_lost [OF w assms(3,4)] have "winv ?s \<and> lost_job a ?s" by blast
  with dropped_jobs.run_keeps [OF assms(5)] have "winv s' \<and> lost_job a s'" by blast
  then show ?thesis by (simp add: lost_job_def)
qed

theorem shutdown_drops_waiting_jobs_witness:
  "\<exists>s. wreach 1 s \<and> stopper s = Stop_drop \<and> jobs_are (wq s) [1] \<and> (\<forall>s'.
     wnext\<^sup>*\<^sup>* (s\<lparr>wq := shutdown_drop (wq s), wthreads := broadcast (wthreads s), stopper := Stop_done\<rparr>) s' \<longrightarrow>
       1 \<notin> set (ran s'))"
proof -
  from work_demo_run obtain q where q: "wreach 1 \<lparr>wq = q, wthreads = [(1, W_top)], stopper = Stop_drop, ran = []\<rparr>"
    "jobs_are q [1]" by blast
  with shutdown_drops_waiting_jobs [OF q(1), of "[1]" 1] show ?thesis by auto
qed

end
