(* ===== verification/WorkLoop.thy ===== *)
theory WorkLoop
  imports WorkSteps
begin

section \<open>A worker from start to end of a run: \<open>worker_function\<close>\<close>

text \<open>
  \<^verbatim>\<open>workev.c\<close> lines 19 to 54, with the worker alone: each turn is one pass of its loop, and tells whether
  the function of the job that it may execute frees the job. The result are the jobs that were
  executed, where the worker is when the turns are used up or it stops before, and the work queue.
\<close>

fun worker_function :: "bool list \<Rightarrow> addr \<Rightarrow> workqueue_t \<Rightarrow> (addr list \<times> worker_pc \<times> workqueue_t) res" where
  "worker_function [] worker q = Inr ([], W_top, q)"
| "worker_function (frees # fs) worker q =
     bindE (worker_section worker q) (\<lambda>(pc, q). case pc of
         W_run job \<Rightarrow> bindE (run_job frees job (waiting_jobs q)) (\<lambda>jq.
           bindE (worker_function fs worker (q\<lparr>waiting_jobs := jq\<rparr>)) (\<lambda>(js, pc, q). Inr (job # js, pc, q)))
       | W_exit \<Rightarrow> bindE (worker_leave worker q) (\<lambda>q. Inr ([], W_done, q))
       | W_wait \<Rightarrow> Inr ([], W_wait, q)
       | _ \<Rightarrow> worker_function fs worker q)"

subsection \<open>What it executes\<close>

lemma worker_alone:
  "jobs_inv q [(w, W_top)] rn \<Longrightarrow> workers_inv q [(w, W_top)] \<Longrightarrow> cells (qmem (wq_workers q)) w = Some c \<Longrightarrow>
   terminate (c_val c) = 0 \<Longrightarrow> jobs_are q js \<Longrightarrow> length js < length fs \<Longrightarrow>
   \<exists>q'. worker_function fs w q = Inr (js, W_wait, q') \<and> jobs_are q' [] \<and> wq_workers q' = wq_workers q"
proof (induction fs arbitrary: q rn js)
  case (Cons f fs)
  from section_inv [OF Cons.prems(1,2), of 0] obtain pc q1 where
    s: "worker_section w q = Inr (pc, q1)" "jobs_inv q1 [(w, pc)] rn" "wq_workers q1 = wq_workers q"
    "\<forall>a js. jobs_are q (a # js) \<longrightarrow> (pc = W_exit \<and> q1 = q \<or> pc = W_run a \<and> jobs_are q1 js)"
    "jobs_are q [] \<longrightarrow> pc \<in> {W_exit, W_wait} \<and> q1 = q" "pc \<noteq> W_exit"
    using Cons.prems(3,4) by auto
  show ?case
  proof (cases js)
    case Nil
    with s Cons.prems(5) show ?thesis by auto
  next
    case (Cons a ks)
    with s Cons.prems(5) have r: "pc = W_run a" "jobs_are q1 ks" by auto
    then have "held [(w, pc)] 0 a" by (simp add: held_def)
    from run_job_inv [OF s(2) this, of f] obtain p where
      p: "run_job f a (waiting_jobs q1) = Inr p" "jobs_inv (q1\<lparr>waiting_jobs := p\<rparr>) [(w, W_top)] (a # rn)"
      "jobs_are (q1\<lparr>waiting_jobs := p\<rparr>) ks" using r(2) by auto
    have "workers_inv (q1\<lparr>waiting_jobs := p\<rparr>) [(w, W_top)]" using Cons.prems(2) s(3) by (simp add: workers_inv_def)
    from Cons.IH [OF p(2) this _ _ p(3)] Cons.prems(3,4,6) s(1,3) r(1) p(1) \<open>js = a # ks\<close> show ?thesis by auto
  qed
qed simp

lemma live_add_job:
  assumes "jobs_are q as" "live_job q a" "a \<notin> set as"
  shows "\<exists>q'. workqueue_add_job a q = Inr q' \<and> jobs_are q' (a # as) \<and> wq_workers q' = wq_workers q \<and>
    (\<forall>b. live_job q b \<longrightarrow> live_job q' b)"
proof -
  from assms(2) obtain c where "cells (qmem (waiting_jobs q)) a = Some c" "job_function (c_val c) \<noteq> 0"
    by (auto simp: live_job_def)
  with add_job_jobs [OF assms(1) this(1) assms(3)] show ?thesis by (fastforce simp: live_job_def)
qed

interpretation live_jobs: node_stack workqueue_add_job take_job jobs_are live_job
proof
  fix q as a
  assume "jobs_are q (a # as)"
  then show "\<exists>q'. take_job q = Inr (a, q') \<and> jobs_are q' as" using take_job_some [of q a as] by blast
qed (use live_add_job in blast, rule take_job_none)

lemma push_list_workers: "push_list workqueue_add_job as q = Inr q' \<Longrightarrow> wq_workers q' = wq_workers q"
  by (induction as arbitrary: q) (auto simp: outcome_iffs workqueue_add_job_def)

subsection \<open>Properties\<close>

text \<open>C21. The jobs are not a queue: a worker executes the jobs that were added one after the other in the
  reverse order, before all older ones, each once, and then waits for more.\<close>

theorem worker_executes_last_in_first_out:
  assumes "jobs_are q old" "\<forall>a \<in> set (as @ old). live_job q a" "distinct as" "set as \<inter> set old = {}"
    and "mem_ok (qmem (wq_workers q))" "cells (qmem (wq_workers q)) w = Some c" "terminate (c_val c) = 0"
    and "length as + length old < length fs"
  shows "\<exists>q1 q2. push_list workqueue_add_job as q = Inr q1 \<and>
    worker_function fs w q1 = Inr (rev as @ old, W_wait, q2) \<and> jobs_are q2 []"
proof -
  from live_jobs.pushes [OF assms(1) _ assms(3,4)] assms(2) obtain q1 where
    p: "push_list workqueue_add_job as q = Inr q1" "jobs_are q1 (rev as @ old)" "\<forall>b. live_job q b \<longrightarrow> live_job q1 b" by auto
  note w = push_list_workers [OF p(1)]
  have "jobs_inv q1 [(w, W_top)] []" using p(2,3) assms(2)
    by (auto simp: jobs_inv_def held_def intro!: exI [of _ "rev as @ old"])
  moreover have "workers_inv q1 [(w, W_top)]" using assms(5,6) w by (simp add: workers_inv_def)
  ultimately have "\<exists>q2. worker_function fs w q1 = Inr (rev as @ old, W_wait, q2) \<and> jobs_are q2 [] \<and>
      wq_workers q2 = wq_workers q1"
    using p(2) assms(6-8) w by (intro worker_alone) simp_all
  with p(1) show ?thesis by blast
qed

theorem worker_executes_last_in_first_out_witness:
  "\<exists>q1 q2. push_list workqueue_add_job [1, 2, 3] (jobs_demo\<lparr>wq_workers := \<lparr>qhead = 1, qmem = \<lparr>cells = [1 \<mapsto>
        \<lparr>c_val = \<lparr>w_thread = 0, terminate = 0\<rparr>, c_prev = 0, c_next = 0\<rparr>], brk = 2\<rparr>\<rparr>\<rparr>) = Inr q1 \<and>
     worker_function [True, False, True, True] 1 q1 = Inr (rev [1, 2, 3] @ [], W_wait, q2) \<and> jobs_are q2 []"
proof (rule worker_executes_last_in_first_out [where c = "\<lparr>c_val = \<lparr>w_thread = 0, terminate = 0\<rparr>, c_prev = 0, c_next = 0\<rparr>"])
qed (simp_all add: jobs_are_def jobs_demo_def mem_ok_def live_job_def)

end
