(* ===== verification/WorkStop.thy ===== *)
theory WorkStop
  imports WorkSteps
begin

section \<open>The end of the workers\<close>

text \<open>
  What a \<open>workqueue_shutdown\<close> that survives its race does to the workers: the loop follows the
  \<open>next\<close> pointers that \<open>workqueue_init\<close> has set, so when it is through, every worker that has not
  left is marked, and after the broadcast none waits. From then on each worker needs at most three
  more steps of its own.
\<close>

definition marked :: "wstate \<Rightarrow> addr \<Rightarrow> bool" where
  "marked s a \<longleftrightarrow> (\<forall>c. cells (qmem (wq_workers (wq s))) a = Some c \<longrightarrow> terminate (c_val c) \<noteq> 0)"

definition node_at :: "addr list \<Rightarrow> nat \<Rightarrow> addr" where
  "node_at ws i = (if i < length ws then ws ! i else 0)"

definition links :: "wstate \<Rightarrow> addr list \<Rightarrow> bool" where
  "links s ws \<longleftrightarrow> set (map fst (wthreads s)) = set ws \<and> (\<forall>i < length ws. ws ! i \<noteq> 0 \<and>
     (\<forall>c. cells (qmem (wq_workers (wq s))) (ws ! i) = Some c \<longrightarrow> c_next c = node_at ws (Suc i)))"

definition stop_inv :: "addr list \<Rightarrow> wstate \<Rightarrow> bool" where
  "stop_inv ws s \<longleftrightarrow> links s ws \<and> (case stopper s of
       Stop_idle \<Rightarrow> qhead (wq_workers (wq s)) = node_at ws 0
     | Stop_mark a \<Rightarrow> (\<exists>i < length ws. a = ws ! i \<and> (\<forall>k < i. marked s (ws ! k)))
     | Stop_next a \<Rightarrow> (\<exists>i < length ws. a = ws ! i \<and> (\<forall>k \<le> i. marked s (ws ! k)))
     | Stop_drop \<Rightarrow> (\<forall>a \<in> set ws. marked s a)
     | Stop_done \<Rightarrow> (\<forall>a \<in> set ws. marked s a) \<and> (\<forall>j < length (wthreads s). snd (wthreads s ! j) \<noteq> W_wait))"

lemma seg_next:
  "seg d m q p xs 0 \<Longrightarrow> p = node_at (map fst xs) 0 \<and> (\<forall>i < length xs. fst (xs ! i) \<noteq> 0 \<and>
     (\<forall>c. cells m (fst (xs ! i)) = Some c \<longrightarrow> c_next c = node_at (map fst xs) (Suc i)))"
proof (induction xs arbitrary: q p)
  case (Cons x xs)
  obtain a v where x: "x = (a, v)" by force
  with Cons.prems obtain c where c: "p = a" "a \<noteq> 0" "cells m a = Some c" "seg d m a (c_next c) xs 0"
    by (auto simp: seg_Cons_iff)
  have s: "node_at (a # ys) (Suc i) = node_at ys i" for ys i by (simp add: node_at_def)
  have "fst ((x # xs) ! i) \<noteq> 0 \<and>
     (\<forall>c. cells m (fst ((x # xs) ! i)) = Some c \<longrightarrow> c_next c = node_at (map fst (x # xs)) (Suc i))" if "i < length (x # xs)" for i
    using that Cons.IH [OF c(4)] c x by (cases i) (auto simp: s)
  then show ?case using c(1) x by (auto simp: node_at_def)
qed (simp add: node_at_def)

text \<open>A step that changes the nodes of the workers, if at all, only by freeing some.\<close>

lemma stop_inv_keep:
  assumes "stop_inv ws s" "stopper s' = stopper s" "map fst (wthreads s') = map fst (wthreads s)"
    and "\<And>a c. cells (qmem (wq_workers (wq s'))) a = Some c \<Longrightarrow> cells (qmem (wq_workers (wq s))) a = Some c"
    and "qhead (wq_workers (wq s')) = qhead (wq_workers (wq s))"
    and "\<And>j. stopper s = Stop_done \<Longrightarrow> j < length (wthreads s') \<Longrightarrow> snd (wthreads s' ! j) \<noteq> W_wait"
  shows "stop_inv ws s'"
proof -
  have "marked s' a" if "marked s a" for a using that assms(4) by (auto simp: marked_def)
  moreover have "links s' ws"
  proof -
    have "set (map fst (wthreads s')) = set (map fst (wthreads s))" by (simp only: assms(3))
    then show ?thesis using assms(1,4) by (auto simp: links_def stop_inv_def)
  qed
  ultimately show ?thesis using assms(1,2,5,6) unfolding stop_inv_def by (cases "stopper s") auto
qed

lemma stop_inv_start:
  assumes "workqueue_init n mk pt mem_empty mem_empty = Inr (rc, q, ts)"
  shows "stop_inv (rev ts) (wstart q ts)"
proof -
  let ?k = "nat (if n < 1 then 1 else n)"
  have "stack_rep \<lparr>qhead = 0, qmem = mem_empty\<rparr> []" by simp
  from init_workers_rep [OF this, of ?k mk pt 0] obtain rc' q0 ts' ys where
    i: "init_workers ?k mk pt 0 \<lparr>qhead = 0, qmem = mem_empty\<rparr> = Inr (rc', q0, ts')" "stack_rep q0 ys"
    "map fst ys = rev ts'" by auto
  from assms i(1) have e: "ts = ts'" "wq_workers q = q0" by (auto simp: workqueue_init_def Let_def)
  from i(2) seg_next [of False "qmem q0" 0 "qhead q0" ys] have n: "qhead q0 = node_at (rev ts) 0"
    "\<forall>i < length ys. fst (ys ! i) \<noteq> 0 \<and> (\<forall>c. cells (qmem q0) (fst (ys ! i)) = Some c \<longrightarrow> c_next c = node_at (rev ts) (Suc i))"
    by (auto simp: stack_rep_def chain_def i(3) e(1))
  have l: "length ys = length ts" using arg_cong [OF i(3), of length] e(1) by simp
  then have "rev ts ! i = fst (ys ! i)" if "i < length ts" for i
    using that i(3) e(1) by (metis nth_map)
  with n l show ?thesis by (simp add: stop_inv_def links_def wstart_def e(2) o_def)
qed

lemma section_marked:
  assumes "worker_section (fst (wthreads s ! j)) (wq s) = Inr (pc, q)" "marked s (fst (wthreads s ! j))"
  shows "pc = W_exit \<and> q = wq s"
  using assms by (auto simp: worker_section_def marked_def load_def outcome_iffs split: if_splits option.splits)

lemma section_workers: "worker_section w q = Inr (pc, q') \<Longrightarrow> wq_workers q' = wq_workers q"
  by (auto simp: worker_section_def take_job_def Let_def outcome_iffs split: if_splits)

lemma leave_cells:
  "worker_leave w q = Inr q' \<Longrightarrow> qhead (wq_workers q') = qhead (wq_workers q) \<and>
     cells (qmem (wq_workers q')) = (cells (qmem (wq_workers q)))(w := None)"
  by (auto simp: worker_leave_def free_cell_def outcome_iffs load_def split: if_splits option.splits)

lemma pc_update: "stop_inv ws s \<Longrightarrow> stopper s = Stop_done \<Longrightarrow> pc \<noteq> W_wait \<Longrightarrow>
    k < length (set_pc (wthreads s) j pc) \<Longrightarrow> snd (set_pc (wthreads s) j pc ! k) \<noteq> W_wait"
  by (cases "k = j") (auto simp: stop_inv_def)

lemma signalled_awake:
  "signalled ts ts' \<Longrightarrow> \<forall>j < length ts. snd (ts ! j) \<noteq> W_wait \<Longrightarrow> ts' = ts"
  by (erule signalledE) auto

lemma signalled_fst: "signalled ts ts' \<Longrightarrow> map fst ts' = map fst ts"
  by (erule signalledE) (simp_all del: map_update)

lemma mark_cells:
  "shutdown_mark a q = Inr q' \<Longrightarrow> \<exists>c. cells (qmem (wq_workers q)) a = Some c \<and>
     cells (qmem (wq_workers q')) = (cells (qmem (wq_workers q)))(a \<mapsto> c\<lparr>c_val := stopped (c_val c)\<rparr>)"
  by (auto simp: shutdown_mark_def modify_def stopped_def outcome_iffs load_def split: if_splits option.splits)

lemma wstep_stop_inv:
  assumes "wstep s (Inr s')" "stop_inv ws s"
  shows "stop_inv ws s'"
  using assms(1)
proof (cases rule: wstep.cases)
  case (client_adds v ts)
  then obtain a q q2 where q: "new_job v (wq s) = (a, q)" "workqueue_add_job a q = Inr q2" "s' = s\<lparr>wq := q2, wthreads := ts\<rparr>"
    by (auto simp: outcome_iffs split: prod.splits)
  then have "wq_workers q2 = wq_workers (wq s)"
    by (auto simp: new_job_def workqueue_add_job_def Let_def outcome_iffs split: prod.splits)
  moreover have "stopper s = Stop_done \<Longrightarrow> ts = wthreads s"
    using assms(2) client_adds(3) signalled_awake by (auto simp: stop_inv_def)
  ultimately show ?thesis using q(3) signalled_fst [OF client_adds(3)] assms(2)
    by (intro stop_inv_keep [OF assms(2)]) (auto simp: stop_inv_def)
next
  case (worker_looks j)
  then obtain pc q where q: "worker_section (fst (wthreads s ! j)) (wq s) = Inr (pc, q)"
    "s' = s\<lparr>wq := q, wthreads := set_pc (wthreads s) j pc\<rparr>" by (auto simp: outcome_iffs)
  have "stopper s = Stop_done \<Longrightarrow> marked s (fst (wthreads s ! j))"
    using assms(2) worker_looks(2) by (fastforce simp: stop_inv_def links_def)
  then have "stopper s = Stop_done \<Longrightarrow> pc \<noteq> W_wait" using section_marked [OF q(1)] by auto
  then show ?thesis using q section_workers [OF q(1)] pc_update [OF assms(2)]
    by (intro stop_inv_keep [OF assms(2)]) (simp_all del: map_update)
next
  case (worker_wakes j)
  then show ?thesis using pc_update [OF assms(2)]
    by (intro stop_inv_keep [OF assms(2)]) (simp_all del: map_update)
next
  case (worker_runs j job frees)
  then show ?thesis using pc_update [OF assms(2)]
    by (intro stop_inv_keep [OF assms(2)]) (auto simp: outcome_iffs simp del: map_update)
next
  case (worker_leaves j)
  then obtain q where q: "worker_leave (fst (wthreads s ! j)) (wq s) = Inr q"
    "s' = s\<lparr>wq := q, wthreads := set_pc (wthreads s) j W_done\<rparr>" by (auto simp: outcome_iffs)
  then show ?thesis using leave_cells [OF q(1)] pc_update [OF assms(2)]
    by (intro stop_inv_keep [OF assms(2)]) (auto split: if_splits simp del: map_update)
next
  case stop_begins
  have "ws = [] \<or> ws ! 0 \<noteq> 0" using assms(2) by (auto simp: stop_inv_def links_def)
  with stop_begins assms(2) show ?thesis
    by (cases ws) (auto simp: stop_inv_def links_def node_at_def stop_at_def marked_def)
next
  case (stop_marks a)
  then obtain q where q: "shutdown_mark a (wq s) = Inr q" "s' = s\<lparr>wq := q, stopper := Stop_next a\<rparr>"
    by (auto simp: outcome_iffs)
  from mark_cells [OF q(1)] obtain c where c: "cells (qmem (wq_workers (wq s))) a = Some c"
    "cells (qmem (wq_workers q)) = (cells (qmem (wq_workers (wq s))))(a \<mapsto> c\<lparr>c_val := stopped (c_val c)\<rparr>)" by blast
  from assms(2) stop_marks(2) obtain i where i: "i < length ws" "a = ws ! i" "\<forall>k < i. marked s (ws ! k)" "links s ws"
    by (auto simp: stop_inv_def)
  have "marked s' (ws ! k)" if "k \<le> i" for k
    using that i(2,3) c(2) q(2) by (cases "ws ! k = a") (auto simp: marked_def stopped_def le_less)
  moreover have "links s' ws" using i(4) c q(2) by (auto simp: links_def)
  ultimately show ?thesis using i(1,2) q(2) by (auto simp: stop_inv_def)
next
  case (stop_reads a)
  then obtain b where b: "shutdown_next a (wq s) = Inr b" "s' = s\<lparr>stopper := stop_at b\<rparr>" by (auto simp: outcome_iffs)
  then obtain c where c: "cells (qmem (wq_workers (wq s))) a = Some c" "b = c_next c"
    by (auto simp: shutdown_next_def load_def outcome_iffs split: if_splits option.splits)
  from assms(2) stop_reads(2) obtain i where i: "i < length ws" "a = ws ! i" "\<forall>k \<le> i. marked s (ws ! k)" "links s ws"
    by (auto simp: stop_inv_def)
  have nx: "b = node_at ws (Suc i)" using i c by (auto simp: links_def)
  have m: "marked s' x = marked s x" for x using b(2) by (simp add: marked_def)
  have l: "links s' ws" using i(4) b(2) by (simp add: links_def)
  show ?thesis
  proof (cases "Suc i < length ws")
    case True
    then have "b \<noteq> 0" using i(4) nx by (auto simp: links_def node_at_def)
    with True nx i(3) m l b(2) show ?thesis
      by (auto simp: stop_inv_def stop_at_def node_at_def less_Suc_eq_le intro!: exI [of _ "Suc i"])
  next
    case False
    then have "\<forall>x \<in> set ws. marked s x" using i(1,3) by (auto simp: in_set_conv_nth)
    with False nx m l b(2) show ?thesis by (simp add: stop_inv_def stop_at_def node_at_def)
  qed
next
  case stop_drops
  have "cells (qmem (wq_workers (shutdown_drop (wq s)))) = cells (qmem (wq_workers (wq s)))"
    by (simp add: shutdown_drop_def)
  moreover have "map fst (broadcast (wthreads s)) = map fst (wthreads s)"
    by (simp add: broadcast_def o_def case_prod_beta)
  moreover have "snd (broadcast (wthreads s) ! j) \<noteq> W_wait" if "j < length (wthreads s)" for j
    using that by (simp add: broadcast_def case_prod_beta)
  moreover have "length (broadcast (wthreads s)) = length (wthreads s)" by (simp add: broadcast_def)
  ultimately show ?thesis using stop_drops assms(2) by (simp add: stop_inv_def links_def marked_def del: set_map)
qed

interpretation woken: safe_steps wnext "stop_inv ws" for ws
  by unfold_locales (auto simp: wnext_def intro: wstep_stop_inv)

lemma wreach_stop_inv: "wreach n s \<Longrightarrow> \<exists>ws. stop_inv ws s"
  using woken.run_keeps stop_inv_start by (fastforce simp: wreach_def wstarted_def)

subsection \<open>What is left to do\<close>

fun steps_left :: "worker_pc \<Rightarrow> nat" where
  "steps_left (W_run a) = 3"
| "steps_left W_top = 2"
| "steps_left W_wait = 2"
| "steps_left W_exit = 1"
| "steps_left W_done = 0"

definition work_left :: "wstate \<Rightarrow> nat" where
  "work_left s = (\<Sum>t \<leftarrow> wthreads s. steps_left (snd t))"

lemma work_left_0: "work_left s = 0 \<longleftrightarrow> (\<forall>j < length (wthreads s). snd (wthreads s ! j) = W_done)"
proof -
  have "steps_left pc = 0 \<longleftrightarrow> pc = W_done" for pc by (cases pc) auto
  then show ?thesis by (simp add: work_left_def all_set_conv_all_nth)
qed

lemma work_left_bound: "work_left s \<le> 3 * length (wthreads s)"
proof -
  have "steps_left pc \<le> 3" for pc by (cases pc) auto
  then have "(\<Sum>t \<leftarrow> ts. steps_left (snd t)) \<le> 3 * length ts" for ts :: "(addr \<times> worker_pc) list"
    by (induction ts) (auto intro: add_mono)
  then show ?thesis by (simp add: work_left_def)
qed

lemma work_left_set_pc:
  "j < length ts \<Longrightarrow> steps_left pc < steps_left (snd (ts ! j)) \<Longrightarrow>
   (\<Sum>t \<leftarrow> set_pc ts j pc. steps_left (snd t)) < (\<Sum>t \<leftarrow> ts. steps_left (snd t))"
  by (rule sum_update_less) simp_all

lemma after_done:
  assumes "wstep s r" "winv s" "stop_inv ws s" "stopper s = Stop_done"
  shows "\<exists>s'. r = Inr s' \<and> stopper s' = Stop_done \<and> (wthreads s' = wthreads s \<or> work_left s' < work_left s)"
proof -
  have "\<nexists>e. r = Inl e" using wstep_fault [OF assms(1) _ assms(2)] assms(4) by fastforce
  then obtain s' where r: "r = Inr s'" by (cases r) auto
  with assms(1) have "wstep s (Inr s')" by simp
  then have "stopper s' = Stop_done \<and> (wthreads s' = wthreads s \<or> work_left s' < work_left s)"
  proof (cases rule: wstep.cases)
    case (client_adds v ts)
    moreover have "ts = wthreads s" using assms(3,4) client_adds(3) signalled_awake by (auto simp: stop_inv_def)
    ultimately show ?thesis using assms(4) by (auto simp: outcome_iffs split: prod.splits)
  next
    case (worker_looks j)
    then obtain pc q where q: "worker_section (fst (wthreads s ! j)) (wq s) = Inr (pc, q)"
      "s' = s\<lparr>wq := q, wthreads := set_pc (wthreads s) j pc\<rparr>" by (auto simp: outcome_iffs)
    have "marked s (fst (wthreads s ! j))"
      using assms(3,4) worker_looks(2) by (fastforce simp: stop_inv_def links_def)
    with section_marked [OF q(1)] have "pc = W_exit" by blast
    then show ?thesis using q(2) assms(4) worker_looks(2,3) work_left_set_pc [of j "wthreads s" pc] by (simp add: work_left_def)
  next
    case (worker_wakes j)
    then show ?thesis using assms(3,4) by (auto simp: stop_inv_def)
  next
    case (worker_runs j job frees)
    then show ?thesis using assms(4) work_left_set_pc [of j "wthreads s" W_top] by (auto simp: outcome_iffs work_left_def)
  next
    case (worker_leaves j)
    then show ?thesis using assms(4) work_left_set_pc [of j "wthreads s" W_done] by (auto simp: outcome_iffs work_left_def)
  qed (use assms(4) in auto)
  with r show ?thesis by blast
qed

lemma some_worker_goes_on:
  assumes "winv s" "stop_inv ws s" "stopper s = Stop_done" "j < length (wthreads s)" "snd (wthreads s ! j) \<noteq> W_done"
  shows "\<exists>s'. wnext s s' \<and> work_left s' < work_left s"
proof -
  have "\<exists>r. wstep s r \<and> (\<forall>s'. r = Inr s' \<longrightarrow> wthreads s' \<noteq> wthreads s)"
  proof (cases "snd (wthreads s ! j)")
    case W_wait
    then show ?thesis using assms by (auto simp: stop_inv_def)
  next
    case W_top
    have "marked s (fst (wthreads s ! j))" using assms(2-4) by (fastforce simp: stop_inv_def links_def)
    with W_top show ?thesis using worker_looks [OF assms(4) W_top] section_marked
      by (fastforce simp: outcome_iffs nth_list_update assms(4) dest: arg_cong [where f = "\<lambda>ts. snd (ts ! j)"])
  next
    case (W_run a)
    then show ?thesis using worker_runs [OF assms(4) W_run, of True] assms(4)
      by (fastforce simp: outcome_iffs dest: arg_cong [where f = "\<lambda>ts. snd (ts ! j)"])
  next
    case W_exit
    then show ?thesis using worker_leaves [OF assms(4) W_exit] assms(4)
      by (fastforce simp: outcome_iffs dest: arg_cong [where f = "\<lambda>ts. snd (ts ! j)"])
  qed (use assms(5) in simp)
  then obtain r where r: "wstep s r" "\<forall>s'. r = Inr s' \<longrightarrow> wthreads s' \<noteq> wthreads s" by blast
  from after_done [OF r(1) assms(1-3)] r show ?thesis by (auto simp: wnext_def)
qed

interpretation leaving: ending_steps wnext "\<lambda>s. winv s \<and> stop_inv ws s \<and> stopper s = Stop_done" work_left
  "\<lambda>s. work_left s = 0" for ws
proof unfold_locales
  fix s s' assume "wnext s s'" "winv s \<and> stop_inv ws s \<and> stopper s = Stop_done"
  then show "winv s' \<and> stop_inv ws s' \<and> stopper s' = Stop_done"
    using wstep_winv wstep_stop_inv after_done [of s "Inr s'" ws] by (auto simp: wnext_def)
next
  fix s assume i: "winv s \<and> stop_inv ws s \<and> stopper s = Stop_done" "work_left s \<noteq> 0"
  then obtain j where "j < length (wthreads s)" "snd (wthreads s ! j) \<noteq> W_done" by (auto simp: work_left_0)
  with i some_worker_goes_on show "\<exists>s'. wnext s s' \<and> work_left s' < work_left s" by blast
qed

subsection \<open>Properties\<close>

text \<open>C22. When \<open>workqueue_shutdown\<close> has returned, the workers end: none waits or ever will, no step
  faults, whatever step is taken the workers are as they were or nearer to their end, of which each
  is at most three steps away, some worker can go on until all have ended, and they do.\<close>

theorem workers_end_after_shutdown:
  assumes "wreach n s" "stopper s = Stop_done"
  shows "(\<forall>j < length (wthreads s). snd (wthreads s ! j) \<noteq> W_wait) \<and> work_left s \<le> 3 * length (wthreads s) \<and>
    (\<forall>r. wstep s r \<longrightarrow> (\<exists>s'. r = Inr s' \<and> stopper s' = Stop_done \<and>
       (wthreads s' = wthreads s \<or> work_left s' < work_left s))) \<and>
    ((\<exists>s'. wnext s s' \<and> work_left s' < work_left s) \<or> (\<forall>j < length (wthreads s). snd (wthreads s ! j) = W_done)) \<and>
    (\<exists>s'. wnext\<^sup>*\<^sup>* s s' \<and> (\<forall>j < length (wthreads s'). snd (wthreads s' ! j) = W_done))"
proof -
  from wreach_stop_inv [OF assms(1)] obtain ws where i: "stop_inv ws s" by blast
  note w = wreach_winv [OF assms(1)]
  from leaving.reaches_end [of s ws] w i assms(2) have "\<exists>s'. wnext\<^sup>*\<^sup>* s s' \<and> (\<forall>j < length (wthreads s'). snd (wthreads s' ! j) = W_done)"
    by (auto simp: work_left_0)
  moreover have "\<forall>j < length (wthreads s). snd (wthreads s ! j) \<noteq> W_wait" using i assms(2) by (simp add: stop_inv_def)
  ultimately show ?thesis
    using some_worker_goes_on [OF w i assms(2)] after_done [OF _ w i assms(2)] work_left_bound by blast
qed

theorem workers_end_after_shutdown_witness:
  "\<exists>s s'. wreach 1 s \<and> stopper s = Stop_done \<and> length (wthreads s) = 1 \<and> snd (wthreads s ! 0) = W_top \<and>
     wnext\<^sup>*\<^sup>* s s' \<and> (\<exists>w. set (map snd (wthreads s')) \<subseteq> {w})"
proof -
  from work_demo_run obtain q where q: "wreach 1 \<lparr>wq = q, wthreads = [(1, W_top)], stopper = Stop_drop, ran = []\<rparr>" by blast
  let ?s = "\<lparr>wq = shutdown_drop q, wthreads = [(1, W_top)], stopper = Stop_done, ran = []\<rparr>"
  have "wnext \<lparr>wq = q, wthreads = [(1, W_top)], stopper = Stop_drop, ran = []\<rparr> ?s"
    using stop_drops [of "\<lparr>wq = q, wthreads = [(1, W_top)], stopper = Stop_drop, ran = []\<rparr>"]
    by (simp add: wnext_def broadcast_def)
  with q have r: "wreach 1 ?s" by (meson wreach_step)
  from workers_end_after_shutdown [OF r] obtain s' where s': "wnext\<^sup>*\<^sup>* ?s s'"
    "\<forall>j < length (wthreads s'). snd (wthreads s' ! j) = W_done" by auto
  then have "\<forall>t \<in> set (wthreads s'). snd t = W_done" by (metis in_set_conv_nth)
  then have "set (map snd (wthreads s')) \<subseteq> {W_done}" by auto
  with r s'(1) show ?thesis by (intro exI [of _ ?s] exI [of _ s']) auto
qed

end
