(* ===== verification/EvClient.thy ===== *)
theory EvClient
  imports Workqueue CString
begin

section \<open>The jobs of the libevent variant: \<^verbatim>\<open>withlibev/src/module.c\<close>\<close>

text \<open>
  A job of the work queue runs the event loop of one client and then releases the client. The
  objects of libevent are addresses, and what is released is an event in the result; the buffers
  libevent hands to \<open>buffered_on_read\<close> are reached through its functions, which are parameters.
  (\<open>onConect\<close>, in the same file, works on a \<open>client\<close> pointer that it never sets.)
\<close>

record client_t =
  cl_fd :: int
  evbase :: addr
  buf_ev :: addr
  output_buffer :: addr

type_synonym clients = "addr \<Rightarrow> client_t option"

datatype release =
    Close int | Bufferevent_free addr | Event_base_free addr | Evbuffer_free addr | Free_client addr

definition load_client :: "clients \<Rightarrow> addr \<Rightarrow> client_t res" where
  "load_client h a = (if a = 0 then Inl (UB Null_Deref) else
     (case h a of None \<Rightarrow> Inl (UB Invalid_Access) | Some c \<Rightarrow> Inr c))"

subsection \<open>Releasing a client\<close>

text \<open>\<open>closeClient\<close>, lines 81 to 89.\<close>

definition closeClient :: "addr \<Rightarrow> clients \<Rightarrow> (release list \<times> clients) res" where
  "closeClient client h =
     (if client \<noteq> 0 then
        bindE (load_client h client) (\<lambda>c.
          if 0 \<le> cl_fd c then Inr ([Close (cl_fd c)], h(client \<mapsto> c\<lparr>cl_fd := -1\<rparr>)) else Inr ([], h))
      else Inr ([], h))"

text \<open>
  \<open>closeAndFreeClient\<close>, lines 91 to 108. The pointers that are set to NULL before \<open>free\<close> are gone
  with the client.
\<close>

definition closeAndFreeClient :: "addr \<Rightarrow> clients \<Rightarrow> (release list \<times> clients) res" where
  "closeAndFreeClient client h =
     (if client \<noteq> 0 then
        bindE (closeClient client h) (\<lambda>(r1, h).
        bindE (load_client h client) (\<lambda>c.
          let r2 = (if buf_ev c \<noteq> 0 then [Bufferevent_free (buf_ev c)] else []);
              r3 = (if evbase c \<noteq> 0 then [Event_base_free (evbase c)] else []);
              r4 = (if output_buffer c \<noteq> 0 then [Evbuffer_free (output_buffer c)] else [])
          in Inr (r1 @ r2 @ r3 @ r4 @ [Free_client client], h(client := None))))
      else Inr ([], h))"

text \<open>\<open>buffered_on_write\<close> and \<open>buffered_on_error\<close>, lines 126 to 131.\<close>

definition buffered_on_write :: "addr \<Rightarrow> clients \<Rightarrow> (release list \<times> clients) res" where
  "buffered_on_write arg h = Inr ([], h)"

definition buffered_on_error :: "addr \<Rightarrow> clients \<Rightarrow> (release list \<times> clients) res" where
  "buffered_on_error arg h = closeClient arg h"

subsection \<open>Reading\<close>

text \<open>
  \<open>buffered_on_read\<close>, lines 110 to 124. \<open>ev_len\<close>, \<open>ev_remove\<close> and \<open>ev_add\<close> stand for
  \<open>EVBUFFER_LENGTH\<close>, \<open>evbuffer_remove\<close> and \<open>evbuffer_add\<close>; \<open>write_buffer\<close> is the result of
  \<open>bufferevent_write_buffer\<close>; \<open>outp\<close> is the output buffer of the client. The loop need not end for arbitrary functions.
\<close>

partial_function (option) read_loop ::
  "('b \<Rightarrow> nat) \<Rightarrow> ('b \<Rightarrow> nat \<Rightarrow> string \<times> 'b) \<Rightarrow> ('b \<Rightarrow> string \<Rightarrow> 'b) \<Rightarrow> 'b \<Rightarrow> 'b \<Rightarrow> ('b \<times> 'b) option" where
  "read_loop ev_len ev_remove ev_add inp outp =
     (let nbytes = to_int32 (int (ev_len inp)) in
      if 0 < nbytes then
        (let nbytes = (if 4096 < nbytes then 4096 else nbytes);
             (data, inp') = ev_remove inp (nat nbytes)
         in read_loop ev_len ev_remove ev_add inp' (ev_add outp data))
      else Some (inp, outp))"

definition buffered_on_read ::
  "('b \<Rightarrow> nat) \<Rightarrow> ('b \<Rightarrow> nat \<Rightarrow> string \<times> 'b) \<Rightarrow> ('b \<Rightarrow> string \<Rightarrow> 'b) \<Rightarrow> int \<Rightarrow>
   addr \<Rightarrow> 'b \<Rightarrow> 'b \<Rightarrow> clients \<Rightarrow> ('b \<times> 'b \<times> release list \<times> clients) res" where
  "buffered_on_read ev_len ev_remove ev_add write_buffer arg inp outp h =
     bindE (load_client h arg) (\<lambda>_.
     case read_loop ev_len ev_remove ev_add inp outp of
       None \<Rightarrow> Inl Hang
     | Some (inp', outp') \<Rightarrow>
         if write_buffer \<noteq> 0 then bindE (closeClient arg h) (\<lambda>(r, h). Inr (inp', outp', r, h))
         else Inr (inp', outp', [], h))"

subsection \<open>The job\<close>

text \<open>
  What \<open>event_base_dispatch\<close> calls while it runs, for one client: writable, an error, or a read
  whose answer could not be written.
\<close>

datatype ev_callback = Ev_write | Ev_error | Ev_read_failed | Ev_read

definition ev_call :: "addr \<Rightarrow> ev_callback \<Rightarrow> clients \<Rightarrow> (release list \<times> clients) res" where
  "ev_call client e h = (case e of
       Ev_write \<Rightarrow> buffered_on_write client h
     | Ev_error \<Rightarrow> buffered_on_error client h
     | Ev_read_failed \<Rightarrow> closeClient client h
     | Ev_read \<Rightarrow> Inr ([], h))"

fun ev_dispatch :: "addr \<Rightarrow> ev_callback list \<Rightarrow> clients \<Rightarrow> (release list \<times> clients) res" where
  "ev_dispatch client [] h = Inr ([], h)"
| "ev_dispatch client (e # es) h =
     bindE (ev_call client e h) (\<lambda>(r, h). bindE (ev_dispatch client es h) (\<lambda>(rs, h). Inr (r @ rs, h)))"

text \<open>\<open>job_function\<close>, lines 133 to 139.\<close>

definition client_job ::
  "addr \<Rightarrow> ev_callback list \<Rightarrow> job_t lqueue \<Rightarrow> clients \<Rightarrow> (release list \<times> job_t lqueue \<times> clients) res" where
  "client_job job es q h =
     bindE (load (qmem q) job) (\<lambda>c. let client = user_data (c_val c) in
     bindE (load_client h client) (\<lambda>_.
     bindE (ev_dispatch client es h) (\<lambda>(r1, h).
     bindE (closeAndFreeClient client h) (\<lambda>(r2, h).
     bindE (free_cell (qmem q) job) (\<lambda>m. Inr (r1 @ r2, q\<lparr>qmem := m\<rparr>, h))))))"

text \<open>\<open>sighandler\<close>, lines 141 to 144.\<close>

definition ev_sighandler :: "workqueue_t \<Rightarrow> workqueue_t res" where
  "ev_sighandler wq = workqueue_shutdown wq"

subsection \<open>Lemmas\<close>

lemma load_client_Some [simp]: "a \<noteq> 0 \<Longrightarrow> h a = Some c \<Longrightarrow> load_client h a = Inr c"
  by (simp add: load_client_def)

text \<open>However often the client is closed, its descriptor is closed at most once.\<close>

lemma ev_dispatch_closes_once:
  assumes "client \<noteq> 0" "h client = Some c"
  shows "\<exists>r c'. ev_dispatch client es h = Inr (r, h(client \<mapsto> c')) \<and> c' = c\<lparr>cl_fd := cl_fd c'\<rparr> \<and>
    (cl_fd c' = cl_fd c \<and> r = [] \<or> 0 \<le> cl_fd c \<and> cl_fd c' = -1 \<and> r = [Close (cl_fd c)])"
  using assms(2)
proof (induction es arbitrary: h c)
  case Nil
  then show ?case by (intro exI [of _ "[]"] exI [of _ c]) (auto simp: fun_upd_idem)
next
  case (Cons e es)
  show ?case
  proof (cases "e \<in> {Ev_error, Ev_read_failed} \<and> 0 \<le> cl_fd c")
    case True
    let ?c = "c\<lparr>cl_fd := -1\<rparr>"
    have call: "ev_call client e h = Inr ([Close (cl_fd c)], h(client \<mapsto> ?c))"
      using True assms(1) Cons.prems by (auto simp: ev_call_def buffered_on_error_def closeClient_def)
    have "(h(client \<mapsto> ?c)) client = Some ?c" by simp
    from Cons.IH [of "h(client \<mapsto> ?c)" ?c, OF this] obtain r c' where
      "ev_dispatch client es (h(client \<mapsto> ?c)) = Inr (r, h(client \<mapsto> c'))" "c' = ?c\<lparr>cl_fd := cl_fd c'\<rparr>"
      "cl_fd c' = cl_fd ?c \<and> r = [] \<or> 0 \<le> cl_fd ?c \<and> cl_fd c' = -1 \<and> r = [Close (cl_fd ?c)]"
      unfolding fun_upd_upd by blast
    then have "r = []" "c' = ?c" by simp_all
    with call \<open>ev_dispatch client es _ = _\<close> have "ev_dispatch client (e # es) h = Inr ([Close (cl_fd c)], h(client \<mapsto> ?c))"
      unfolding ev_dispatch.simps by (simp only: bindE.simps prod.case append.simps append_Nil2)
    then show ?thesis using True by (intro exI [of _ "[Close (cl_fd c)]"] exI [of _ ?c]) auto
  next
    case False
    then have "ev_call client e h = Inr ([], h)"
      using assms(1) Cons.prems
      by (cases e) (auto simp: ev_call_def buffered_on_error_def buffered_on_write_def closeClient_def)
    then have "ev_dispatch client (e # es) h = ev_dispatch client es h"
      by (cases "ev_dispatch client es h") auto
    with Cons.IH [of h c, OF Cons.prems] show ?thesis by (simp only:)
  qed
qed

text \<open>The laws of the buffers, read through what a buffer holds.\<close>

definition evbuffer_laws ::
  "('b \<Rightarrow> string) \<Rightarrow> ('b \<Rightarrow> nat) \<Rightarrow> ('b \<Rightarrow> nat \<Rightarrow> string \<times> 'b) \<Rightarrow> ('b \<Rightarrow> string \<Rightarrow> 'b) \<Rightarrow> bool" where
  "evbuffer_laws bytes ev_len ev_remove ev_add \<longleftrightarrow>
     (\<forall>b. ev_len b = length (bytes b)) \<and>
     (\<forall>b n. fst (ev_remove b n) = take n (bytes b) \<and> bytes (snd (ev_remove b n)) = drop n (bytes b)) \<and>
     (\<forall>b d. bytes (ev_add b d) = bytes b @ d)"

lemma read_loop_moves_all:
  assumes "evbuffer_laws bytes ev_len ev_remove ev_add" "length (bytes inp) < 2 ^ 31"
  shows "\<exists>inp' outp'. read_loop ev_len ev_remove ev_add inp outp = Some (inp', outp') \<and>
    bytes inp' = [] \<and> bytes outp' = bytes outp @ bytes inp"
  using assms(2)
proof (induction "length (bytes inp)" arbitrary: inp outp rule: less_induct)
  case less
  note laws = assms(1) [unfolded evbuffer_laws_def]
  have n: "to_int32 (int (ev_len inp)) = int (length (bytes inp))"
    using laws less.prems by (simp add: to_int32_id)
  show ?case
  proof (cases "bytes inp = []")
    case True
    with n show ?thesis by (subst read_loop.simps) simp
  next
    case False
    let ?k = "nat (if 4096 < int (length (bytes inp)) then 4096 else int (length (bytes inp)))"
    obtain d inp' where d: "ev_remove inp ?k = (d, inp')" by force
    with laws have b: "d = take ?k (bytes inp)" "bytes inp' = drop ?k (bytes inp)" by (metis fst_conv, metis snd_conv)
    have "0 < ?k" using False by simp
    with b(2) False less.prems have "length (bytes inp') < length (bytes inp)" "length (bytes inp') < 2 ^ 31" by auto
    from less.hyps [OF this, of "ev_add outp d"] obtain i o' where
      io: "read_loop ev_len ev_remove ev_add inp' (ev_add outp d) = Some (i, o')" "bytes i = []"
      "bytes o' = bytes (ev_add outp d) @ bytes inp'" by blast
    then have "bytes o' = bytes outp @ bytes inp" using laws b by (simp add: append_take_drop_id)
    moreover have "read_loop ev_len ev_remove ev_add inp outp = Some (i, o')"
      using n False d io(1) by (subst read_loop.simps) (simp add: Let_def)
    ultimately show ?thesis using io(2) by blast
  qed
qed

text \<open>What a client holds, in the order in which it is released.\<close>

definition resources :: "addr \<Rightarrow> client_t \<Rightarrow> release list" where
  "resources a c = (if 0 \<le> cl_fd c then [Close (cl_fd c)] else []) @
     (if buf_ev c \<noteq> 0 then [Bufferevent_free (buf_ev c)] else []) @
     (if evbase c \<noteq> 0 then [Event_base_free (evbase c)] else []) @
     (if output_buffer c \<noteq> 0 then [Evbuffer_free (output_buffer c)] else []) @ [Free_client a]"

lemma closeAndFreeClient_resources:
  "a \<noteq> 0 \<Longrightarrow> h a = Some c \<Longrightarrow> closeAndFreeClient a h = Inr (resources a c, h(a := None))"
  by (simp add: closeAndFreeClient_def closeClient_def resources_def Let_def)

lemma distinct_resources: "distinct (resources a c)"
  by (simp add: resources_def)

subsection \<open>Properties\<close>



text \<open>With buffers that behave as libevent documents, and less than 2 GB in the input, the loop of
  \<open>buffered_on_read\<close> ends and moves the whole input, in order, behind what the output held; the
  descriptor is closed exactly if writing the output fails.\<close>

theorem on_read_moves_the_input:
  assumes "evbuffer_laws bytes ev_len ev_remove ev_add" "length (bytes inp) < 2 ^ 31"
    and "arg \<noteq> 0" "h arg = Some c" "0 \<le> cl_fd c"
  shows "\<exists>inp' outp'. buffered_on_read ev_len ev_remove ev_add write_buffer arg inp outp h =
      Inr (inp', outp', if write_buffer = 0 then [] else [Close (cl_fd c)],
        if write_buffer = 0 then h else h(arg \<mapsto> c\<lparr>cl_fd := -1\<rparr>)) \<and>
    bytes inp' = [] \<and> bytes outp' = bytes outp @ bytes inp"
proof -
  from read_loop_moves_all [OF assms(1,2), of outp] obtain i o' where
    "read_loop ev_len ev_remove ev_add inp outp = Some (i, o')" "bytes i = []" "bytes o' = bytes outp @ bytes inp" by blast
  with assms(3-5) show ?thesis by (simp add: buffered_on_read_def closeClient_def)
qed

theorem on_read_moves_the_input_witness:
  "\<exists>inp' outp'. buffered_on_read length (\<lambda>b n. (take n b, drop n b)) (@) 1 1 ''hello'' ''ab''
      [1 \<mapsto> \<lparr>cl_fd = 4, evbase = 0, buf_ev = 8, output_buffer = 9\<rparr>] =
      Inr (inp', outp', [Close 4], [1 \<mapsto> \<lparr>cl_fd = -1, evbase = 0, buf_ev = 8, output_buffer = 9\<rparr>]) \<and>
    outp' = ''abhello''"
proof -
  have "evbuffer_laws id length (\<lambda>b n. (take n b, drop n b)) (@)" by (simp add: evbuffer_laws_def)
  from on_read_moves_the_input [OF this, of "''hello''" 1 "[1 \<mapsto> \<lparr>cl_fd = 4, evbase = 0, buf_ev = 8, output_buffer = 9\<rparr>]"
      "\<lparr>cl_fd = 4, evbase = 0, buf_ev = 8, output_buffer = 9\<rparr>" 1 "''ab''"]
  show ?thesis by simp
qed

end
