(* ===== verification/EvModule.thy ===== *)
theory EvModule
  imports Module EvClient
begin

section \<open>Starting the libevent variant: \<^verbatim>\<open>withlibev/src/module.c\<close>\<close>

text \<open>
  \<open>mod_init\<close> of the variant copies the configuration as the library does and calls a \<open>manage\<close> that
  is not in the repository: a parameter, with its result. \<open>onConect\<close> sets up a client: the results
  of the libevent calls are arguments, and so is the value of \<open>client\<close>, a local variable that the
  function never sets.
\<close>

text \<open>
  \<open>setnonblock\<close>, lines 7 to 15: \<open>getfl\<close> is what \<open>F_GETFL\<close> gives, \<open>setfl\<close> what \<open>F_SETFL\<close> answers to the new flags.
\<close>

unbundle bit_operations_syntax

definition O_NONBLOCK :: int where
  "O_NONBLOCK = 2048"

definition ev_setnonblock :: "int \<Rightarrow> (int \<Rightarrow> int) \<Rightarrow> int" where
  "ev_setnonblock getfl setfl =
     (if getfl < 0 then getfl
      else let flags = getfl OR O_NONBLOCK in if setfl flags < 0 then -1 else 0)"

text \<open>It returns 0 only after it has set flags that keep all that were set and add this one.\<close>

lemma setnonblock_keeps_flags:
  assumes "ev_setnonblock getfl setfl = 0"
  shows "\<exists>flags. 0 \<le> setfl flags \<and> bit flags 11 \<and> (\<forall>n. n \<noteq> 11 \<longrightarrow> bit flags n = bit getfl n)"
proof -
  have o: "O_NONBLOCK = 2 ^ 11" by (simp add: O_NONBLOCK_def)
  have b: "bit O_NONBLOCK n = (n = 11)" for n unfolding o by (simp only: bit_exp_iff) simp
  have "0 \<le> setfl (getfl OR O_NONBLOCK)" using assms by (auto simp: ev_setnonblock_def Let_def split: if_splits)
  with b show ?thesis by (intro exI [of _ "getfl OR O_NONBLOCK"]) (auto simp: bit_or_iff)
qed

text \<open>\<open>mod_init\<close>, lines 21 to 46.\<close>

definition ev_mod_init :: "(configurator \<Rightarrow> int res) \<Rightarrow> configurator \<Rightarrow> (int \<times> configurator) res" where
  "ev_mod_init manage_f cf =
     bindE (copy_peers cf 0) (\<lambda>ps. let gconfig = cf\<lparr>peers := ps\<rparr> in
     bindE (manage_f gconfig) (\<lambda>rc. if rc \<noteq> 0 then Inl (Exit 1) else Inr (0, gconfig)))"

text \<open>
  \<open>onConect\<close>, lines 49 to 78. Line 72 hands the event base to a function that takes a bufferevent
  and reads it as one.
\<close>

definition onConect :: "addr \<Rightarrow> addr \<Rightarrow> addr \<Rightarrow> addr \<Rightarrow> clients \<Rightarrow> (release list \<times> clients) res" where
  "onConect client evbuffer_new event_base_new socket_new h =
     bindE (load_client h client) (\<lambda>c. let c = c\<lparr>output_buffer := evbuffer_new\<rparr>; h = h(client \<mapsto> c) in
     if evbuffer_new = 0 then closeAndFreeClient client h
     else let c = c\<lparr>evbase := event_base_new\<rparr>; h = h(client \<mapsto> c) in
     if event_base_new = 0 then closeAndFreeClient client h
     else let c = c\<lparr>buf_ev := socket_new\<rparr>; h = h(client \<mapsto> c) in
     Inl (UB Invalid_Access))"

subsection \<open>Properties\<close>

text \<open>\<open>mod_init\<close> hands a copy of the first \<open>num_peers\<close> peers to \<open>manage\<close> and returns only 0, after a
  \<open>manage\<close> that did.\<close>

theorem ev_mod_init_copies:
  assumes "ev_mod_init manage_f cf = Inr (rc, gconfig)"
  shows "rc = 0 \<and> manage_f gconfig = Inr 0 \<and>
    gconfig = cf\<lparr>peers := take (nat (num_peers cf)) (peers cf)\<rparr> \<and> nat (num_peers cf) \<le> length (peers cf)"
proof -
  from assms obtain ps where ps: "copy_peers cf 0 = Inr ps"
    and m: "bindE (manage_f (cf\<lparr>peers := ps\<rparr>)) (\<lambda>rc. if rc \<noteq> 0 then Inl (Exit 1) else Inr (0, cf\<lparr>peers := ps\<rparr>)) = Inr (rc, gconfig)"
    unfolding ev_mod_init_def bindE_Inr_iff Let_def by blast
  have p: "ps = take (nat (num_peers cf)) (peers cf)" "nat (num_peers cf) \<le> length (peers cf)"
    using copy_peers_all [OF ps] by simp_all
  from m obtain k where "manage_f (cf\<lparr>peers := ps\<rparr>) = Inr k" "k = 0" "rc = 0" "gconfig = cf\<lparr>peers := ps\<rparr>"
    by (cases "manage_f (cf\<lparr>peers := ps\<rparr>)") (auto split: if_splits)
  with p show ?thesis by blast
qed

theorem ev_mod_init_copies_witness:
  "\<exists>gconfig. ev_mod_init (\<lambda>_. Inr 0) \<lparr>num_worker_threads = 4, num_peers = 1, peers = [peer_demo]\<rparr> = Inr (0, gconfig) \<and>
     peers gconfig = [peer_demo]"
proof -
  let ?cf = "\<lparr>num_worker_threads = 4, num_peers = 1, peers = [peer_demo]\<rparr>"
  have l: "length (ip peer_demo) < 16" by (simp add: peer_demo_def)
  have "copy_peers ?cf 1 = Inr []" by (subst copy_peers.simps) simp
  then have "\<exists>ps. copy_peers ?cf 0 = Inr ps" by (subst copy_peers.simps) (simp add: store_str_def l)
  then obtain gconfig where g: "ev_mod_init (\<lambda>_. Inr 0) ?cf = Inr (0, gconfig)" by (auto simp: ev_mod_init_def Let_def)
  with ev_mod_init_copies [OF g] show ?thesis by auto
qed

text \<open>Whatever the uninitialised pointer holds, \<open>onConect\<close> establishes no connection: it faults, or it
  gives back the memory the pointer happened to designate because libevent had none left.\<close>

theorem onConect_never_connects:
  "case onConect client evbuffer_new event_base_new socket_new h of
     Inl e \<Rightarrow> e \<in> {UB Null_Deref, UB Invalid_Access}
   | Inr (r, h') \<Rightarrow> (evbuffer_new = 0 \<or> event_base_new = 0) \<and> Free_client client \<in> set r \<and> h' = h(client := None)"
proof (cases "load_client h client")
  case (Inl e)
  then show ?thesis by (auto simp: onConect_def load_client_def split: if_splits option.splits)
next
  case (Inr c)
  then have "client \<noteq> 0" by (auto simp: load_client_def split: if_splits)
  then show ?thesis
    by (auto simp: onConect_def Inr Let_def closeAndFreeClient_resources resources_def)
qed

end
