(* ===== verification/SafeQueue.thy ===== *)
theory SafeQueue
  imports Runs
begin

section \<open>The blocking queue: \<^verbatim>\<open>mod_tcpclient/include/safeqtempl.h\<close>\<close>

text \<open>
  \<open>threadsafe_queue\<close>: a deque with a mutex and a condition variable. The operations are first
  given as one thread runs them: a wait that nobody ends is \<open>Hang\<close>, and so is a lock that is
  already held (by the same thread: the standard leaves it undefined, the mutexes of the platform
  block for ever). Then threads that push, notify and pop interleave, and two move assignments.
\<close>

record 'a tsq =
  tq_items :: "'a list"      \<comment> \<open>\<open>_queue\<close>\<close>
  tq_locked :: bool          \<comment> \<open>\<open>_mutex\<close>\<close>

definition tsq_new :: "'a tsq" where
  "tsq_new = \<lparr>tq_items = [], tq_locked = False\<rparr>"

definition lock :: "'a tsq \<Rightarrow> 'a tsq res" where
  "lock q = (if tq_locked q then Inl Hang else Inr (q\<lparr>tq_locked := True\<rparr>))"

definition unlock :: "'a tsq \<Rightarrow> 'a tsq" where
  "unlock q = q\<lparr>tq_locked := False\<rparr>"

subsection \<open>The operations\<close>

text \<open>
  \<open>push_back\<close>, lines 109 to 129 (both overloads put the item in the queue): the result is the
  queue; \<open>notify_one\<close> follows without the lock and is a step of its own below.
\<close>

definition push_back :: "'a \<Rightarrow> 'a tsq \<Rightarrow> 'a tsq res" where
  "push_back item q = bindE (lock q) (\<lambda>q. Inr (unlock (q\<lparr>tq_items := tq_items q @ [item]\<rparr>)))"

text \<open>\<open>front\<close> and both \<open>pop_front\<close>, lines 71 to 107: with nothing in the queue the thread waits.\<close>

definition front :: "'a tsq \<Rightarrow> ('a \<times> 'a tsq) res" where
  "front q = bindE (lock q) (\<lambda>q. case tq_items q of [] \<Rightarrow> Inl Hang | x # xs \<Rightarrow> Inr (x, unlock q))"

definition pop_front :: "'a tsq \<Rightarrow> ('a \<times> 'a tsq) res" where
  "pop_front q = bindE (lock q) (\<lambda>q. case tq_items q of [] \<Rightarrow> Inl Hang
     | x # xs \<Rightarrow> Inr (x, unlock (q\<lparr>tq_items := xs\<rparr>)))"

text \<open>\<open>size\<close>, \<open>empty\<close> and \<open>clear\<close>, lines 131 to 157.\<close>

definition tsq_size :: "'a tsq \<Rightarrow> (nat \<times> 'a tsq) res" where
  "tsq_size q = bindE (lock q) (\<lambda>q. Inr (length (tq_items q), unlock q))"

definition tsq_empty :: "'a tsq \<Rightarrow> (bool \<times> 'a tsq) res" where
  "tsq_empty q = bindE (tsq_size q) (\<lambda>(n, q). Inr (n = 0, q))"

fun clear_loop :: "'a list \<Rightarrow> 'a list" where
  "clear_loop [] = []"
| "clear_loop (x # xs) = clear_loop xs"

definition tsq_clear :: "'a tsq \<Rightarrow> 'a tsq res" where
  "tsq_clear q = bindE (lock q) (\<lambda>q. Inr (unlock (q\<lparr>tq_items := clear_loop (tq_items q)\<rparr>)))"

text \<open>
  Construction and assignment, lines 36 to 70. The objects live in a store, so that \<open>this\<close> and
  \<open>rHnd\<close> can be the same. \<open>left\<close> is what a deque holds after it was moved from, which the standard
  leaves open.
\<close>

type_synonym 'a tsqs = "nat \<Rightarrow> 'a tsq"

definition lock_at :: "nat \<Rightarrow> 'a tsqs \<Rightarrow> 'a tsqs res" where
  "lock_at a h = bindE (lock (h a)) (\<lambda>q. Inr (h(a := q)))"

definition unlock_at :: "nat \<Rightarrow> 'a tsqs \<Rightarrow> 'a tsqs" where
  "unlock_at a h = h(a := unlock (h a))"

definition copy_construct :: "nat \<Rightarrow> nat \<Rightarrow> 'a tsqs \<Rightarrow> 'a tsqs res" where
  "copy_construct this rHnd h =
     bindE (lock_at rHnd h) (\<lambda>h.
       Inr (unlock_at rHnd (h(this := \<lparr>tq_items = tq_items (h rHnd), tq_locked = False\<rparr>))))"

definition move_construct :: "'a list \<Rightarrow> nat \<Rightarrow> nat \<Rightarrow> 'a tsqs \<Rightarrow> 'a tsqs res" where
  "move_construct left this rHnd h =
     bindE (lock_at rHnd h) (\<lambda>h.
       Inr (unlock_at rHnd (h(this := \<lparr>tq_items = tq_items (h rHnd), tq_locked = False\<rparr>,
                              rHnd := (h rHnd)\<lparr>tq_items := left\<rparr>))))"

definition copy_assign :: "nat \<Rightarrow> nat \<Rightarrow> 'a tsqs \<Rightarrow> 'a tsqs res" where
  "copy_assign this rHnd h =
     (if this \<noteq> rHnd then
        bindE (lock_at rHnd h) (\<lambda>h.
        bindE (lock_at rHnd h) (\<lambda>h.
          Inr (unlock_at rHnd (h(this := (h this)\<lparr>tq_items := tq_items (h rHnd)\<rparr>)))))
      else Inr h)"

definition move_items :: "'a list \<Rightarrow> nat \<Rightarrow> nat \<Rightarrow> 'a tsqs \<Rightarrow> 'a tsqs" where
  "move_items left this rHnd h =
     h(this := (h this)\<lparr>tq_items := tq_items (h rHnd)\<rparr>, rHnd := (h rHnd)\<lparr>tq_items := left\<rparr>)"

definition move_assign :: "'a list \<Rightarrow> nat \<Rightarrow> nat \<Rightarrow> 'a tsqs \<Rightarrow> 'a tsqs res" where
  "move_assign left this rHnd h =
     (if this \<noteq> rHnd then
        bindE (lock_at this h) (\<lambda>h.
        bindE (lock_at rHnd h) (\<lambda>h.
          Inr (unlock_at this (unlock_at rHnd (move_items left this rHnd h)))))
      else Inr h)"

subsection \<open>The contract of a queue\<close>

text \<open>
  First in, first out, for a queue that is not locked: the laws, and what follows from them for a
  batch of items. The thread pool relies on it.
\<close>

fun push_all :: "('a \<Rightarrow> 'q \<Rightarrow> 'q res) \<Rightarrow> 'a list \<Rightarrow> 'q \<Rightarrow> 'q res" where
  "push_all push [] q = Inr q"
| "push_all push (x # xs) q = bindE (push x q) (push_all push xs)"

fun pop_all :: "('q \<Rightarrow> ('a \<times> 'q) res) \<Rightarrow> nat \<Rightarrow> 'q \<Rightarrow> ('a list \<times> 'q) res" where
  "pop_all pop 0 q = Inr ([], q)"
| "pop_all pop (Suc n) q = bindE (pop q) (\<lambda>(x, q). bindE (pop_all pop n q) (\<lambda>(xs, q). Inr (x # xs, q)))"

locale fifo =
  fixes push :: "'a \<Rightarrow> 'q \<Rightarrow> 'q res"
    and pop :: "'q \<Rightarrow> ('a \<times> 'q) res"
    and holds :: "'q \<Rightarrow> 'a list \<Rightarrow> bool"
  assumes push_law: "holds q xs \<Longrightarrow> \<exists>q'. push x q = Inr q' \<and> holds q' (xs @ [x])"
    and pop_law: "holds q (x # xs) \<Longrightarrow> \<exists>q'. pop q = Inr (x, q') \<and> holds q' xs"
    and pop_waits: "holds q [] \<Longrightarrow> pop q = Inl Hang"
begin

lemma pushes: "holds q ys \<Longrightarrow> \<exists>q'. push_all push xs q = Inr q' \<and> holds q' (ys @ xs)"
proof (induction xs arbitrary: q ys)
  case (Cons x xs)
  from push_law [OF Cons.prems, of x] obtain q' where "push x q = Inr q'" "holds q' (ys @ [x])" by blast
  with Cons.IH [of q' "ys @ [x]"] show ?case by auto
qed simp

lemma pops: "holds q (xs @ ys) \<Longrightarrow> \<exists>q'. pop_all pop (length xs) q = Inr (xs, q') \<and> holds q' ys"
proof (induction xs arbitrary: q)
  case (Cons x xs)
  with pop_law [of q x "xs @ ys"] obtain q' where "pop q = Inr (x, q')" "holds q' (xs @ ys)" by auto
  with Cons.IH [of q'] show ?case by auto
qed simp

lemma first_in_first_out:
  assumes "holds q old"
  shows "\<exists>q1 q2. push_all push xs q = Inr q1 \<and> pop_all pop (length old + length xs) q1 = Inr (old @ xs, q2) \<and>
    pop q2 = Inl Hang"
proof -
  from pushes [OF assms, of xs] obtain q1 where q1: "push_all push xs q = Inr q1" "holds q1 ((old @ xs) @ [])" by auto
  from pops [OF q1(2)] obtain q2 where "pop_all pop (length (old @ xs)) q1 = Inr (old @ xs, q2)" "holds q2 []" by blast
  with q1(1) pop_waits show ?thesis by auto
qed

end

definition tsq_holds :: "'a tsq \<Rightarrow> 'a list \<Rightarrow> bool" where
  "tsq_holds q xs \<longleftrightarrow> \<not> tq_locked q \<and> tq_items q = xs"

lemma push_back_unlocked [simp]:
  "\<not> tq_locked q \<Longrightarrow> push_back x q = Inr (q\<lparr>tq_items := tq_items q @ [x]\<rparr>)"
  by (cases q) (simp add: push_back_def lock_def unlock_def)

lemma pop_front_unlocked [simp]:
  "\<not> tq_locked q \<Longrightarrow> pop_front q = (case tq_items q of [] \<Rightarrow> Inl Hang | x # xs \<Rightarrow> Inr (x, q\<lparr>tq_items := xs\<rparr>))"
  by (cases q) (simp add: pop_front_def lock_def unlock_def split: list.splits)

lemma pop_front_locked [simp]: "tq_locked q \<Longrightarrow> pop_front q = Inl Hang"
  by (simp add: pop_front_def lock_def)

lemma tsq_empty_locked [simp]: "tq_locked q \<Longrightarrow> tsq_empty q = Inl Hang"
  by (simp add: tsq_empty_def tsq_size_def lock_def)

lemma front_unlocked [simp]:
  "\<not> tq_locked q \<Longrightarrow> front q = (case tq_items q of [] \<Rightarrow> Inl Hang | x # xs \<Rightarrow> Inr (x, q))"
  by (cases q) (simp add: front_def lock_def unlock_def split: list.splits)

lemma tsq_empty_unlocked [simp]: "\<not> tq_locked q \<Longrightarrow> tsq_empty q = Inr (tq_items q = [], q)"
  by (cases q) (simp add: tsq_empty_def tsq_size_def lock_def unlock_def)

lemma clear_loop_Nil: "clear_loop xs = []"
  by (induction xs) auto

lemma tsq_clear_unlocked [simp]: "\<not> tq_locked q \<Longrightarrow> tsq_clear q = Inr (q\<lparr>tq_items := []\<rparr>)"
  by (cases q) (simp add: tsq_clear_def lock_def unlock_def clear_loop_Nil)

interpretation tsq: fifo push_back pop_front tsq_holds
  by unfold_locales (auto simp: tsq_holds_def)

subsection \<open>Threads that push, notify and pop\<close>

text \<open>
  A producer that has pushed and released the lock still has to notify: \<open>m_pending\<close> counts them.
  A consumer is away, at the lock of \<open>pop_front\<close>, or in \<open>wait\<close>; a notification, or a spurious
  wake-up, lets it try again. Threads that call \<open>front\<close>, \<open>clear\<close> or an assignment at the same time are not
  part of these steps. \<open>m_pushed\<close> and \<open>m_popped\<close> are the histories.
\<close>

datatype consumer_pc = C_away | C_lock | C_wait

record 'a monitor =
  m_queue :: "'a tsq"
  m_pending :: nat
  m_consumers :: "consumer_pc list"
  m_pushed :: "'a list"
  m_popped :: "'a list"

inductive mstep :: "'a monitor \<Rightarrow> 'a monitor \<Rightarrow> bool" where
  producer_pushes: "push_back x (m_queue s) = Inr q \<Longrightarrow>
    mstep s (s\<lparr>m_queue := q, m_pending := Suc (m_pending s), m_pushed := m_pushed s @ [x]\<rparr>)"
| notifies_none: "m_pending s = Suc n \<Longrightarrow> C_wait \<notin> set (m_consumers s) \<Longrightarrow> mstep s (s\<lparr>m_pending := n\<rparr>)"
| notifies_one: "m_pending s = Suc n \<Longrightarrow> j < length (m_consumers s) \<Longrightarrow> m_consumers s ! j = C_wait \<Longrightarrow>
    mstep s (s\<lparr>m_pending := n, m_consumers := (m_consumers s)[j := C_lock]\<rparr>)"
| consumer_calls: "j < length (m_consumers s) \<Longrightarrow> m_consumers s ! j = C_away \<Longrightarrow>
    mstep s (s\<lparr>m_consumers := (m_consumers s)[j := C_lock]\<rparr>)"
| consumer_pops: "j < length (m_consumers s) \<Longrightarrow> m_consumers s ! j = C_lock \<Longrightarrow> pop_front (m_queue s) = Inr (x, q) \<Longrightarrow>
    mstep s (s\<lparr>m_queue := q, m_consumers := (m_consumers s)[j := C_away], m_popped := m_popped s @ [x]\<rparr>)"
| consumer_waits: "j < length (m_consumers s) \<Longrightarrow> m_consumers s ! j = C_lock \<Longrightarrow> tq_items (m_queue s) = [] \<Longrightarrow>
    mstep s (s\<lparr>m_consumers := (m_consumers s)[j := C_wait]\<rparr>)"
| consumer_wakes: "j < length (m_consumers s) \<Longrightarrow> m_consumers s ! j = C_wait \<Longrightarrow>
    mstep s (s\<lparr>m_consumers := (m_consumers s)[j := C_lock]\<rparr>)"

definition mstart :: "nat \<Rightarrow> 'a monitor" where
  "mstart n = \<lparr>m_queue = tsq_new, m_pending = 0, m_consumers = replicate n C_away, m_pushed = [], m_popped = []\<rparr>"

text \<open>
  The invariant: the histories differ by what is in the queue, and as long as a consumer waits,
  every item has a notification to come or a consumer on its way.
\<close>

definition minv :: "'a monitor \<Rightarrow> bool" where
  "minv s \<longleftrightarrow> \<not> tq_locked (m_queue s) \<and> m_pushed s = m_popped s @ tq_items (m_queue s) \<and>
     (C_wait \<in> set (m_consumers s) \<longrightarrow>
        length (tq_items (m_queue s)) \<le> m_pending s + count_list (m_consumers s) C_lock)"

lemma count_list_update:
  "j < length xs \<Longrightarrow> count_list (xs[j := y]) x + (if xs ! j = x then 1 else 0) =
     count_list xs x + (if y = x then 1 else 0)"
proof (induction xs arbitrary: j)
  case (Cons z zs)
  show ?case
  proof (cases j)
    case (Suc i)
    with Cons.IH [of i] Cons.prems show ?thesis by auto
  qed auto
qed simp

lemma wait_update: "C_wait \<in> set (xs[j := y]) \<Longrightarrow> y \<noteq> C_wait \<Longrightarrow> C_wait \<in> set xs"
  using set_update_subset_insert by fastforce

lemma mstep_minv:
  assumes "mstep s s'" "minv s"
  shows "minv s'"
  using assms
proof (cases rule: mstep.cases)
  case (consumer_pops j x q)
  then obtain xs where "tq_items (m_queue s) = x # xs" "q = (m_queue s)\<lparr>tq_items := xs\<rparr>"
    using assms(2) by (auto simp: minv_def split: list.splits)
  with consumer_pops count_list_update [of j "m_consumers s" C_away C_lock] assms(2) show ?thesis
    by (auto simp: minv_def dest!: wait_update)
next
  case (consumer_waits j)
  with count_list_update [of j "m_consumers s" C_wait C_lock] assms(2) show ?thesis by (auto simp: minv_def)
next
  case (consumer_wakes j)
  then have "C_wait \<in> set (m_consumers s)" by (metis nth_mem)
  with consumer_wakes count_list_update [of j "m_consumers s" C_lock C_lock] assms(2) show ?thesis
    by (auto simp: minv_def)
next
  case (notifies_one n j)
  then have "C_wait \<in> set (m_consumers s)" by (metis nth_mem)
  with notifies_one count_list_update [of j "m_consumers s" C_lock C_lock] assms(2) show ?thesis
    by (auto simp: minv_def)
next
  case (consumer_calls j)
  with count_list_update [of j "m_consumers s" C_lock C_lock] assms(2) show ?thesis
    by (auto simp: minv_def dest!: wait_update)
qed (auto simp: minv_def)

lemma mstart_minv: "minv (mstart n)"
  by (simp add: minv_def mstart_def tsq_new_def)

interpretation waiting: started_steps mstep minv "\<lambda>s. s = mstart n" for n
  by unfold_locales (auto intro: mstep_minv mstart_minv)

subsection \<open>Two assignments at a time\<close>

datatype assign_pc = A_this | A_other | A_done

text \<open>A thread that moves from \<open>rHnd\<close> to \<open>this\<close>: the two locks of \<open>move_assign\<close> are two steps.\<close>

inductive astep :: "'a list \<Rightarrow> 'a tsqs \<times> (nat \<times> nat \<times> assign_pc) list \<Rightarrow>
    'a tsqs \<times> (nat \<times> nat \<times> assign_pc) list \<Rightarrow> bool" for left where
  assign_same: "i < length ts \<Longrightarrow> ts ! i = (a, a, A_this) \<Longrightarrow> astep left (h, ts) (h, ts[i := (a, a, A_done)])"
| assign_first: "i < length ts \<Longrightarrow> ts ! i = (a, b, A_this) \<Longrightarrow> a \<noteq> b \<Longrightarrow> lock_at a h = Inr h' \<Longrightarrow>
    astep left (h, ts) (h', ts[i := (a, b, A_other)])"
| assign_second: "i < length ts \<Longrightarrow> ts ! i = (a, b, A_other) \<Longrightarrow> lock_at b h = Inr h' \<Longrightarrow>
    astep left (h, ts) (unlock_at a (unlock_at b (move_items left a b h')), ts[i := (a, b, A_done)])"

text \<open>One thread alone does what \<open>move_assign\<close> does.\<close>

lemma move_assign_steps:
  assumes "move_assign left a b h = Inr h'"
  shows "(astep left)\<^sup>*\<^sup>* (h, [(a, b, A_this)]) (h', [(a, b, A_done)])"
proof (cases "a = b")
  case True
  with assms assign_same [of 0 "[(a, a, A_this)]" a left h] show ?thesis by (auto simp: move_assign_def)
next
  case False
  with assms obtain h1 h2 where h: "lock_at a h = Inr h1" "lock_at b h1 = Inr h2"
    "h' = unlock_at a (unlock_at b (move_items left a b h2))" by (auto simp: move_assign_def outcome_iffs)
  have "astep left (h, [(a, b, A_this)]) (h1, [(a, b, A_other)])"
    using assign_first [of 0 "[(a, b, A_this)]" a b h h1 left] False h(1) by simp
  moreover have "astep left (h1, [(a, b, A_other)]) (h', [(a, b, A_done)])"
    using assign_second [of 0 "[(a, b, A_other)]" a b h1 h2 left] h(2,3) by simp
  ultimately show ?thesis by (meson rtranclp.rtrancl_into_rtrancl rtranclp.rtrancl_refl)
qed

lemma lock_at_free: "\<not> tq_locked (h a) \<Longrightarrow> lock_at a h = Inr (h(a := (h a)\<lparr>tq_locked := True\<rparr>))"
  by (simp add: lock_at_def lock_def)

lemma lock_at_held: "tq_locked (h a) \<Longrightarrow> lock_at a h = Inl Hang"
  by (simp add: lock_at_def lock_def)

subsection \<open>Properties\<close>

text \<open>The queue is first in, first out, and \<open>pop_front\<close> on what is then an empty queue waits.\<close>

theorem queue_is_first_in_first_out:
  assumes "\<not> tq_locked q"
  shows "\<exists>q1 q2. push_all push_back xs q = Inr q1 \<and>
    pop_all pop_front (length (tq_items q) + length xs) q1 = Inr (tq_items q @ xs, q2) \<and> pop_front q2 = Inl Hang"
  by (rule tsq.first_in_first_out) (simp add: tsq_holds_def assms)

theorem queue_is_first_in_first_out_witness:
  "\<exists>q1 q2. push_all push_back [1, 2, 3 :: nat] \<lparr>tq_items = [8, 9], tq_locked = False\<rparr> = Inr q1 \<and>
    pop_all pop_front 5 q1 = Inr ([8, 9, 1, 2, 3], q2) \<and> pop_front q2 = Inl Hang"
  using queue_is_first_in_first_out [of "\<lparr>tq_items = [8, 9], tq_locked = False\<rparr>" "[1, 2, 3 :: nat]"] by (simp add: eval_nat_numeral)

text \<open>C25. With any number of producers that call \<open>push_back\<close> and consumers that call \<open>pop_front\<close> the items come out in the order they went in, and
  no item is left to consumers that sleep: while one waits, there are at least as many
  notifications to come and consumers on their way as there are items. (A thread in \<open>front\<close>, which waits on the
  same condition variable and leaves the item, would use a notification up; the pool never calls it.)\<close>

theorem no_item_is_left_to_sleepers:
  assumes "mstep\<^sup>*\<^sup>* (mstart n) s"
  shows "m_pushed s = m_popped s @ tq_items (m_queue s) \<and> (C_wait \<in> set (m_consumers s) \<longrightarrow>
    length (tq_items (m_queue s)) \<le> m_pending s + count_list (m_consumers s) C_lock)"
  using waiting.reach_inv [OF refl assms] by (simp add: minv_def)

theorem no_item_is_left_to_sleepers_witness:
  "\<exists>s. mstep\<^sup>*\<^sup>* (mstart 1) s \<and> m_consumers s = [C_wait] \<and> tq_items (m_queue s) = [7 :: nat] \<and> 1 \<le> m_pending s"
proof -
  let ?s = "\<lambda>cs. \<lparr>m_queue = tsq_new, m_pending = 0, m_consumers = cs, m_pushed = [] :: nat list, m_popped = []\<rparr>"
  let ?t = "(?s [C_wait])\<lparr>m_queue := tsq_new\<lparr>tq_items := [7]\<rparr>, m_pending := 1, m_pushed := [7]\<rparr>"
  have "mstep (mstart 1) (?s [C_lock])" using consumer_calls [of 0 "?s [C_away]"] by (simp add: mstart_def)
  moreover have "mstep (?s [C_lock]) (?s [C_wait])"
    using consumer_waits [of 0 "?s [C_lock]"] by (simp add: tsq_new_def)
  moreover have "mstep (?s [C_wait]) ?t"
    using producer_pushes [of 7 "?s [C_wait]" "tsq_new\<lparr>tq_items := [7]\<rparr>"] by (simp add: tsq_new_def)
  ultimately have r: "mstep\<^sup>*\<^sup>* (mstart 1) ?t"
    by (meson rtranclp.rtrancl_into_rtrancl rtranclp.rtrancl_refl)
  from no_item_is_left_to_sleepers [OF r] have "1 \<le> m_pending ?t" by simp
  with r show ?thesis by (intro exI [of _ ?t]) simp
qed

text \<open>Copying from another queue by assignment never returns: it locks the mutex of the source
  twice and never its own.\<close>

theorem copy_assignment_blocks:
  "copy_assign this rHnd h = (if this = rHnd then Inr h else Inl Hang)"
  by (simp add: copy_assign_def lock_at_def lock_def)

text \<open>C27. Two threads that move two queues into each other can block each other for ever: each holds
  the lock of its own target and waits for the other's.\<close>

theorem crossed_moves_deadlock:
  assumes "a \<noteq> b" "\<not> tq_locked (h a)" "\<not> tq_locked (h b)"
  shows "\<exists>s. (astep left)\<^sup>*\<^sup>* (h, [(a, b, A_this), (b, a, A_this)]) s \<and> (\<forall>s'. \<not> astep left s s') \<and>
    map (snd \<circ> snd) (snd s) = [A_other, A_other]"
proof -
  let ?h1 = "h(a := (h a)\<lparr>tq_locked := True\<rparr>)"
  let ?h2 = "?h1(b := (h b)\<lparr>tq_locked := True\<rparr>)"
  let ?s = "(?h2, [(a, b, A_other), (b, a, A_other)])"
  have "astep left (h, [(a, b, A_this), (b, a, A_this)]) (?h1, [(a, b, A_other), (b, a, A_this)])"
    using assign_first [of 0 "[(a, b, A_this), (b, a, A_this)]" a b h ?h1 left] assms by (simp add: lock_at_free)
  moreover have "astep left (?h1, [(a, b, A_other), (b, a, A_this)]) ?s"
    using assign_first [of 1 "[(a, b, A_other), (b, a, A_this)]" b a ?h1 ?h2 left] assms by (simp add: lock_at_free)
  ultimately have "(astep left)\<^sup>*\<^sup>* (h, [(a, b, A_this), (b, a, A_this)]) ?s"
    by (meson rtranclp.rtrancl_into_rtrancl rtranclp.rtrancl_refl)
  moreover have "\<not> astep left ?s s'" for s'
    using assms(1) by (auto elim!: astep.cases simp: lock_at_held less_Suc_eq nth_Cons')
  ultimately show ?thesis by (intro exI [of _ ?s]) simp
qed

theorem crossed_moves_deadlock_witness:
  "\<exists>s. (astep ([] :: nat list))\<^sup>*\<^sup>* (\<lambda>_. tsq_new, [(0, 1, A_this), (1, 0, A_this)]) s \<and> (\<forall>s'. \<not> astep [] s s') \<and>
    map (snd \<circ> snd) (snd s) = [A_other, A_other]"
  by (rule crossed_moves_deadlock) (simp_all add: tsq_new_def)

end
