(* ===== verification/ThreadPool.thy ===== *)
theory ThreadPool
  imports SafeQueue "HOL-Library.Word"
begin

section \<open>The thread pool: \<^verbatim>\<open>mod_tcpclient/include/tpool.h\<close>\<close>

text \<open>
  \<open>threadPool\<close>: up to \<open>maxNumThreads\<close> workers, each with a queue and a thread of its own. A task is
  the number of the function that a client pushes, whose future it fulfils, or the empty task that
  \<open>worker::end\<close> pushes. What a task computes, or throws, ends up in its future and does not touch
  the worker. \<open>w_ran\<close> and \<open>w_pushed\<close> record what the thread executed and what ever entered the queue.
\<close>

datatype task = Task nat | Noop

text \<open>
  Where a thread is in the lambda of \<open>worker::start\<close>, lines 77 to 92: at the head of a loop, or in
  the \<open>pop_front\<close> of its body.
\<close>

datatype tpc = P_loop | P_pop | P_drain | P_drain_pop | P_done

record pworker =
  w_queue :: "task tsq"
  w_pc :: tpc
  joinable :: bool           \<comment> \<open>\<open>_thread.joinable()\<close>\<close>
  affinity :: int
  pinned :: "int option"     \<comment> \<open>the CPU given to \<open>setAffinity\<close> by the thread, if any\<close>
  w_ran :: "task list"
  w_pushed :: "task list"

record pool =
  threadNum :: nat
  pworkers :: "pworker list"
  end_flag :: bool

definition pworker_new :: pworker where
  "pworker_new = \<lparr>w_queue = tsq_new, w_pc = P_done, joinable = False, affinity = -1, pinned = None,
     w_ran = [], w_pushed = []\<rparr>"

text \<open>The constructor, lines 22 to 25.\<close>

definition pool_new :: "nat \<Rightarrow> pool" where
  "pool_new maxNumThreads = \<lparr>threadNum = 0, pworkers = replicate maxNumThreads pworker_new, end_flag = True\<rparr>"

subsection \<open>The thread of a worker\<close>

text \<open>One step of the thread; \<open>None\<close> when it has ended, or waits in \<open>pop_front\<close>.\<close>

definition run_front :: "tpc \<Rightarrow> pworker \<Rightarrow> pworker option" where
  "run_front pc w = (case pop_front (w_queue w) of Inl e \<Rightarrow> None
     | Inr (t, q) \<Rightarrow> Some (w\<lparr>w_queue := q, w_pc := pc, w_ran := w_ran w @ [t]\<rparr>))"

definition thread_step :: "bool \<Rightarrow> pworker \<Rightarrow> pworker option" where
  "thread_step endFlag w = (case w_pc w of
       P_loop \<Rightarrow> Some (w\<lparr>w_pc := (if endFlag then P_drain else P_pop)\<rparr>)
     | P_pop \<Rightarrow> run_front P_loop w
     | P_drain \<Rightarrow> (case tsq_empty (w_queue w) of Inl e \<Rightarrow> None
         | Inr (b, q) \<Rightarrow> Some (w\<lparr>w_queue := q, w_pc := (if b then P_done else P_drain_pop)\<rparr>))
     | P_drain_pop \<Rightarrow> run_front P_drain w
     | P_done \<Rightarrow> None)"

text \<open>The thread until it ends or waits: what \<open>join\<close> waits for while nobody pushes.\<close>

fun pc_rank :: "tpc \<Rightarrow> nat" where
  "pc_rank P_loop = 3"
| "pc_rank P_pop = 2"
| "pc_rank P_drain = 2"
| "pc_rank P_drain_pop = 1"
| "pc_rank P_done = 0"

definition thread_rank :: "pworker \<Rightarrow> nat" where
  "thread_rank w = 4 * length (tq_items (w_queue w)) + pc_rank (w_pc w)"

lemma run_front_Some:
  "run_front pc w = Some w' \<longleftrightarrow> (\<exists>t xs. tq_items (w_queue w) = t # xs \<and> \<not> tq_locked (w_queue w) \<and>
     w' = w\<lparr>w_queue := (w_queue w)\<lparr>tq_items := xs\<rparr>, w_pc := pc, w_ran := w_ran w @ [t]\<rparr>)"
  by (cases "tq_locked (w_queue w)") (auto simp: run_front_def split: list.splits)

lemma drain_test_Some:
  "(case tsq_empty (w_queue w) of Inl e \<Rightarrow> None | Inr (b, q) \<Rightarrow> Some (w\<lparr>w_queue := q, w_pc := f b\<rparr>)) = Some w' \<longleftrightarrow>
     \<not> tq_locked (w_queue w) \<and> w' = w\<lparr>w_pc := f (tq_items (w_queue w) = [])\<rparr>"
  by (cases "tq_locked (w_queue w)") auto

lemma thread_step_rank: "thread_step f w = Some w' \<Longrightarrow> thread_rank w' < thread_rank w"
  by (cases "w_pc w") (auto simp: thread_step_def thread_rank_def run_front_Some drain_test_Some)

function run_thread :: "bool \<Rightarrow> pworker \<Rightarrow> pworker" where
  "run_thread f w = (case thread_step f w of None \<Rightarrow> w | Some w' \<Rightarrow> run_thread f w')"
  by pat_completeness auto
termination
  by (relation "measure (\<lambda>(f, w). thread_rank w)") (auto dest: thread_step_rank)

declare run_thread.simps [simp del]

definition thread_join :: "bool \<Rightarrow> pworker \<Rightarrow> pworker res" where
  "thread_join f w = (let w' = run_thread f w in
     if w_pc w' = P_done then Inr (w'\<lparr>joinable := False\<rparr>) else Inl Hang)"

subsection \<open>The operations of a worker\<close>

abbreviation CPU_SETSIZE :: int where
  "CPU_SETSIZE \<equiv> 1024"

text \<open>\<open>worker::push\<close>, lines 105 to 112, and \<open>worker::end\<close>, lines 96 to 104.\<close>

definition worker_push :: "task \<Rightarrow> pworker \<Rightarrow> pworker res" where
  "worker_push t w = bindE (push_back t (w_queue w)) (\<lambda>q. Inr (w\<lparr>w_queue := q, w_pushed := w_pushed w @ [t]\<rparr>))"

definition worker_end :: "bool \<Rightarrow> pworker \<Rightarrow> pworker res" where
  "worker_end f w = (if joinable w then bindE (worker_push Noop w) (thread_join f) else Inr w)"

text \<open>
  \<open>setAffinity\<close>, lines 176 to 185, given what \<open>pthread_setaffinity_np\<close> answers to a set of CPUs: the set
  the thread is bound to from now on, if any; a failure is only printed. \<open>CPU_SET\<close> leaves out numbers
  that the set cannot hold. \<open>worker::start\<close>, lines 74 to 95: the new thread calls it when its affinity is
  not negative; \<open>pinned\<close> is the number it passes.
\<close>

definition setAffinity :: "(nat set \<Rightarrow> int) \<Rightarrow> int \<Rightarrow> nat set option" where
  "setAffinity pthread_setaffinity_np cpuNum =
     (let cpuset = (if 0 \<le> cpuNum \<and> cpuNum < CPU_SETSIZE then {nat cpuNum} else {});
          rc = pthread_setaffinity_np cpuset
      in if rc = 0 then Some cpuset else None)"

definition worker_start :: "bool \<Rightarrow> pworker \<Rightarrow> pworker res" where
  "worker_start f w = bindE (worker_end f w) (\<lambda>w.
     Inr (w\<lparr>joinable := True, w_pc := P_loop, pinned := (if 0 \<le> affinity w then Some (affinity w) else None)\<rparr>))"

subsection \<open>The operations of the pool\<close>

text \<open>
  \<open>start\<close> and \<open>end\<close> hold \<open>_mtx\<close> exclusively, \<open>push\<close> holds it shared, so nobody pushes while a
  thread is joined.
\<close>

fun start_workers :: "bool \<Rightarrow> int list \<Rightarrow> pworker list \<Rightarrow> pworker list res" where
  "start_workers f [] ws = Inr ws"
| "start_workers f (a # as) [] = Inl (UB Invalid_Access)"
| "start_workers f (a # as) (w # ws) =
     bindE (worker_start f (w\<lparr>affinity := a\<rparr>)) (\<lambda>w.
     bindE (start_workers f as ws) (\<lambda>ws. Inr (w # ws)))"

definition pool_start :: "int list \<Rightarrow> pool \<Rightarrow> pool res" where
  "pool_start aff p =
     (if length aff = 0 then Inl (Throw ''invalid_argument'')
      else if length (pworkers p) < length aff then Inl (Throw ''invalid_argument'')
      else bindE (start_workers False aff (pworkers p)) (\<lambda>ws.
        Inr (p\<lparr>end_flag := False, pworkers := ws, threadNum := length aff\<rparr>)))"

definition pool_start_num :: "nat \<Rightarrow> pool \<Rightarrow> pool res" where
  "pool_start_num numThreads p =
     (if numThreads = 0 then Inl (Throw ''invalid_argument'')
      else pool_start (replicate numThreads (-1)) p)"

fun end_workers :: "bool \<Rightarrow> nat \<Rightarrow> pworker list \<Rightarrow> pworker list res" where
  "end_workers f 0 ws = Inr ws"
| "end_workers f (Suc n) [] = Inl (UB Invalid_Access)"
| "end_workers f (Suc n) (w # ws) =
     bindE (worker_end f w) (\<lambda>w. bindE (end_workers f n ws) (\<lambda>ws. Inr (w # ws)))"

definition pool_end :: "pool \<Rightarrow> pool res" where
  "pool_end p = bindE (end_workers True (threadNum p) (pworkers p)) (\<lambda>ws.
     Inr (p\<lparr>threadNum := 0, end_flag := True, pworkers := ws\<rparr>))"

text \<open>The destructor, line 26; the destructor of a thread that is joinable ends the program.\<close>

definition pool_destroy :: "pool \<Rightarrow> pworker list res" where
  "pool_destroy p = bindE (pool_end p) (\<lambda>p.
     if \<exists>w \<in> set (pworkers p). joinable w then Inl (Throw ''terminate'') else Inr (pworkers p))"

text \<open>\<open>push\<close>, lines 163 to 173 with a hash, and lines 153 to 161, where the hash is drawn at random.\<close>

definition pool_push :: "nat \<Rightarrow> 32 word \<Rightarrow> pool \<Rightarrow> pool res" where
  "pool_push t hash p = (let n = threadNum p in
     if n = 0 then Inl (Throw ''logic_error'')
     else let i = unat hash mod n in
       if i < length (pworkers p)
       then bindE (worker_push (Task t) (pworkers p ! i)) (\<lambda>w. Inr (p\<lparr>pworkers := (pworkers p)[i := w]\<rparr>))
       else Inl (UB Invalid_Access))"

definition pool_push_any :: "nat \<Rightarrow> 32 word \<Rightarrow> pool \<Rightarrow> pool res" where
  "pool_push_any t drawn p = pool_push t drawn p"

subsection \<open>What a thread executes\<close>

text \<open>With the flag set the thread executes all that is queued, in order, and ends.\<close>

definition drained :: "tpc \<Rightarrow> pworker \<Rightarrow> pworker" where
  "drained pc w = w\<lparr>w_queue := (w_queue w)\<lparr>tq_items := []\<rparr>, w_pc := pc, w_ran := w_ran w @ tq_items (w_queue w)\<rparr>"

lemma run_thread_step: "thread_step f w = Some w' \<Longrightarrow> run_thread f w = run_thread f w'"
  by (subst run_thread.simps) simp

lemma run_thread_stop: "thread_step f w = None \<Longrightarrow> run_thread f w = w"
  by (subst run_thread.simps) simp

lemma run_thread_end:
  "\<not> tq_locked (w_queue w) \<Longrightarrow> w_pc w \<noteq> P_done \<Longrightarrow> w_pc w \<in> {P_pop, P_drain_pop} \<longrightarrow> tq_items (w_queue w) \<noteq> [] \<Longrightarrow>
   run_thread True w = drained P_done w"
proof (induction "thread_rank w" arbitrary: w rule: less_induct)
  case less
  let ?q = "w_queue w"
  have IH: "run_thread True w = drained P_done w'"
    if "thread_step True w = Some w'" "\<not> tq_locked (w_queue w')" "w_pc w' \<noteq> P_done"
      "w_pc w' \<in> {P_pop, P_drain_pop} \<longrightarrow> tq_items (w_queue w') \<noteq> []" for w'
    using less.hyps [OF thread_step_rank [OF that(1)]] that run_thread_step by simp
  show ?case
  proof (cases "w_pc w")
    case P_loop
    with IH [of "w\<lparr>w_pc := P_drain\<rparr>"] less.prems show ?thesis by (simp add: thread_step_def drained_def)
  next
    case P_pop
    with less.prems obtain t xs where "tq_items ?q = t # xs" by (cases "tq_items ?q") auto
    with P_pop IH [of "w\<lparr>w_queue := ?q\<lparr>tq_items := xs\<rparr>, w_pc := P_loop, w_ran := w_ran w @ [t]\<rparr>"] less.prems
    show ?thesis by (simp add: thread_step_def run_front_def drained_def)
  next
    case P_drain
    show ?thesis
    proof (cases "tq_items ?q = []")
      case True
      let ?w = "w\<lparr>w_pc := P_done\<rparr>"
      have "thread_step True w = Some ?w" using P_drain True less.prems by (simp add: thread_step_def)
      moreover have "run_thread True ?w = ?w" by (rule run_thread_stop) (simp add: thread_step_def)
      ultimately have "run_thread True w = ?w" using run_thread_step by simp
      then show ?thesis using True by (cases w, cases ?q) (simp add: drained_def)
    next
      case False
      with P_drain IH [of "w\<lparr>w_pc := P_drain_pop\<rparr>"] less.prems show ?thesis
        by (simp add: thread_step_def drained_def)
    qed
  next
    case P_drain_pop
    with less.prems obtain t xs where "tq_items ?q = t # xs" by (cases "tq_items ?q") auto
    with P_drain_pop IH [of "w\<lparr>w_queue := ?q\<lparr>tq_items := xs\<rparr>, w_pc := P_drain, w_ran := w_ran w @ [t]\<rparr>"] less.prems
    show ?thesis by (simp add: thread_step_def run_front_def drained_def)
  qed (use less.prems in simp)
qed

text \<open>With the flag clear it executes all that is queued and then waits for more.\<close>

lemma run_thread_wait:
  "\<not> tq_locked (w_queue w) \<Longrightarrow> w_pc w \<in> {P_loop, P_pop} \<Longrightarrow> run_thread False w = drained P_pop w"
proof (induction "thread_rank w" arbitrary: w rule: less_induct)
  case less
  let ?q = "w_queue w"
  have IH: "run_thread False w = drained P_pop w'"
    if "thread_step False w = Some w'" "\<not> tq_locked (w_queue w')" "w_pc w' \<in> {P_loop, P_pop}" for w'
    using less.hyps [OF thread_step_rank [OF that(1)]] that run_thread_step by simp
  show ?case
  proof (cases "w_pc w = P_loop")
    case True
    with IH [of "w\<lparr>w_pc := P_pop\<rparr>"] less.prems show ?thesis by (simp add: thread_step_def drained_def)
  next
    case False
    with less.prems have pc: "w_pc w = P_pop" by simp
    show ?thesis
    proof (cases "tq_items ?q")
      case Nil
      then have "run_thread False w = w" using pc less.prems by (intro run_thread_stop) (simp add: thread_step_def run_front_def)
      then show ?thesis using Nil pc by (cases w, cases ?q) (simp add: drained_def)
    next
      case (Cons t xs)
      with pc IH [of "w\<lparr>w_queue := ?q\<lparr>tq_items := xs\<rparr>, w_pc := P_loop, w_ran := w_ran w @ [t]\<rparr>"] less.prems
      show ?thesis by (simp add: thread_step_def run_front_def drained_def)
    qed
  qed
qed

subsection \<open>Well-typed workers and pools\<close>

text \<open>
  A worker is active, with a thread in the first loop, or idle, with no thread and nothing queued;
  in both cases what entered its queue is what was executed and what is still there. The pool's
  first \<open>threadNum\<close> workers are the active ones.
\<close>

definition worker_ok :: "bool \<Rightarrow> pworker \<Rightarrow> bool" where
  "worker_ok active w \<longleftrightarrow> \<not> tq_locked (w_queue w) \<and> w_pushed w = w_ran w @ tq_items (w_queue w) \<and>
     joinable w = active \<and> (if active then w_pc w \<in> {P_loop, P_pop} else w_pc w = P_done \<and> tq_items (w_queue w) = [])"

definition pool_ok :: "nat \<Rightarrow> pool \<Rightarrow> bool" where
  "pool_ok maxNum p \<longleftrightarrow> length (pworkers p) = maxNum \<and> threadNum p \<le> maxNum \<and> end_flag p = (threadNum p = 0) \<and>
     (\<forall>i < maxNum. worker_ok (i < threadNum p) (pworkers p ! i))"

definition started :: "int \<Rightarrow> pworker \<Rightarrow> pworker" where
  "started a w = w\<lparr>affinity := a, joinable := True, w_pc := P_loop, pinned := (if 0 \<le> a then Some a else None)\<rparr>"

definition finished :: "pworker \<Rightarrow> pworker" where
  "finished w = w\<lparr>w_queue := (w_queue w)\<lparr>tq_items := []\<rparr>, w_pc := P_done, joinable := False,
     w_ran := w_pushed w @ [Noop], w_pushed := w_pushed w @ [Noop]\<rparr>"

lemma worker_push_ok:
  "worker_ok b w \<Longrightarrow> worker_push t w =
     Inr (w\<lparr>w_queue := (w_queue w)\<lparr>tq_items := tq_items (w_queue w) @ [t]\<rparr>, w_pushed := w_pushed w @ [t]\<rparr>)"
  by (simp add: worker_push_def worker_ok_def)

lemma worker_end_active: "worker_ok True w \<Longrightarrow> worker_end True w = Inr (finished w)"
  by (auto simp: worker_end_def worker_push_ok thread_join_def run_thread_end drained_def finished_def worker_ok_def)

lemma worker_end_unset: "worker_ok True w \<Longrightarrow> worker_end False w = Inl Hang"
  by (auto simp: worker_end_def worker_push_ok thread_join_def run_thread_wait drained_def worker_ok_def)

lemma worker_start_idle: "worker_ok False w \<Longrightarrow> worker_start f (w\<lparr>affinity := a\<rparr>) = Inr (started a w)"
  by (simp add: worker_start_def worker_end_def worker_ok_def started_def)

lemma worker_start_active: "worker_ok True w \<Longrightarrow> worker_start False (w\<lparr>affinity := a\<rparr>) = Inl Hang"
  using worker_end_unset [of "w\<lparr>affinity := a\<rparr>"] by (simp add: worker_start_def worker_ok_def)

lemma worker_ok_started: "worker_ok False w \<Longrightarrow> worker_ok True (started a w)"
  by (simp add: worker_ok_def started_def)

lemma worker_ok_finished: "worker_ok True w \<Longrightarrow> worker_ok False (finished w)"
  by (simp add: worker_ok_def finished_def)

lemma worker_ok_step: "worker_ok True w \<Longrightarrow> thread_step False w = Some w' \<Longrightarrow> worker_ok True w'"
  by (auto simp: worker_ok_def thread_step_def run_front_Some)

lemma start_workers_idle:
  "\<forall>w \<in> set ws. worker_ok False w \<Longrightarrow> length aff \<le> length ws \<Longrightarrow>
   start_workers f aff ws = Inr (map2 started aff ws @ drop (length aff) ws)"
proof (induction aff arbitrary: ws)
  case (Cons a aff)
  then obtain w ws' where "ws = w # ws'" by (cases ws) auto
  with Cons show ?case by (simp add: worker_start_idle)
qed simp

lemma end_workers_active:
  "n \<le> length ws \<Longrightarrow> \<forall>i < n. worker_ok True (ws ! i) \<Longrightarrow>
   end_workers True n ws = Inr (map finished (take n ws) @ drop n ws)"
proof (induction n arbitrary: ws)
  case (Suc n)
  then obtain w ws' where w: "ws = w # ws'" by (cases ws) auto
  with Suc.prems have "worker_ok True w" "\<forall>i < n. worker_ok True (ws' ! i)" by auto
  with Suc w show ?case by (simp add: worker_end_active)
qed simp

lemma pool_ok_active:
  assumes "pool_ok m p" "i < threadNum p"
  shows "i < length (pworkers p)" "worker_ok True (pworkers p ! i)"
proof -
  from assms show "i < length (pworkers p)" by (simp add: pool_ok_def)
  with assms(1) have "worker_ok (i < threadNum p) (pworkers p ! i)" unfolding pool_ok_def by blast
  with assms(2) show "worker_ok True (pworkers p ! i)" by simp
qed

lemma pool_ok_idle:
  assumes "pool_ok m p" "threadNum p \<le> i" "i < m"
  shows "worker_ok False (pworkers p ! i)"
proof -
  from assms(1,3) have "worker_ok (i < threadNum p) (pworkers p ! i)" unfolding pool_ok_def by blast
  with assms(2) show ?thesis by simp
qed

lemma pool_push_ok:
  assumes "pool_ok m p" "threadNum p \<noteq> 0" and i_def: "i = unat hash mod threadNum p"
  shows "\<exists>w. pool_push t hash p = Inr (p\<lparr>pworkers := (pworkers p)[i := w]\<rparr>) \<and> i < threadNum p \<and> i < length (pworkers p) \<and>
    w = (pworkers p ! i)\<lparr>w_queue := (w_queue (pworkers p ! i))\<lparr>tq_items := tq_items (w_queue (pworkers p ! i)) @ [Task t]\<rparr>,
      w_pushed := w_pushed (pworkers p ! i) @ [Task t]\<rparr> \<and> worker_ok True w"
proof -
  have i: "i < threadNum p" using assms(2) by (simp add: i_def)
  note l = pool_ok_active [OF assms(1) i]
  with i show ?thesis using assms(2)
    by (auto simp: pool_push_def Let_def i_def [symmetric] worker_push_ok) (auto simp: worker_ok_def)
qed

lemma pool_start_running:
  assumes "pool_ok m p" "threadNum p \<noteq> 0" "0 < length aff" "length aff \<le> m"
  shows "pool_start aff p = Inl Hang"
proof -
  obtain a aff' w ws where e: "aff = a # aff'" "pworkers p = w # ws"
    using assms by (cases aff; cases "pworkers p") (auto simp: pool_ok_def)
  with assms have "worker_ok True w" by (auto simp: pool_ok_def dest!: spec [of _ 0])
  with assms e show ?thesis by (simp add: pool_start_def worker_start_active pool_ok_def)
qed

lemma pool_start_idle:
  assumes "pool_ok m p" "threadNum p = 0" "0 < length aff" "length aff \<le> m"
  shows "pool_start aff p = Inr (p\<lparr>end_flag := False, threadNum := length aff,
    pworkers := map2 started aff (pworkers p) @ drop (length aff) (pworkers p)\<rparr>)"
proof -
  from assms(1,2) have "\<forall>w \<in> set (pworkers p). worker_ok False w" by (auto simp: pool_ok_def in_set_conv_nth)
  with assms show ?thesis by (simp add: pool_start_def start_workers_idle pool_ok_def)
qed

lemma pool_end_ok:
  assumes "pool_ok m p"
  shows "pool_end p = Inr (p\<lparr>threadNum := 0, end_flag := True,
    pworkers := map finished (take (threadNum p) (pworkers p)) @ drop (threadNum p) (pworkers p)\<rparr>)"
proof -
  have "threadNum p \<le> length (pworkers p)" using assms by (simp add: pool_ok_def)
  with pool_ok_active [OF assms] show ?thesis by (simp add: pool_end_def end_workers_active)
qed

subsection \<open>The pool with its threads\<close>

text \<open>
  A step of a thread, or an operation of a client. An operation that throws leaves the pool as it
  was, and the client goes on; one that blocks does not return.
\<close>

inductive pstep :: "pool \<Rightarrow> pool res \<Rightarrow> bool" where
  thread_runs: "i < length (pworkers p) \<Longrightarrow> joinable (pworkers p ! i) \<Longrightarrow>
    thread_step (end_flag p) (pworkers p ! i) = Some w \<Longrightarrow> pstep p (Inr (p\<lparr>pworkers := (pworkers p)[i := w]\<rparr>))"
| client_pushes: "pstep p (pool_push t hash p)"
| client_starts: "pstep p (pool_start aff p)"
| client_starts_num: "pstep p (pool_start_num n p)"
| client_ends: "pstep p (pool_end p)"

definition pnext :: "pool \<Rightarrow> pool \<Rightarrow> bool" where
  "pnext p p' \<longleftrightarrow> pstep p (Inr p')"

lemma pool_start_keeps_ok: "pool_ok m p \<Longrightarrow> pool_start aff p = Inr p' \<Longrightarrow> pool_ok m p'"
proof -
  assume p: "pool_ok m p" "pool_start aff p = Inr p'"
  then have l: "0 < length aff" "length aff \<le> m" by (auto simp: pool_start_def pool_ok_def split: if_splits)
  with p pool_start_running have z: "threadNum p = 0" by fastforce
  from p pool_start_idle [OF p(1) z l] have p': "p' = p\<lparr>end_flag := False, threadNum := length aff,
    pworkers := map2 started aff (pworkers p) @ drop (length aff) (pworkers p)\<rparr>" by simp
  show "pool_ok m p'" using p(1) z l unfolding p'
    by (auto simp: pool_ok_def nth_append worker_ok_started)
qed

lemma pool_end_keeps_ok: "pool_ok m p \<Longrightarrow> pool_end p = Inr p' \<Longrightarrow> pool_ok m p'"
proof -
  assume p: "pool_ok m p" "pool_end p = Inr p'"
  then have "p' = p\<lparr>threadNum := 0, end_flag := True,
    pworkers := map finished (take (threadNum p) (pworkers p)) @ drop (threadNum p) (pworkers p)\<rparr>"
    by (simp add: pool_end_ok)
  moreover have "length (pworkers p) = m" "threadNum p \<le> m" using p(1) by (simp_all add: pool_ok_def)
  ultimately show "pool_ok m p'" using pool_ok_active [OF p(1)] pool_ok_idle [OF p(1)]
    by (auto simp: pool_ok_def nth_append worker_ok_finished min_def)
qed

lemma pstep_ok:
  assumes "pstep p (Inr p')" "pool_ok m p"
  shows "pool_ok m p'"
  using assms(1)
proof (cases rule: pstep.cases)
  case (thread_runs i w)
  then have i: "i < threadNum p" "end_flag p = False"
    using assms(2) by (auto simp: pool_ok_def worker_ok_def)
  then have "worker_ok True w" using thread_runs(4) pool_ok_active [OF assms(2) i(1)] worker_ok_step by simp
  with thread_runs(1) i assms(2) show ?thesis by (auto simp: pool_ok_def nth_list_update)
next
  case (client_pushes t hash)
  then have "threadNum p \<noteq> 0" by (auto simp: pool_push_def Let_def split: if_splits)
  from pool_push_ok [OF assms(2) this refl, of t hash] client_pushes assms(2) show ?thesis
    by (auto simp: pool_ok_def nth_list_update)
next
  case (client_starts aff)
  then show ?thesis by (intro pool_start_keeps_ok [OF assms(2)]) simp
next
  case (client_starts_num n)
  then have "pool_start (replicate n (-1)) p = Inr p'" by (simp add: pool_start_num_def split: if_splits)
  then show ?thesis by (rule pool_start_keeps_ok [OF assms(2)])
next
  case client_ends
  then show ?thesis by (intro pool_end_keeps_ok [OF assms(2)]) simp
qed

lemma pool_new_ok: "pool_ok m (pool_new m)"
  by (simp add: pool_ok_def pool_new_def worker_ok_def pworker_new_def tsq_new_def)

interpretation pools: started_steps pnext "pool_ok m" "\<lambda>p. p = pool_new m" for m
  by unfold_locales (auto simp: pnext_def intro: pool_new_ok pstep_ok)

subsection \<open>Properties\<close>

definition tasks :: "task list \<Rightarrow> task list" where
  "tasks ts = filter (\<lambda>t. t \<noteq> Noop) ts"

text \<open>A pool with two workers and three tasks, and the steps that lead to it.\<close>

lemma push_reach:
  fixes hash :: "32 word"
  assumes "pnext\<^sup>*\<^sup>* (pool_new m) p" "threadNum p \<noteq> 0"
  shows "\<exists>p'. pnext\<^sup>*\<^sup>* (pool_new m) p' \<and> threadNum p' = threadNum p \<and> (\<exists>ps. map w_pushed (pworkers p) = ps \<and>
    map w_pushed (pworkers p') = ps[unat hash mod threadNum p := ps ! (unat hash mod threadNum p) @ [Task t]])"
proof -
  from pool_push_ok [OF pools.reach_inv [OF refl assms(1)] assms(2) refl, of t hash] obtain w where
    w: "pool_push t hash p = Inr (p\<lparr>pworkers := (pworkers p)[unat hash mod threadNum p := w]\<rparr>)"
    "unat hash mod threadNum p < length (pworkers p)"
    "w_pushed w = w_pushed (pworkers p ! (unat hash mod threadNum p)) @ [Task t]" by auto
  let ?p = "p\<lparr>pworkers := (pworkers p)[unat hash mod threadNum p := w]\<rparr>"
  have "pnext p ?p" using client_pushes [of p t hash] w(1) by (simp add: pnext_def)
  with assms(1) have "pnext\<^sup>*\<^sup>* (pool_new m) ?p" by (rule rtranclp.rtrancl_into_rtrancl)
  with w(2,3) show ?thesis by (intro exI [of _ ?p]) (simp add: map_update)
qed

lemma pool_demo:
  "\<exists>p. pnext\<^sup>*\<^sup>* (pool_new 2) p \<and> threadNum p = 2 \<and> map w_pushed (pworkers p) = [[Task 10], [Task 11, Task 13]]"
proof -
  from pool_start_idle [OF pool_new_ok, of 2 "[0, -1]"] obtain p1 where
    "pool_start [0, -1] (pool_new 2) = Inr p1" and p1: "threadNum p1 = 2" "map w_pushed (pworkers p1) = [[], []]"
    by (simp add: pool_new_def eval_nat_numeral started_def pworker_new_def)
  then have "pnext (pool_new 2) p1" using client_starts [of "pool_new 2" "[0, -1]"] by (simp add: pnext_def)
  then have r1: "pnext\<^sup>*\<^sup>* (pool_new 2) p1" by blast
  from push_reach [OF r1, of 0 10] p1 obtain p2 where
    p2: "pnext\<^sup>*\<^sup>* (pool_new 2) p2" "threadNum p2 = 2" "map w_pushed (pworkers p2) = [[Task 10], []]" by auto
  from push_reach [OF p2(1), of 7 11] p2(2,3) obtain p3 where
    p3: "pnext\<^sup>*\<^sup>* (pool_new 2) p3" "threadNum p3 = 2" "map w_pushed (pworkers p3) = [[Task 10], [Task 11]]" by auto
  from push_reach [OF p3(1), of 7 13] p3(2,3) show ?thesis by auto
qed

text \<open>C16. Every pool that threads and clients reach is well typed: its first \<open>threadNum\<close> workers and only
  these have a thread, and each worker's queue holds what was pushed to it and not yet executed.
  And every operation then ends in a pool, with an exception, or, only when threads run, blocks:
  no index is out of range and no mutex is left locked.\<close>

theorem reachable_pools_are_well_typed:
  assumes "pnext\<^sup>*\<^sup>* (pool_new m) p" "pstep p r"
  shows "pool_ok m p \<and> (case r of Inr p' \<Rightarrow> pool_ok m p' | Inl (Throw x) \<Rightarrow> True | Inl Hang \<Rightarrow> threadNum p \<noteq> 0 | _ \<Rightarrow> False)"
proof -
  have ok: "pool_ok m p" by (rule pools.reach_inv [OF refl assms(1)])
  have start: "case pool_start aff p of Inr p' \<Rightarrow> pool_ok m p' | Inl (Throw x) \<Rightarrow> True | Inl Hang \<Rightarrow> threadNum p \<noteq> 0 | _ \<Rightarrow> False" for aff
  proof (cases "0 < length aff \<and> length aff \<le> m")
    case True
    with pool_start_running [OF ok] pool_start_idle [OF ok] pool_start_keeps_ok [OF ok, of aff]
    show ?thesis by (cases "threadNum p = 0") auto
  qed (use ok in \<open>auto simp: pool_start_def pool_ok_def\<close>)
  from assms(2) show ?thesis
  proof (cases rule: pstep.cases)
    case (thread_runs i w)
    then show ?thesis using pstep_ok [OF _ ok] assms(2) ok by auto
  next
    case (client_pushes t hash)
    show ?thesis
    proof (cases "threadNum p = 0")
      case False
      from pool_push_ok [OF ok this refl, of t hash] client_pushes obtain p' where "r = Inr p'" by auto
      with pstep_ok [OF _ ok] assms(2) ok show ?thesis by auto
    qed (use client_pushes ok in \<open>simp add: pool_push_def\<close>)
  next
    case (client_starts aff)
    with start ok show ?thesis by simp
  next
    case (client_starts_num n)
    with start [of "replicate n (-1)"] ok show ?thesis by (simp add: pool_start_num_def)
  next
    case client_ends
    with pool_end_ok [OF ok] pool_end_keeps_ok [OF ok] ok show ?thesis by simp
  qed
qed

theorem reachable_pools_are_well_typed_witness:
  "\<exists>p. threadNum p = 2 \<and> pool_ok 2 p"
proof -
  from pool_demo obtain p where p: "pnext\<^sup>*\<^sup>* (pool_new 2) p" "threadNum p = 2" by blast
  with reachable_pools_are_well_typed [OF p(1) client_ends] show ?thesis by blast
qed

text \<open>\<open>end\<close>, as one step, always returns, and by then every task that was ever pushed was executed, each worker's
  in the order they were pushed, and no thread is left.\<close>

theorem end_executes_every_task:
  assumes "pnext\<^sup>*\<^sup>* (pool_new m) p"
  shows "\<exists>p'. pool_end p = Inr p' \<and> threadNum p' = 0 \<and> length (pworkers p') = m \<and>
    (\<forall>i < m. \<not> joinable (pworkers p' ! i) \<and> tq_items (w_queue (pworkers p' ! i)) = [] \<and>
       tasks (w_ran (pworkers p' ! i)) = tasks (w_pushed (pworkers p ! i)))"
proof -
  have ok: "pool_ok m p" by (rule pools.reach_inv [OF refl assms])
  let ?ws = "map finished (take (threadNum p) (pworkers p)) @ drop (threadNum p) (pworkers p)"
  have l: "length (pworkers p) = m" "threadNum p \<le> m" using ok by (simp_all add: pool_ok_def)
  have "\<not> joinable (?ws ! i) \<and> tq_items (w_queue (?ws ! i)) = [] \<and> tasks (w_ran (?ws ! i)) = tasks (w_pushed (pworkers p ! i))"
    if "i < m" for i
  proof (cases "i < threadNum p")
    case True
    then show ?thesis using l by (simp add: nth_append finished_def tasks_def)
  next
    case False
    with pool_ok_idle [OF ok _ that] l that show ?thesis by (auto simp: nth_append worker_ok_def min_def)
  qed
  with pool_end_ok [OF ok] l show ?thesis by simp
qed

text \<open>So the destructor of a pool joins every thread and never ends the program.\<close>

lemma destructor_joins_all:
  assumes "pnext\<^sup>*\<^sup>* (pool_new m) p"
  shows "\<exists>p'. pool_end p = Inr p' \<and> pool_destroy p = Inr (pworkers p')"
proof -
  from end_executes_every_task [OF assms] obtain p' where
    "pool_end p = Inr p'" "length (pworkers p') = m" "\<forall>i < m. \<not> joinable (pworkers p' ! i)" by blast
  then show ?thesis by (auto simp: pool_destroy_def in_set_conv_nth)
qed

text \<open>A CPU number of 1024 or more binds the thread to nothing: the kernel refuses the empty set.\<close>

lemma setAffinity_out_of_range: "f {} \<noteq> 0 \<Longrightarrow> CPU_SETSIZE \<le> c \<Longrightarrow> setAffinity f c = None"
  by (simp add: setAffinity_def)

theorem end_executes_every_task_witness:
  "\<exists>p p'. pool_end p = Inr p' \<and> map (\<lambda>w. tasks (w_ran w)) (pworkers p') = [[Task 10], [Task 11, Task 13]]"
proof -
  from pool_demo obtain p where p: "pnext\<^sup>*\<^sup>* (pool_new 2) p" "map w_pushed (pworkers p) = [[Task 10], [Task 11, Task 13]]"
    by (elim exE conjE) (rule that)
  from end_executes_every_task [OF p(1)] obtain p' where p': "pool_end p = Inr p'" "length (pworkers p') = 2"
    "\<forall>i < 2. \<not> joinable (pworkers p' ! i) \<and> tq_items (w_queue (pworkers p' ! i)) = [] \<and>
       tasks (w_ran (pworkers p' ! i)) = tasks (w_pushed (pworkers p ! i))" by (elim exE conjE) (rule that)
  obtain a b where ab: "pworkers p = [a, b]" "w_pushed a = [Task 10]" "w_pushed b = [Task 11, Task 13]" using p(2) by auto
  obtain c d where cd: "pworkers p' = [c, d]" using p'(2) by (auto simp: length_Suc_conv eval_nat_numeral)
  from p'(3) have "tasks (w_ran c) = tasks (w_pushed a)" "tasks (w_ran d) = tasks (w_pushed b)"
    by (auto simp: ab(1) cd dest: spec [of _ 0] spec [of _ 1])
  with p'(1) ab cd show ?thesis by (intro exI [of _ p] exI [of _ p']) (simp add: tasks_def)
qed

text \<open>A task goes to the worker with the number \<open>hash % threadNum\<close>, which exists and runs, so tasks
  with the same hash are executed in the order they are pushed; with no worker \<open>push\<close> throws
  \<open>logic_error\<close>.\<close>

theorem push_picks_worker_by_hash:
  assumes "pnext\<^sup>*\<^sup>* (pool_new m) p"
  shows "if threadNum p = 0 then pool_push t hash p = Inl (Throw ''logic_error'')
    else \<exists>p'. pool_push t hash p = Inr p' \<and> threadNum p' = threadNum p \<and> unat hash mod threadNum p < m \<and>
      (\<forall>i < m. if i = unat hash mod threadNum p
         then joinable (pworkers p ! i) \<and> w_pushed (pworkers p' ! i) = w_pushed (pworkers p ! i) @ [Task t]
         else pworkers p' ! i = pworkers p ! i)"
proof (cases "threadNum p = 0")
  case False
  have ok: "pool_ok m p" by (rule pools.reach_inv [OF refl assms])
  from pool_push_ok [OF ok False refl, of t hash] ok False pool_ok_active(2) [OF ok] show ?thesis
    by (auto simp: pool_ok_def worker_ok_def)
qed (simp add: pool_push_def)

theorem push_picks_worker_by_hash_witness:
  "\<exists>p p'. threadNum p = 2 \<and> pool_push 14 7 p = Inr p' \<and> w_pushed (pworkers p' ! 1) = w_pushed (pworkers p ! 1) @ [Task 14] \<and>
     pworkers p' ! 0 = pworkers p ! 0"
proof -
  from pool_demo obtain p where p: "pnext\<^sup>*\<^sup>* (pool_new 2) p" "threadNum p = 2" by blast
  have h: "unat (7 :: 32 word) mod 2 = 1" by simp
  from push_picks_worker_by_hash [OF p(1), of 14 7] p(2) obtain p' where p': "pool_push 14 7 p = Inr p'"
    "\<forall>i < 2. if i = unat (7 :: 32 word) mod 2
       then joinable (pworkers p ! i) \<and> w_pushed (pworkers p' ! i) = w_pushed (pworkers p ! i) @ [Task 14]
       else pworkers p' ! i = pworkers p ! i" by auto
  from p'(2) h have "w_pushed (pworkers p' ! 1) = w_pushed (pworkers p ! 1) @ [Task 14]" "pworkers p' ! 0 = pworkers p ! 0"
    by (auto dest: spec [of _ 1] spec [of _ 0])
  with p(2) p'(1) show ?thesis by blast
qed

text \<open>C26. \<open>start\<close> on a pool that is stopped starts one thread for each entry of the affinity list and
  pins those with an entry that is not negative. On a pool that runs it never returns: it clears
  the flag before it joins the threads that are there, which then never end.\<close>

theorem start_needs_a_stopped_pool:
  assumes "pnext\<^sup>*\<^sup>* (pool_new m) p" "0 < length aff" "length aff \<le> m"
  shows "if threadNum p = 0
    then \<exists>p'. pool_start aff p = Inr p' \<and> threadNum p' = length aff \<and> \<not> end_flag p' \<and>
      (\<forall>i < length aff. joinable (pworkers p' ! i) \<and>
         pinned (pworkers p' ! i) = (if 0 \<le> aff ! i then Some (aff ! i) else None))
    else pool_start aff p = Inl Hang"
proof -
  have ok: "pool_ok m p" by (rule pools.reach_inv [OF refl assms(1)])
  show ?thesis
  proof (cases "threadNum p = 0")
    case True
    have "length (pworkers p) = m" using ok by (simp add: pool_ok_def)
    with pool_start_idle [OF ok True assms(2,3)] True assms(3) show ?thesis
      by (auto simp: nth_append started_def)
  qed (use pool_start_running [OF ok] assms(2,3) in simp)
qed

theorem start_needs_a_stopped_pool_witness:
  "\<exists>p p'. pool_start [3, -1] (pool_new 2) = Inr p' \<and> pinned (pworkers p' ! 0) = Some 3 \<and>
     threadNum p = 2 \<and> pool_start [3, -1] p = Inl Hang"
proof -
  from pool_demo obtain p where p: "pnext\<^sup>*\<^sup>* (pool_new 2) p" "threadNum p = 2" by blast
  with start_needs_a_stopped_pool [OF p(1), of "[3, -1]"] have "pool_start [3, -1] p = Inl Hang" by simp
  moreover from start_needs_a_stopped_pool [of 2 "pool_new 2" "[3, -1]"] obtain p' where
    "pool_start [3, -1] (pool_new 2) = Inr p'" "pinned (pworkers p' ! 0) = Some 3"
    by (auto simp: pool_new_def)
  ultimately show ?thesis using p(2) by blast
qed

end
