(* ===== verification/PoolEnd.thy ===== *)
theory PoolEnd
  imports ThreadPool
begin

section \<open>The end of the thread pool, step by step\<close>

text \<open>
  In \<open>ThreadPool\<close> an operation of the pool is one step. Here \<open>end\<close> is taken apart: it takes \<open>_mtx\<close>,
  clears \<open>_threadNum\<close> and sets the flag, and then pushes an empty task to one worker after the other
  and joins its thread, while the threads go on. A task may itself call \<open>push\<close> of the pool
  (\<open>pushes t\<close> says with which task and hash): its thread then is in that call, \<open>calls\<close>, until it
  gets \<open>_mtx\<close> shared. \<open>start\<close> is a step on a stopped pool only; on a running one it never returns, as
  \<open>ThreadPool\<close> shows.
\<close>

type_synonym call = "(nat \<times> 32 word) option"

datatype end_pc =
    E_off                  \<comment> \<open>nobody is in \<open>end\<close>\<close>
  | E_push nat nat         \<comment> \<open>about to end worker \<open>k\<close> of \<open>n\<close>\<close>
  | E_join nat nat         \<comment> \<open>in the \<open>join\<close> of worker \<open>k\<close> of \<open>n\<close>\<close>

record epool =
  ep :: pool
  calls :: "call list"
  ender :: end_pc

abbreviation wk :: "epool \<Rightarrow> nat \<Rightarrow> pworker" where
  "wk s i \<equiv> pworkers (ep s) ! i"

definition set_wk :: "nat \<Rightarrow> pworker \<Rightarrow> pool \<Rightarrow> pool" where
  "set_wk i w p = p\<lparr>pworkers := (pworkers p)[i := w]\<rparr>"

text \<open>The call a thread is in after a step from \<open>w\<close> to \<open>w'\<close>: that of the task it has taken, if any.\<close>

definition starts_call :: "(nat \<Rightarrow> call) \<Rightarrow> pworker \<Rightarrow> pworker \<Rightarrow> call" where
  "starts_call pushes w w' =
     (if length (w_ran w) < length (w_ran w')
      then (case last (w_ran w') of Task t \<Rightarrow> pushes t | Noop \<Rightarrow> None) else None)"

inductive estep :: "(nat \<Rightarrow> call) \<Rightarrow> epool \<Rightarrow> epool \<Rightarrow> bool" for pushes where
  e_thread: "i < length (pworkers (ep s)) \<Longrightarrow> joinable (wk s i) \<Longrightarrow> calls s ! i = None \<Longrightarrow>
    thread_step (end_flag (ep s)) (wk s i) = Some w \<Longrightarrow>
    estep pushes s (s\<lparr>ep := set_wk i w (ep s), calls := (calls s)[i := starts_call pushes (wk s i) w]\<rparr>)"
| e_task_pushes: "i < length (calls s) \<Longrightarrow> calls s ! i = Some (t, h) \<Longrightarrow> ender s = E_off \<Longrightarrow>
    pool_push t h (ep s) = Inr p \<Longrightarrow> estep pushes s (s\<lparr>ep := p, calls := (calls s)[i := None]\<rparr>)"
| e_client_pushes: "ender s = E_off \<Longrightarrow> pool_push t h (ep s) = Inr p \<Longrightarrow> estep pushes s (s\<lparr>ep := p\<rparr>)"
| e_client_starts: "ender s = E_off \<Longrightarrow> threadNum (ep s) = 0 \<Longrightarrow> pool_start aff (ep s) = Inr p \<Longrightarrow>
    estep pushes s (s\<lparr>ep := p\<rparr>)"
| e_begins: "ender s = E_off \<Longrightarrow>
    estep pushes s (s\<lparr>ep := (ep s)\<lparr>threadNum := 0, end_flag := True\<rparr>, ender := E_push 0 (threadNum (ep s))\<rparr>)"
| e_pushes: "ender s = E_push k n \<Longrightarrow> k < n \<Longrightarrow> joinable (wk s k) \<Longrightarrow> worker_push Noop (wk s k) = Inr w \<Longrightarrow>
    estep pushes s (s\<lparr>ep := set_wk k w (ep s), ender := E_join k n\<rparr>)"
| e_skips: "ender s = E_push k n \<Longrightarrow> k < n \<Longrightarrow> \<not> joinable (wk s k) \<Longrightarrow>
    estep pushes s (s\<lparr>ender := E_push (Suc k) n\<rparr>)"
| e_joins: "ender s = E_join k n \<Longrightarrow> w_pc (wk s k) = P_done \<Longrightarrow>
    estep pushes s (s\<lparr>ep := set_wk k ((wk s k)\<lparr>joinable := False\<rparr>) (ep s), ender := E_push (Suc k) n\<rparr>)"
| e_returns: "ender s = E_push n n \<Longrightarrow> estep pushes s (s\<lparr>ender := E_off\<rparr>)"

definition epool_new :: "nat \<Rightarrow> epool" where
  "epool_new m = \<lparr>ep = pool_new m, calls = replicate m None, ender = E_off\<rparr>"

subsection \<open>The invariant\<close>

text \<open>
  For one worker: whether it has a thread, whether \<open>end\<close> is in its \<open>join\<close>, and whether its thread is
  in a call of \<open>push\<close>. A worker whose thread is through may keep an empty task in its queue.
\<close>

definition eworker_ok :: "bool \<Rightarrow> bool \<Rightarrow> bool \<Rightarrow> bool \<Rightarrow> pworker \<Rightarrow> bool" where
  "eworker_ok flag active joining calling w \<longleftrightarrow>
     \<not> tq_locked (w_queue w) \<and> w_pushed w = w_ran w @ tq_items (w_queue w) \<and> joinable w = active \<and>
     (active \<and> \<not> flag \<longrightarrow> w_pc w \<in> {P_loop, P_pop}) \<and> (\<not> active \<longrightarrow> w_pc w = P_done) \<and>
     (w_pc w = P_done \<longrightarrow> set (tq_items (w_queue w)) \<subseteq> {Noop}) \<and>
     (w_pc w = P_drain_pop \<longrightarrow> tq_items (w_queue w) \<noteq> []) \<and>
     (calling \<longrightarrow> active \<and> w_pc w \<in> {P_loop, P_drain}) \<and>
     (joining \<longrightarrow> flag \<and> (w_pc w = P_pop \<longrightarrow> tq_items (w_queue w) \<noteq> []))"

fun active_from :: "end_pc \<Rightarrow> nat \<Rightarrow> nat \<times> nat" where
  "active_from E_off n = (0, n)"
| "active_from (E_push k n) _ = (k, n)"
| "active_from (E_join k n) _ = (k, n)"

definition active :: "epool \<Rightarrow> nat \<Rightarrow> bool" where
  "active s i \<longleftrightarrow> (case active_from (ender s) (threadNum (ep s)) of (k, n) \<Rightarrow> k \<le> i \<and> i < n)"

definition joining :: "epool \<Rightarrow> nat \<Rightarrow> bool" where
  "joining s i \<longleftrightarrow> (\<exists>n. ender s = E_join i n)"

fun ender_ok :: "nat \<Rightarrow> bool \<Rightarrow> nat \<Rightarrow> end_pc \<Rightarrow> bool" where
  "ender_ok m flag tn E_off = (flag = (tn = 0))"
| "ender_ok m flag tn (E_push k n) = (k \<le> n \<and> n \<le> m \<and> flag \<and> tn = 0)"
| "ender_ok m flag tn (E_join k n) = (k < n \<and> n \<le> m \<and> flag \<and> tn = 0)"

definition einv :: "nat \<Rightarrow> epool \<Rightarrow> bool" where
  "einv m s \<longleftrightarrow> length (pworkers (ep s)) = m \<and> length (calls s) = m \<and> threadNum (ep s) \<le> m \<and>
     ender_ok m (end_flag (ep s)) (threadNum (ep s)) (ender s) \<and>
     (\<forall>i < m. eworker_ok (end_flag (ep s)) (active s i) (joining s i) (calls s ! i \<noteq> None) (wk s i))"

lemma einv_worker:
  "einv m s \<Longrightarrow> i < m \<Longrightarrow> eworker_ok (end_flag (ep s)) (active s i) (joining s i) (calls s ! i \<noteq> None) (wk s i)"
  by (simp add: einv_def)

lemma starts_call_pc:
  "thread_step f w = Some w' \<Longrightarrow> starts_call pushes w w' \<noteq> None \<Longrightarrow> w_pc w' \<in> {P_loop, P_drain}"
  by (cases "w_pc w") (auto simp: thread_step_def run_front_Some drain_test_Some starts_call_def)

lemma eworker_ok_thread:
  assumes "thread_step f w = Some w'" "eworker_ok f True j c w" "c' \<longrightarrow> w_pc w' \<in> {P_loop, P_drain}"
  shows "eworker_ok f True j c' w'"
  using assms by (cases "w_pc w"; cases f) (auto simp: thread_step_def run_front_Some drain_test_Some eworker_ok_def)

lemma worker_push_items:
  "worker_push t w = Inr w' \<Longrightarrow> w' = w\<lparr>w_queue := (w_queue w)\<lparr>tq_items := tq_items (w_queue w) @ [t]\<rparr>, w_pushed := w_pushed w @ [t]\<rparr>"
  by (cases "tq_locked (w_queue w)") (auto simp: worker_push_def push_back_def lock_def unlock_def outcome_iffs)

lemma eworker_ok_push: "eworker_ok False True j c w \<Longrightarrow> worker_push t w = Inr w' \<Longrightarrow> eworker_ok False True j c w'"
  by (auto simp: eworker_ok_def dest!: worker_push_items)

lemma eworker_ok_Noop: "eworker_ok True True j c w \<Longrightarrow> worker_push Noop w = Inr w' \<Longrightarrow> eworker_ok True True True c w'"
  by (auto simp: eworker_ok_def dest!: worker_push_items)

lemma eworker_ok_idle: "eworker_ok True False j c w \<Longrightarrow> \<not> joinable w \<and> worker_ok False (w\<lparr>w_queue := (w_queue w)\<lparr>tq_items := []\<rparr>, w_ran := w_pushed w\<rparr>)"
  by (auto simp: eworker_ok_def worker_ok_def)

lemma start_workers_unjoinable:
  "\<forall>w \<in> set ws. \<not> joinable w \<Longrightarrow> length aff \<le> length ws \<Longrightarrow>
   start_workers f aff ws = Inr (map2 started aff ws @ drop (length aff) ws)"
proof (induction aff arbitrary: ws)
  case (Cons a aff)
  then obtain w ws' where "ws = w # ws'" by (cases ws) auto
  with Cons show ?case by (simp add: worker_start_def worker_end_def started_def)
qed simp

lemma eworker_ok_started: "eworker_ok True False j c w \<Longrightarrow> eworker_ok False True False c' (started a w) = (\<not> tq_locked (w_queue w) \<and> w_pushed w = w_ran w @ tq_items (w_queue w))"
  by (auto simp: eworker_ok_def started_def)

lemma pool_push_Inr:
  "pool_push t h p = Inr p' \<Longrightarrow> \<exists>i w. i < threadNum p \<and> i < length (pworkers p) \<and> worker_push (Task t) (pworkers p ! i) = Inr w \<and>
     p' = set_wk i w p"
  by (rule exI [of _ "unat h mod threadNum p"]) (auto simp: pool_push_def set_wk_def Let_def outcome_iffs split: if_splits)

lemma einv_update:
  assumes "einv m s" "i < m" "eworker_ok (end_flag (ep s)) (active s i) (joining s i) (c \<noteq> None) w"
  shows "einv m (s\<lparr>ep := set_wk i w (ep s), calls := (calls s)[i := c]\<rparr>)"
  using assms by (auto simp: einv_def set_wk_def active_def joining_def nth_list_update)

lemma einv_push:
  assumes "einv m s" "ender s = E_off" "pool_push t h (ep s) = Inr p"
  shows "einv m (s\<lparr>ep := p\<rparr>)"
proof -
  from pool_push_Inr [OF assms(3)] obtain i w where i: "i < threadNum (ep s)" "i < length (pworkers (ep s))"
    "worker_push (Task t) (wk s i) = Inr w" "p = set_wk i w (ep s)" by blast
  then have "i < m" "\<not> end_flag (ep s)" "active s i" "length (calls s) = m" using assms(1,2) by (auto simp: einv_def active_def)
  with einv_update [OF assms(1), of i "calls s ! i" w] einv_worker [OF assms(1), of i] eworker_ok_push [OF _ i(3)] i(4)
  show ?thesis by (simp add: list_update_id)
qed

lemma einv_start:
  assumes "einv m s" "ender s = E_off" "threadNum (ep s) = 0" "pool_start aff (ep s) = Inr p"
  shows "einv m (s\<lparr>ep := p\<rparr>)"
proof -
  have f: "length (pworkers (ep s)) = m" "end_flag (ep s)" using assms(1-3) by (simp_all add: einv_def)
  have idle: "eworker_ok True False (joining s i) (calls s ! i \<noteq> None) (wk s i)" if "i < m" for i
    using einv_worker [OF assms(1) that] f(2) assms(2,3) by (simp add: active_def)
  then have "\<forall>w \<in> set (pworkers (ep s)). \<not> joinable w" using f(1) by (auto simp: in_set_conv_nth eworker_ok_def)
  moreover have l: "0 < length aff" "length aff \<le> m" using assms(4) f(1) by (auto simp: pool_start_def split: if_splits)
  ultimately have p: "p = (ep s)\<lparr>end_flag := False, pworkers := map2 started aff (pworkers (ep s)) @ drop (length aff) (pworkers (ep s)),
      threadNum := length aff\<rparr>"
    using assms(4) f(1) start_workers_unjoinable [of "pworkers (ep s)" aff False]
    by (simp add: pool_start_def del: start_workers.simps)
  have "eworker_ok False (i < length aff) (joining s i) (calls s ! i \<noteq> None) (pworkers p ! i)" if "i < m" for i
    using idle [OF that] that l f(1) assms(2) p
    by (auto simp: nth_append eworker_ok_def started_def joining_def)
  with assms(1,2) l f(1) p show ?thesis by (auto simp: einv_def active_def joining_def)
qed

lemma estep_einv:
  assumes "estep pushes s s'" "einv m s"
  shows "einv m s'"
  using assms(1)
proof (cases rule: estep.cases)
  case (e_thread i w)
  have i: "i < m" "active s i" using e_thread assms(2) by (auto simp: einv_def eworker_ok_def)
  with einv_worker [OF assms(2) i(1)] eworker_ok_thread [OF e_thread(5)] starts_call_pc [OF e_thread(5), of pushes]
  have "eworker_ok (end_flag (ep s)) (active s i) (joining s i) (starts_call pushes (wk s i) w \<noteq> None) w" by simp
  with einv_update [OF assms(2) i(1)] e_thread(1) show ?thesis by simp
next
  case (e_task_pushes i t h p)
  have e: "einv m (s\<lparr>ep := p\<rparr>)" by (rule einv_push [OF assms(2) e_task_pushes(4,5)])
  have "i < m" using e_task_pushes(2) assms(2) by (simp add: einv_def)
  with einv_worker [OF e] have "eworker_ok (end_flag p) (active (s\<lparr>ep := p\<rparr>) i) (joining (s\<lparr>ep := p\<rparr>) i) False (pworkers p ! i)"
    by (auto simp: eworker_ok_def)
  with einv_update [OF e \<open>i < m\<close>, of None "pworkers p ! i"] e_task_pushes(1) show ?thesis
    by (simp add: set_wk_def)
next
  case (e_client_pushes t h p)
  with einv_push assms(2) show ?thesis by blast
next
  case (e_client_starts aff p)
  with einv_start assms(2) show ?thesis by blast
next
  case e_begins
  have "eworker_ok True (active s i) False (calls s ! i \<noteq> None) (wk s i)" if "i < m" for i
    using einv_worker [OF assms(2) that] by (auto simp: eworker_ok_def)
  with e_begins assms(2) show ?thesis by (auto simp: einv_def active_def joining_def)
next
  case (e_pushes k n w)
  have k: "k < m" "active s k" "end_flag (ep s)" using e_pushes assms(2) by (auto simp: einv_def active_def)
  have ek: "eworker_ok True True True (calls s ! k \<noteq> None) w"
    using eworker_ok_Noop [OF _ e_pushes(5)] einv_worker [OF assms(2) k(1)] k by simp
  have "eworker_ok True (k \<le> i \<and> i < n) False (calls s ! i \<noteq> None) (wk s i)" if "i < m" "i \<noteq> k" for i
    using einv_worker [OF assms(2) that(1)] k(3) e_pushes(2) by (auto simp: active_def joining_def)
  with ek e_pushes assms(2) k show ?thesis
    by (auto simp: einv_def set_wk_def active_def joining_def nth_list_update)
next
  case (e_skips k n)
  then have "active s k" "k < m" using assms(2) by (auto simp: einv_def active_def)
  with einv_worker [OF assms(2)] e_skips(4) show ?thesis by (auto simp: eworker_ok_def)
next
  case (e_joins k n)
  have k: "k < m" "k < n" "end_flag (ep s)" using e_joins assms(2) by (auto simp: einv_def)
  have ek: "eworker_ok True False False (calls s ! k \<noteq> None) ((wk s k)\<lparr>joinable := False\<rparr>)"
    using einv_worker [OF assms(2) k(1)] k(3) e_joins(3) by (auto simp: eworker_ok_def)
  have "eworker_ok True (k \<le> i \<and> i < n) False (calls s ! i \<noteq> None) (wk s i)" if "i < m" "i \<noteq> k" for i
    using einv_worker [OF assms(2) that(1)] that k(3) e_joins(2) by (auto simp: active_def joining_def eworker_ok_def)
  moreover have "(Suc k \<le> i \<and> i < n) = (k \<le> i \<and> i < n)" if "i \<noteq> k" for i using that by linarith
  ultimately have "eworker_ok True (Suc k \<le> i \<and> i < n) False (calls s ! i \<noteq> None) (wk s i)" if "i < m" "i \<noteq> k" for i
    using that by simp
  with ek e_joins assms(2) k show ?thesis
    by (auto simp: einv_def set_wk_def active_def joining_def nth_list_update)
next
  case (e_returns n)
  have "eworker_ok True False False (calls s ! i \<noteq> None) (wk s i)" if "i < m" for i
  proof -
    have "\<not> active s i" "\<not> joining s i" "end_flag (ep s)" using e_returns(2) assms(2) by (auto simp: active_def joining_def einv_def)
    with einv_worker [OF assms(2) that] show ?thesis by simp
  qed
  then show ?thesis using assms(2) e_returns by (auto simp: einv_def active_def joining_def)
qed

lemma epool_new_einv: "einv m (epool_new m)"
  by (simp add: einv_def epool_new_def pool_new_def eworker_ok_def pworker_new_def tsq_new_def active_def joining_def)

interpretation pool_threads: started_steps "estep pushes" "einv m" "\<lambda>s. s = epool_new m" for pushes m
  by unfold_locales (auto intro: estep_einv epool_new_einv)

subsection \<open>A task that pushes while the pool ends\<close>

text \<open>A thread in a call of \<open>push\<close> does not go on before \<open>end\<close> has returned, nor \<open>end\<close> before it.\<close>

definition stuck :: "nat \<Rightarrow> nat \<Rightarrow> call \<Rightarrow> epool \<Rightarrow> bool" where
  "stuck m i c s \<longleftrightarrow> einv m s \<and> ender s \<noteq> E_off \<and> i < m \<and> c \<noteq> None \<and> calls s ! i = c"

lemma estep_stuck:
  assumes "estep pushes s s'" "stuck m i c s"
  shows "stuck m i c s'"
proof -
  have e: "einv m s'" using estep_einv assms by (auto simp: stuck_def)
  have l: "length (calls s) = m" using assms(2) by (simp add: stuck_def einv_def)
  have w: "joinable (wk s i)" "active s i" "w_pc (wk s i) \<noteq> P_done"
    using einv_worker [of m s i] assms(2) by (auto simp: stuck_def eworker_ok_def)
  from assms(1) have "ender s' \<noteq> E_off \<and> calls s' ! i = c"
  proof (cases rule: estep.cases)
    case (e_thread k v)
    then show ?thesis using assms(2) by (cases "k = i") (auto simp: stuck_def)
  next
    case (e_joins k n)
    then show ?thesis using w assms(2) by (cases "k = i") (auto simp: stuck_def)
  next
    case (e_returns n)
    then show ?thesis using w by (auto simp: active_def)
  qed (use assms(2) in \<open>auto simp: stuck_def\<close>)
  with e assms(2) show ?thesis by (simp add: stuck_def)
qed

interpretation stuck_push: safe_steps "estep pushes" "stuck m i c" for pushes m i c
  by unfold_locales (auto intro: estep_stuck)

subsection \<open>Without such tasks\<close>

fun end_rank :: "end_pc \<Rightarrow> nat" where
  "end_rank E_off = 0"
| "end_rank (E_push k n) = 6 * (n - k) + 1"
| "end_rank (E_join k n) = 6 * (n - k) - 4"

definition epool_rank :: "epool \<Rightarrow> nat" where
  "epool_rank s = (\<Sum>w \<leftarrow> pworkers (ep s). thread_rank w) + end_rank (ender s)"

lemma quiet_step:
  "estep (\<lambda>_. None) s s' \<Longrightarrow> set (calls s) \<subseteq> {None} \<Longrightarrow> set (calls s') \<subseteq> {None}"
proof (induction rule: estep.induct)
  case (e_thread i s w)
  have "starts_call (\<lambda>_. None) (wk s i) w = None" by (auto simp: starts_call_def split: task.splits)
  with e_thread show ?case using set_update_subset_insert [of "calls s" i None] by auto
next
  case (e_task_pushes i s t h p)
  then show ?case using set_update_subset_insert [of "calls s" i None] by auto
qed auto

lemma end_rank_decreases:
  assumes "estep pushes s s'" "einv m s" "ender s \<noteq> E_off"
  shows "epool_rank s' < epool_rank s"
  using assms(1)
proof (cases rule: estep.cases)
  case (e_thread i w)
  with sum_list_update_eq [of i "pworkers (ep s)" thread_rank w] thread_step_rank [OF e_thread(5)] show ?thesis
    by (simp add: epool_rank_def set_wk_def)
next
  case (e_pushes k n w)
  have "k < length (pworkers (ep s))" using e_pushes assms(2) by (auto simp: einv_def)
  with sum_list_update_eq [of k "pworkers (ep s)" thread_rank w] worker_push_items [OF e_pushes(5)] e_pushes(2,3) show ?thesis
    by (simp add: epool_rank_def set_wk_def e_pushes(1) thread_rank_def)
next
  case (e_skips k n)
  then show ?thesis by (simp add: epool_rank_def)
next
  case (e_joins k n)
  have "k < n" "k < length (pworkers (ep s))" using e_joins assms(2) by (auto simp: einv_def)
  with sum_list_update_eq [of k "pworkers (ep s)" thread_rank "(wk s k)\<lparr>joinable := False\<rparr>"] e_joins(2) show ?thesis
    by (simp add: epool_rank_def set_wk_def e_joins(1) thread_rank_def)
qed (use assms(3) in \<open>auto simp: epool_rank_def\<close>)

lemma end_goes_on:
  assumes "einv m s" "ender s \<noteq> E_off" "set (calls s) \<subseteq> {None}"
  shows "\<exists>s'. estep pushes s s'"
proof (cases "ender s")
  case (E_push k n)
  show ?thesis
  proof (cases "k = n")
    case True
    with E_push e_returns show ?thesis by blast
  next
    case False
    then have "k < n" "k < m" "active s k" using assms(1) E_push by (auto simp: einv_def active_def)
    moreover from this einv_worker [OF assms(1), of k] have "joinable (wk s k)" "\<not> tq_locked (w_queue (wk s k))"
      by (auto simp: eworker_ok_def)
    moreover from this have "\<exists>w. worker_push Noop (wk s k) = Inr w" by (simp add: worker_push_def)
    ultimately show ?thesis using E_push e_pushes by blast
  qed
next
  case (E_join k n)
  then have k: "k < m" "k < length (pworkers (ep s))" "end_flag (ep s)" "active s k" "joining s k" "k < length (calls s)"
    using assms(1) by (auto simp: einv_def active_def joining_def)
  with assms(3) have "calls s ! k = None" using nth_mem by blast
  moreover from einv_worker [OF assms(1) k(1)] k have ok: "eworker_ok True True True (calls s ! k \<noteq> None) (wk s k)" by simp
  moreover have "\<exists>w. thread_step True (wk s k) = Some w" if "w_pc (wk s k) \<noteq> P_done"
    using that ok by (cases "w_pc (wk s k)"; cases "tq_items (w_queue (wk s k))")
      (auto simp: thread_step_def run_front_def eworker_ok_def)
  ultimately show ?thesis
    using e_thread [of k s] e_joins [OF E_join] k by (cases "w_pc (wk s k) = P_done") (auto simp: eworker_ok_def)
qed (use assms(2) in simp)

lemma tasks_append: "tasks (xs @ ys) = tasks xs @ tasks ys"
  by (simp add: tasks_def)

lemma end_keeps_pushed:
  assumes "estep pushes s s'" "ender s \<noteq> E_off"
  shows "map (tasks \<circ> w_pushed) (pworkers (ep s')) = map (tasks \<circ> w_pushed) (pworkers (ep s))"
proof -
  have upd: "map f (ws[i := w]) = map f ws" if "f w = f (ws ! i)" for f :: "pworker \<Rightarrow> task list" and ws i w
    using that by (cases "i < length ws") (simp_all add: map_update list_update_same_conv list_update_beyond)
  from assms(1) show ?thesis
  proof (cases rule: estep.cases)
    case (e_thread i w)
    then have "w_pushed w = w_pushed (wk s i)"
      by (cases "w_pc (wk s i)") (auto simp: thread_step_def run_front_Some drain_test_Some)
    then show ?thesis using e_thread(1) by (simp add: set_wk_def upd del: map_update)
  next
    case (e_pushes k n w)
    then have "tasks (w_pushed w) = tasks (w_pushed (wk s k))"
      using worker_push_items [OF e_pushes(5)] by (simp add: tasks_append) (simp add: tasks_def)
    then show ?thesis using e_pushes(1) by (simp add: set_wk_def upd del: map_update)
  next
    case (e_joins k n)
    then show ?thesis by (simp add: set_wk_def upd del: map_update)
  qed (use assms(2) in auto)
qed

lemma all_executed:
  assumes "einv m s" "ender s = E_off" "threadNum (ep s) = 0" "i < m"
  shows "\<not> joinable (wk s i) \<and> tasks (w_ran (wk s i)) = tasks (w_pushed (wk s i))"
proof -
  have "eworker_ok (end_flag (ep s)) False (joining s i) (calls s ! i \<noteq> None) (wk s i)"
    using einv_worker [OF assms(1,4)] assms(2,3) by (simp add: active_def)
  then have "\<not> joinable (wk s i)" "w_pushed (wk s i) = w_ran (wk s i) @ tq_items (w_queue (wk s i))"
    "set (tq_items (w_queue (wk s i))) \<subseteq> {Noop}" by (auto simp: eworker_ok_def)
  moreover from this(3) have "tasks (tq_items (w_queue (wk s i))) = []" by (auto simp: tasks_def filter_empty_conv)
  ultimately show ?thesis by (simp add: tasks_append)
qed

text \<open>The contract: as long as \<open>end\<close> has not returned some step is possible, and all lead to its return.\<close>

interpretation ending: terminating_steps "estep (\<lambda>_. None)" "\<lambda>s. einv m s \<and> set (calls s) \<subseteq> {None}" epool_rank
  "\<lambda>s. ender s = E_off" for m
proof unfold_locales
  fix s s' assume "estep (\<lambda>_. None) s s'" "einv m s \<and> set (calls s) \<subseteq> {None}"
  with estep_einv quiet_step show "einv m s' \<and> set (calls s') \<subseteq> {None}" by blast
qed (auto intro: end_goes_on end_rank_decreases)

lemma quiet_reach:
  "(estep (\<lambda>_. None))\<^sup>*\<^sup>* (epool_new m) s \<Longrightarrow> einv m s \<and> set (calls s) \<subseteq> {None}"
  by (erule ending.run_keeps) (use epool_new_einv in \<open>auto simp: epool_new_def\<close>)

subsection \<open>Properties\<close>

text \<open>One worker, which has taken its only task when \<open>end\<close> begins.\<close>

lemma end_demo:
  "\<exists>s. (estep pushes)\<^sup>*\<^sup>* (epool_new 1) s \<and> ender s = E_push 0 1 \<and> calls s = [pushes 10] \<and>
     map w_pushed (pworkers (ep s)) = [[Task 10]]"
proof -
  let ?w = "\<lambda>pc xs ran. \<lparr>w_queue = \<lparr>tq_items = xs, tq_locked = False\<rparr>, w_pc = pc, joinable = True, affinity = -1,
     pinned = None, w_ran = ran, w_pushed = ran @ xs\<rparr>"
  let ?s = "\<lambda>w c n f e. \<lparr>ep = \<lparr>threadNum = n, pworkers = [w], end_flag = f\<rparr>, calls = [c], ender = e\<rparr>"
  have "pool_start [-1] (pool_new 1) = Inr \<lparr>threadNum = 1, pworkers = [?w P_loop [] []], end_flag = False\<rparr>"
    by (simp add: pool_start_def pool_new_def worker_start_def worker_end_def pworker_new_def tsq_new_def)
  then have 1: "estep pushes (epool_new 1) (?s (?w P_loop [] []) None 1 False E_off)"
    using e_client_starts [of "epool_new 1" "[-1]" _ pushes] by (simp add: epool_new_def pool_new_def)
  have "pool_push 10 0 \<lparr>threadNum = 1, pworkers = [?w P_loop [] []], end_flag = False\<rparr> =
      Inr \<lparr>threadNum = 1, pworkers = [?w P_loop [Task 10] []], end_flag = False\<rparr>"
    by (simp add: pool_push_def worker_push_def)
  then have 2: "estep pushes (?s (?w P_loop [] []) None 1 False E_off) (?s (?w P_loop [Task 10] []) None 1 False E_off)"
    using e_client_pushes [of "?s (?w P_loop [] []) None 1 False E_off" 10 0 _ pushes] by simp
  have 3: "estep pushes (?s (?w P_loop [Task 10] []) None 1 False E_off) (?s (?w P_pop [Task 10] []) None 1 False E_off)"
    using e_thread [of 0 "?s (?w P_loop [Task 10] []) None 1 False E_off" "?w P_pop [Task 10] []" pushes]
    by (simp add: thread_step_def set_wk_def starts_call_def)
  have 4: "estep pushes (?s (?w P_pop [Task 10] []) None 1 False E_off) (?s (?w P_loop [] [Task 10]) (pushes 10) 1 False E_off)"
    using e_thread [of 0 "?s (?w P_pop [Task 10] []) None 1 False E_off" "?w P_loop [] [Task 10]" pushes]
    by (simp add: thread_step_def run_front_def set_wk_def starts_call_def)
  have 5: "estep pushes (?s (?w P_loop [] [Task 10]) (pushes 10) 1 False E_off) (?s (?w P_loop [] [Task 10]) (pushes 10) 0 True (E_push 0 1))"
    using e_begins [of "?s (?w P_loop [] [Task 10]) (pushes 10) 1 False E_off" pushes] by simp
  from 1 2 3 4 5 have "(estep pushes)\<^sup>*\<^sup>* (epool_new 1) (?s (?w P_loop [] [Task 10]) (pushes 10) 0 True (E_push 0 1))"
    by (meson rtranclp.rtrancl_into_rtrancl rtranclp.rtrancl_refl)
  then show ?thesis by (intro exI [of _ "?s (?w P_loop [] [Task 10]) (pushes 10) 0 True (E_push 0 1)"]) simp
qed

text \<open>C18. A task that calls \<open>push\<close> deadlocks with \<open>end\<close>: once \<open>end\<close> has begun while a thread is in such
  a call, then whatever steps follow, \<open>end\<close> never returns and the thread never leaves the call.\<close>

theorem pushing_task_blocks_end:
  assumes "(estep pushes)\<^sup>*\<^sup>* (epool_new m) s" "ender s \<noteq> E_off" "i < m" "calls s ! i = Some c"
    and "(estep pushes)\<^sup>*\<^sup>* s s'"
  shows "ender s' \<noteq> E_off \<and> calls s' ! i = Some c \<and> joinable (wk s' i)"
proof -
  have "stuck m i (Some c) s" using pool_threads.reach_inv [OF refl assms(1)] assms(2-4) by (simp add: stuck_def)
  then have "stuck m i (Some c) s'" by (rule stuck_push.run_keeps [OF assms(5)])
  with einv_worker [of m s' i] show ?thesis by (auto simp: stuck_def eworker_ok_def)
qed

theorem pushing_task_blocks_end_witness:
  "\<exists>s. (estep (\<lambda>t. Some (11, 0)))\<^sup>*\<^sup>* (epool_new 1) s \<and>
     (\<exists>P. P = (\<lambda>s'. ender s' \<noteq> E_off \<and> calls s' ! 0 = Some (11, 0)) \<and> {s'. (estep (\<lambda>t. Some (11, 0)))\<^sup>*\<^sup>* s s'} \<subseteq> Collect P)"
proof -
  from end_demo [of "\<lambda>t. Some (11, 0)"] obtain s where s: "(estep (\<lambda>t. Some (11, 0)))\<^sup>*\<^sup>* (epool_new 1) s"
    "ender s = E_push 0 1" "calls s = [Some (11, 0)]" by blast
  with pushing_task_blocks_end [OF s(1), of 0 "(11, 0)"] show ?thesis by (intro exI [of _ s]) auto
qed

text \<open>C17. When no task pushes, \<open>end\<close> returns, however the threads interleave with it: some step is always
  possible, every step decreases a rank, so every run of more steps than the rank comes to the
  return, and when it has returned no thread is left and each worker has executed, in order, every
  task that was ever pushed to it.\<close>

theorem end_returns_when_no_task_pushes:
  assumes "(estep (\<lambda>_. None))\<^sup>*\<^sup>* (epool_new m) s" "ender s \<noteq> E_off"
  shows "(\<exists>s'. estep (\<lambda>_. None) s s') \<and>
    (\<forall>r n. r 0 = s \<and> (\<forall>i < n. estep (\<lambda>_. None) (r i) (r (Suc i))) \<and> epool_rank s < n \<longrightarrow> (\<exists>i \<le> n. ender (r i) = E_off)) \<and>
    (\<forall>s'. estep (\<lambda>_. None) s s' \<longrightarrow> epool_rank s' < epool_rank s \<and>
    map (tasks \<circ> w_pushed) (pworkers (ep s')) = map (tasks \<circ> w_pushed) (pworkers (ep s)) \<and>
    (ender s' = E_off \<longrightarrow> length (pworkers (ep s')) = m \<and>
       (\<forall>i < m. \<not> joinable (wk s' i) \<and> tasks (w_ran (wk s' i)) = tasks (w_pushed (wk s' i)))))"
proof (intro conjI allI impI)
  note q = quiet_reach [OF assms(1)]
  note e = q [THEN conjunct1]
  show "\<exists>s'. estep (\<lambda>_. None) s s'" by (rule ending.not_stuck [OF q assms(2)])
  show "\<exists>i \<le> n. ender (r i) = E_off"
    if "r 0 = s \<and> (\<forall>i < n. estep (\<lambda>_. None) (r i) (r (Suc i))) \<and> epool_rank s < n" for r n
    using that q by (intro ending.run_ends [of m r n]) auto
  fix s' assume step: "estep (\<lambda>_. None) s s'"
  show "epool_rank s' < epool_rank s" by (rule end_rank_decreases [OF step e assms(2)])
  show "map (tasks \<circ> w_pushed) (pworkers (ep s')) = map (tasks \<circ> w_pushed) (pworkers (ep s))"
    by (rule end_keeps_pushed [OF step assms(2)])
  note e' = estep_einv [OF step e]
  show "length (pworkers (ep s')) = m" using e' by (simp add: einv_def)
  assume off: "ender s' = E_off"
  from step have "threadNum (ep s') = 0"
    by (cases rule: estep.cases) (use off assms(2) e in \<open>auto simp: einv_def\<close>)
  with all_executed [OF e' off] show "\<not> joinable (wk s' i)" "tasks (w_ran (wk s' i)) = tasks (w_pushed (wk s' i))" if "i < m" for i
    using that by auto
qed

theorem end_returns_when_no_task_pushes_witness:
  "\<exists>s s'. (estep (\<lambda>_. None))\<^sup>*\<^sup>* (epool_new 1) s \<and> ender s = E_push 0 1 \<and> estep (\<lambda>_. None) s s' \<and> epool_rank s' < epool_rank s \<and>
     map (tasks \<circ> w_pushed) (pworkers (ep s')) = [[Task 10]]"
proof -
  from end_demo [of "\<lambda>_. None"] obtain s where s: "(estep (\<lambda>_. None))\<^sup>*\<^sup>* (epool_new 1) s" "ender s = E_push 0 1"
    "map w_pushed (pworkers (ep s)) = [[Task 10]]" by (elim exE conjE) (rule that)
  have "map (tasks \<circ> w_pushed) (pworkers (ep s)) = map tasks (map w_pushed (pworkers (ep s)))" by simp
  then have t: "map (tasks \<circ> w_pushed) (pworkers (ep s)) = [[Task 10]]" by (simp only: s(3)) (simp add: tasks_def)
  have "ender s \<noteq> E_off" by (simp add: s(2))
  note r = end_returns_when_no_task_pushes [OF s(1) this]
  from r [THEN conjunct1] obtain s' where s': "estep (\<lambda>_. None) s s'" by blast
  from r [THEN conjunct2, THEN conjunct2, rule_format, OF s'] have "epool_rank s' < epool_rank s"
    "map (tasks \<circ> w_pushed) (pworkers (ep s')) = [[Task 10]]" by (simp_all only: t)
  with s(1,2) s' show ?thesis by (intro exI [of _ s] exI [of _ s'] conjI)
qed

end
