(* ===== verification/Tools.thy ===== *)
theory Tools
  imports Peers Worker
begin

section \<open>Test programs, and functions nobody calls\<close>

text \<open>
  The loop bodies of the stand-alone programs (\<^verbatim>\<open>server.c\<close>, \<^verbatim>\<open>fifo.c\<close>, \<^verbatim>\<open>cf.c\<close>), with the result of
  the read as an argument, and the functions of \<^verbatim>\<open>work.c\<close>, \<^verbatim>\<open>task.c\<close> that the library does not call.
\<close>

subsection \<open>\<^verbatim>\<open>server.c\<close>\<close>

definition MAX_BUFF :: nat where "MAX_BUFF = 80"      \<comment> \<open>\<^verbatim>\<open>MAX\<close>\<close>

text \<open>
  Lines 18 to 34. \<open>bs\<close> are the bytes \<open>read\<close> delivered, none if the connection is closed or failed.
  The result is what is written back, and whether the loop is left. \<^verbatim>\<open>%s\<close> reads a C string.
\<close>

definition server_round :: "string \<Rightarrow> (string \<times> bool) res" where
  "server_round bs =
     (let buff = take MAX_BUFF bs @ replicate (MAX_BUFF - length bs) NUL in
      bindE (c_str buff) (\<lambda>_.
        let buff = replicate MAX_BUFF (char_of (of_char (hd buff) + 1 :: nat)) in
        bindE (c_str buff) (\<lambda>_. Inr (buff, strncmp ''exit'' buff 4 = 0))))"

fun server_func :: "string list \<Rightarrow> string list \<Rightarrow> string list res" where
  "server_func [] out = Inl Hang"
| "server_func (bs # rest) out =
     bindE (server_round bs) (\<lambda>(w, leave). if leave then Inr (out @ [w]) else server_func rest (out @ [w]))"

text \<open>\<open>main\<close>, lines 40 to 91, by the results of the system calls; \<open>exit(0)\<close> on every failure.\<close>

definition server_main :: "int \<Rightarrow> int \<Rightarrow> int \<Rightarrow> int \<Rightarrow> string list \<Rightarrow> (string list \<times> int) res" where
  "server_main sockfd bind_rc listen_rc connfd reads =
     (if sockfd = -1 then Inl (Exit 0)
      else if bind_rc \<noteq> 0 then Inl (Exit 0)
      else if listen_rc \<noteq> 0 then Inl (Exit 0)
      else if connfd < 0 then Inl (Exit 0)
      else bindE (server_func reads []) (\<lambda>out. Inr (out, 0)))"

subsection \<open>\<^verbatim>\<open>test.cpp\<close>\<close>

text \<open>
  \<open>ipPort\<close>, lines 24 to 32, with what it prints as its result, and \<open>main\<close>, which splits one fixed
  string. \<open>strtok\<close> keeps its own position, so it does not disturb the \<open>strtok_r\<close> of \<open>main\<close>.
\<close>

definition ipPort :: "string \<Rightarrow> (string \<times> int) res" where
  "ipPort str =
     (case strtok_r str '':'' of
        (None, _) \<Rightarrow> Inl (UB Null_Deref)
      | (Some tok, rest) \<Rightarrow>
          (case strtok_r rest '':'' of
             (None, _) \<Rightarrow> Inl (UB Null_Deref)
           | (Some p, _) \<Rightarrow> Inr (tok, atoi p)))"

function split_loop :: "string option \<Rightarrow> string \<Rightarrow> (string \<times> int) list res" where
  "split_loop None qch = Inr []"
| "split_loop (Some pch) qch =
     bindE (ipPort pch) (\<lambda>r.
     case strtok_r qch '','' of (pch', qch') \<Rightarrow>
       bindE (split_loop pch' qch') (\<lambda>rs. Inr (r # rs)))"
  by pat_completeness auto
termination
  by (relation "measure (\<lambda>(p, q). if p = None then 0 else Suc (length q))")
    (auto split: prod.split dest!: strtok_r_shorter)

definition test_main :: "(string \<times> int) list res" where
  "test_main =
     (case strtok_r ''GW=127.0.0.1:7878,127.0.0.1:7676'' ''='' of (_, qch) \<Rightarrow>
      case strtok_r qch ''=,'' of (pch, qch) \<Rightarrow> split_loop pch qch)"

subsection \<open>\<^verbatim>\<open>fifo.c\<close>: the loop of \<open>main\<close>\<close>

text \<open>Lines 19 to 33. \<open>None\<close> is a \<open>read\<close> that fails: it returns -1.\<close>

definition fifo_round :: "string option \<Rightarrow> (string \<times> bool) res" where
  "fifo_round rd = (case rd of
       None \<Rightarrow> Inl (UB Buffer_Overflow)
     | Some bs \<Rightarrow> if length bs < 80 then Inr (cut_nul bs, cut_nul bs = ''end'')
         else Inl (UB Buffer_Overflow))"

subsection \<open>\<^verbatim>\<open>cf.c\<close>: the loop of \<open>main\<close>\<close>

text \<open>
  Lines 19 to 35. \<open>readbuf\<close> as a C string; \<open>fgets\<close> delivers a line with its newline, or at the end of
  the input leaves \<open>readbuf\<close> as it was. The result is the new \<open>readbuf\<close>, which is also what is
  written, and whether the loop is left.
\<close>

definition cf_round :: "string option \<Rightarrow> string \<Rightarrow> (string \<times> bool) res" where
  "cf_round line readbuf =
     (let readbuf = (case line of None \<Rightarrow> readbuf | Some l \<Rightarrow> cut_nul l) in
      if readbuf = [] then Inl (UB Buffer_Overflow)
      else let readbuf = butlast readbuf in Inr (readbuf, readbuf = ''end''))"

fun cf_loop :: "nat \<Rightarrow> string \<Rightarrow> string list \<Rightarrow> string list res" where
  "cf_loop 0 readbuf out = Inl Hang"
| "cf_loop (Suc n) readbuf out =
     bindE (cf_round None readbuf) (\<lambda>(r, leave). if leave then Inr (out @ [r]) else cf_loop n r (out @ [r]))"

subsection \<open>Functions that are not called\<close>

text \<open>\<open>build_fd_sets\<close>, \<^verbatim>\<open>work.c\<close> lines 413 to 426: a descriptor set has room for 1024 descriptors.\<close>

definition FD_SET :: "int \<Rightarrow> int set \<Rightarrow> int set res" where
  "FD_SET n s = (if 0 \<le> n \<and> n < 1024 then Inr (insert n s) else Inl (UB Buffer_Overflow))"

definition build_fd_sets :: "int \<Rightarrow> (int \<times> int set \<times> int set \<times> int set) res" where
  "build_fd_sets n =
     bindE (FD_SET n {}) (\<lambda>read_fds.
     bindE (FD_SET n {}) (\<lambda>write_fds.
     bindE (FD_SET n {}) (\<lambda>except_fds. Inr (0, read_fds, write_fds, except_fds))))"

text \<open>
  \<open>generic_receive_from_fd\<close>, lines 428 to 446. \<open>rd\<close> is what \<open>read\<close> stored, with its result; the
  second component of the result is the caller's \<open>*ret\<close>, which \<open>ret = &rc\<close> cuts off.
\<close>

definition generic_receive_from_fd :: "int \<times> string \<Rightarrow> int \<Rightarrow> int \<times> int" where
  "generic_receive_from_fd rd ret =
     (let pbuf = take 8 (snd rd) in
      if fst rd = 0 then (0, ret) else (atol (cut_nul pbuf), ret))"

text \<open>\<open>setnonblock\<close>, \<^verbatim>\<open>task.c\<close> lines 11 to 19 (and \<^verbatim>\<open>withlibev/src/module.c\<close> lines 7 to 15).\<close>

definition setnonblock :: "int \<Rightarrow> int \<Rightarrow> int" where
  "setnonblock getfl setfl = (if getfl < 0 then getfl else if setfl < 0 then -1 else 0)"

text \<open>\<open>sighandler\<close>, \<^verbatim>\<open>work.c\<close> lines 542 to 545, and the loop body of \<open>monitor_thread\<close>, lines 27 to 33.\<close>

definition sighandler :: "int \<Rightarrow> 'a res" where
  "sighandler signal = Inl (Exit 1)"

definition monitor_round :: "(nat \<Rightarrow> int \<times> int) \<Rightarrow> (nat \<Rightarrow> dial) \<Rightarrow> glob \<Rightarrow> glob res" where
  "monitor_round sockopt ds g = bindE (monitor_sock_conn (cfg g) sockopt ds (conns g)) (\<lambda>cl. Inr (g\<lparr>conns := cl\<rparr>))"

subsection \<open>Properties\<close>

lemma c_str_replicate: "0 < n \<Longrightarrow> c_str (replicate n c) = (if c = NUL then Inr [] else Inl (UB Invalid_Access))"
  by (cases n) (auto simp: c_str_def)

lemma server_round_cases:
  "server_round bs = Inl (UB Invalid_Access) \<or> server_round bs = Inr (replicate 80 NUL, False)"
proof -
  have "strncmp ''exit'' (replicate 80 NUL) 4 \<noteq> 0" by code_simp
  then show ?thesis
    by (auto simp: server_round_def Let_def MAX_BUFF_def c_str_replicate c_str_def [of "_ @ _"])
qed

text \<open>The test server never leaves its loop, and so never returns: it fills the whole buffer with one byte before it
  compares it with \<^verbatim>\<open>exit\<close>. Unless that byte is NUL it has by then read past the end of the
  buffer, for the same reason.\<close>

theorem server_never_exits:
  "server_func reads out \<in> {Inl Hang, Inl (UB Invalid_Access)} \<and>
   server_main sockfd bind_rc listen_rc connfd reads \<in> {Inl Hang, Inl (UB Invalid_Access), Inl (Exit 0)} \<and>
   (\<forall>bs. server_round bs \<in> {Inl (UB Invalid_Access), Inr (replicate 80 NUL, False)})"
proof -
  have "server_func reads out = Inl Hang \<or> server_func reads out = Inl (UB Invalid_Access)" for out
  proof (induction reads arbitrary: out)
    case (Cons bs reads)
    from server_round_cases [of bs] Cons.IH [of "out @ [replicate 80 NUL]"] show ?case by auto
  qed simp
  moreover from this [of "[]"] have
    "server_main sockfd bind_rc listen_rc connfd reads \<in> {Inl Hang, Inl (UB Invalid_Access), Inl (Exit 0)}"
    by (auto simp: server_main_def)
  ultimately show ?thesis using server_round_cases by blast
qed

text \<open>At the end of its input the FIFO client, which does not look at the result of \<open>fgets\<close>, takes
  one byte after the other off its last line: it ends only if that passes through \<^verbatim>\<open>end\<close>, and
  else writes in front of its buffer.\<close>

lemma strict_prefix_butlast:
  "s \<noteq> [] \<Longrightarrow> strict_prefix t s \<longleftrightarrow> t = butlast s \<or> strict_prefix t (butlast s)"
  by (cases s rule: rev_cases) (auto simp: strict_prefix_def)

theorem cf_chops_its_last_line:
  assumes "length s < n"
  shows "if strict_prefix ''end'' s then \<exists>ws. cf_loop n s out = Inr (out @ ws @ [''end''])
    else cf_loop n s out = Inl (UB Buffer_Overflow)"
  using assms
proof (induction n arbitrary: s out)
  case (Suc n)
  show ?case
  proof (cases "s = []")
    case False
    have IH: "if strict_prefix ''end'' (butlast s) then \<exists>ws. cf_loop n (butlast s) (out @ [butlast s]) = Inr ((out @ [butlast s]) @ ws @ [''end''])
      else cf_loop n (butlast s) (out @ [butlast s]) = Inl (UB Buffer_Overflow)"
      by (rule Suc.IH) (use Suc.prems False in \<open>cases s; simp\<close>)
    show ?thesis
    proof (cases "butlast s = ''end''")
      case True
      with False show ?thesis by (auto simp: cf_round_def strict_prefix_butlast intro!: exI [of _ "[]"])
    next
      case ne: False
      then have "cf_loop (Suc n) s out = cf_loop n (butlast s) (out @ [butlast s])"
        using False by (simp add: cf_round_def)
      with IH strict_prefix_butlast [OF False, of "''end''"] ne show ?thesis by auto
    qed
  qed (simp add: cf_round_def)
qed simp

theorem cf_chops_its_last_line_witness:
  "(\<exists>ws. cf_loop 9 ''endings'' [] = Inr ([] @ ws @ [''end''])) \<and> cf_loop 9 ''hello'' [] = Inl (UB Buffer_Overflow)"
  using cf_chops_its_last_line [of "''endings''" 9 "[]"] cf_chops_its_last_line [of "''hello''" 9 "[]"]
  by (simp add: strict_prefix_def)

text \<open>The program of \<^verbatim>\<open>test.cpp\<close> splits its string into the two peers.\<close>

theorem test_main_splits: "test_main = Inr [(''127.0.0.1'', 7878), (''127.0.0.1'', 7676)]"
  by code_simp

end
