(* ===== verification/Spec2Isabelle.thy ===== *)
theory Spec2Isabelle
  imports Progress Transaction Stub WorkLoop WorkStop EvModule PoolEnd Tools
begin

text \<open>
  \<^bold>\<open>A TCP client library that spreads transactions over peers\<close>

  The repository holds a shared library (\<^verbatim>\<open>mod_tcpclient\<close>) that keeps one TCP connection to
  each configured peer, queues the requests of a client, sends them round robin, and hands what
  the peers send back to callbacks of the client; and a stub program (\<^verbatim>\<open>stub\<close>) that reads a
  configuration file and starts the library. Beside them lie two C++ templates for a thread pool,
  an unfinished variant of the library on libevent (\<^verbatim>\<open>withlibev\<close>) with a work queue of its own, and
  test programs. This development models the code of all of them and proves what it does.

  \<^bold>\<open>The parts of the program and how they interact\<close>

  \<^item> \<^verbatim>\<open>stub/src/stub.c\<close>, \<^verbatim>\<open>utils.c\<close>: parse the file into a \<^verbatim>\<open>configurator\<close>, call \<open>mod_init\<close>.
  \<^item> \<^verbatim>\<open>module.c\<close>: the interface of the library; \<open>mod_init\<close> copies the configuration and calls
    \<open>manage\<close> (\<^verbatim>\<open>work.c\<close>), which connects the peers and starts a queue manager and, for each
    peer, a receiver and a sender.
  \<^item> \<^verbatim>\<open>task.c\<close>: the connections (\<open>gconn_list\<close>), the session queue \<open>gtsidq\<close> (transaction id to
    connection and callback), the message queue \<open>gmsgq\<close> (one list for all peers), and the
    extraction of an XML element.
  \<^item> \<^verbatim>\<open>work.c\<close>: the threads. A client calls \<open>ready_to_send\<close>, which opens or refreshes a session
    and queues the message; the sender of the session's peer takes it out and writes a frame;
    the receiver reads frames, decides by their elements whether they are requests or responses,
    looks the transaction id up and calls the callback; the queue manager marks sessions that
    are older than 30 seconds.
  \<^item> \<^verbatim>\<open>withlibev/src/workev.c\<close>: a work queue; worker threads take jobs from a list, under a mutex and
    a condition variable, until \<open>workqueue_shutdown\<close>. \<^verbatim>\<open>withlibev/src/module.c\<close>: a job runs the
    libevent loop of one client and releases the client.
  \<^item> \<^verbatim>\<open>include/safeqtempl.h\<close>: a blocking queue; \<^verbatim>\<open>include/tpool.h\<close>: a pool whose workers each take
    tasks from a queue of their own, spread by a hash.

  \<^bold>\<open>The theories\<close>

  \<^item> \<open>Prelude\<close>: the outcome of C code (\<^verbatim>\<open>res\<close>: a value, or undefined behaviour with its kind, a
    loop or call that never ends, an exit, or a C++ exception), the memory of list nodes with NULL and freed nodes
    as faults, chains, and the walks over a list that \<^verbatim>\<open>task.c\<close> repeats.
  \<^item> \<open>Runs\<close>: runs of a step relation, as contracts: \<open>safe_steps\<close> (an invariant that steps keep),
    \<open>started_steps\<close> (one that also holds at the start), \<open>ending_steps\<close> (an end can be reached) and
    \<open>terminating_steps\<close> (every run reaches it). The invariants of all the step relations below are
    interpretations of these.
  \<^item> \<open>CString\<close>: the functions of the C library on strings and numbers that the sources call.
  \<^item> \<open>Types\<close>: the structs of \<^verbatim>\<open>module.h\<close> and \<^verbatim>\<open>task.h\<close>.
  \<^item> \<open>Peers\<close> (\<^verbatim>\<open>task.c\<close> 22--135): \<open>create_peers\<close>, \<open>recreate_conn\<close>, \<open>monitor_sock_conn\<close>.
  \<^item> \<open>IdQueue\<close> (\<^verbatim>\<open>task.c\<close> 138--328): every operation of the session queue, the round robin,
    and the contract \<open>session_table\<close>, interpreted on these operations.
  \<^item> \<open>MsgQueue\<close> (\<^verbatim>\<open>task.c\<close> 330--409): \<open>push_to_msgq\<close>, \<open>pop_from_msgq\<close>, and the contract
    \<open>message_queue\<close>, interpreted on them.
  \<^item> \<open>Xml\<close> (\<^verbatim>\<open>task.c\<close> 413--438): \<open>parse_xml_attribute\<close>.
  \<^item> \<open>Wire\<close> (\<^verbatim>\<open>work.c\<close> 448--524): \<open>send_to_fd\<close>, \<open>receive_from_fd\<close>.
  \<^item> \<open>Frames\<close>: many frames in a row on one socket, and headers that are no length.
  \<^item> \<open>Worker\<close> (\<^verbatim>\<open>work.c\<close> 38--296, 367--411, 526--558): the global state (\<^verbatim>\<open>glob\<close>), one round of
    every thread, and the functions the client calls.
  \<^item> \<open>Broker\<close>: the abstract view, a table of sessions and a list of messages, its operations and
    invariant, and the proof that the pointer code refines it.
  \<^item> \<open>Rounds\<close>: what one round of a sender, a receiver or a client does.
  \<^item> \<open>Reach\<close>: the state machine of these rounds, its invariant, and its reachable failure.
  \<^item> \<open>Config\<close> (\<^verbatim>\<open>stub.c\<close>, \<^verbatim>\<open>utils.c\<close>): reading the configuration file.
  \<^item> \<open>Module\<close> (\<^verbatim>\<open>module.c\<close>, \<open>manage\<close>): starting the library.
  \<^item> \<open>Threads\<close>: the steps of clients and senders between two locks, their interleavings, and the
    two failures of the wake-up test.
  \<^item> \<open>Session\<close>: the response of a peer, and what a receiver does with it.
  \<^item> \<open>Delivery\<close>: the look-up and the removal around a callback as two steps.
  \<^item> \<open>Interleave\<close>: all threads lock by lock; a round of a receiver as a sequence of steps, and the
    invariant of the queues under every interleaving, with one peer.
  \<^item> \<open>Wakeup\<close>: with one client and one peer no wake-up is lost.
  \<^item> \<open>Loops\<close> (\<^verbatim>\<open>work.c\<close> 25--35, 38--296, 367--397, 526--540): the thread functions as loops over their
    turns, each shown to be steps of \<open>Reach\<close>; \<open>Link\<close>: a sender and the receiver at the other end of its
    connection over many turns, and the queue manager over many passes. \<open>Progress\<close>: these turns are
    runs of the interleaved threads, so with one client and one peer every message can go out.
  \<^item> \<open>Transaction\<close>: from the client's request through all threads to its callback. This theory has
    the properties that span the whole.
  \<^item> \<open>Stub\<close> (\<^verbatim>\<open>stub.c\<close> \<open>main\<close>): from the configuration file to the running module.
  \<^item> \<open>Workqueue\<close> (\<^verbatim>\<open>workev.c\<close>): the list macros on a heap of nodes, every function, and the contract
    \<open>node_stack\<close>, interpreted on the job list.
  \<^item> \<open>WorkSteps\<close>, \<open>WorkStop\<close>: workers, clients and the shutdown, interleaved; their invariants, the
    race of the shutdown, and the end of the workers. \<open>WorkLoop\<close>: \<open>worker_function\<close> as a whole.
  \<^item> \<open>EvClient\<close>, \<open>EvModule\<close> (\<^verbatim>\<open>withlibev/src/module.c\<close>): the callbacks and the job of a client,
    \<open>mod_init\<close> and \<open>onConect\<close>. The functions of libevent are parameters.
  \<^item> \<open>SafeQueue\<close> (\<^verbatim>\<open>safeqtempl.h\<close>): every member function, the contract \<open>fifo\<close>, interpreted on them,
    and the steps of producers and consumers and of two assignments.
  \<^item> \<open>ThreadPool\<close> (\<^verbatim>\<open>tpool.h\<close>): every operation as one step, on a pool whose threads step;
    \<open>PoolEnd\<close>: \<open>end\<close> step by step, and tasks that call \<open>push\<close>.
  \<^item> \<open>Tools\<close>: the test programs \<^verbatim>\<open>server.c\<close>, \<^verbatim>\<open>fifo.c\<close>, \<^verbatim>\<open>cf.c\<close> and \<^verbatim>\<open>test.cpp\<close>, and the functions of
    the library that nothing calls.

  \<^bold>\<open>How the state corresponds to the code\<close>

  A list node is a cell of \<^typ>\<open>'a mem\<close>: its payload record (\<^verbatim>\<open>tsidque_t\<close>, \<^verbatim>\<open>msgque_t\<close>) and its
  links; \<^verbatim>\<open>calloc\<close> hands out addresses that were never used, so a use after free is always seen.
  A queue is its head pointer and its memory. \<open>queue_rep d q vs\<close> says that the list from the head
  holds the payloads \<open>vs\<close>, with correct \<^verbatim>\<open>prev\<close> links if \<open>d\<close>. Function pointers and the opaque
  callback parameter are addresses; a callback that is called is an event in the result. What
  the operating system does (the outcomes of \<open>socket\<close>, \<open>connect\<close>, \<open>recv\<close>, \<open>send\<close>,
  \<open>gettimeofday\<close>, \<open>pthread_create\<close>) is an argument. Logging has no effect, except that a
  string it reads must be one; for the callback parameters, which the queue manager prints, the field
  \<open>c_strs\<close> of the state says at which addresses of the client's memory a string starts. The configuration file
  is its bytes, which \<open>fgets_lines\<close> cuts as the \<open>fgets\<close> calls with their buffer of 1024 bytes do.

  \<^bold>\<open>Fuel\<close>

  The walks over a list take as fuel the number of blocks handed out so far, which is more than
  any chain has nodes (\<open>chain_fuel\<close>): the lemmas \<open>*_rep\<close> show that every walk over a represented
  queue ends with a value, so running out means a cycle and is \<open>Hang\<close>. The loop that looks for a
  connection that is up takes \<open>num_peers\<close> rounds, after which its state repeats
  (\<open>assign_conn_total\<close>). The loops over a socket consume one planned answer per call; when the
  plan ends the call blocks; \<open>send_to_fd_total\<close> says how long a plan for sending is long enough, and
  \<open>header_rest\<close> and \<open>body_rest\<close> compute what a plan for receiving has left. The loop over the workers in \<open>workqueue_shutdown\<close> is a walk over a list again. The loop
  of \<open>buffered_on_read\<close> depends on libevent and is a partial function; \<open>read_loop_moves_all\<close> shows
  that it ends. A thread of the pool runs until it waits or ends, with \<open>thread_rank\<close> as measure.
  The thread functions of \<open>Loops\<close> and \<open>WorkLoop\<close> never return; they take one element of a list per
  turn, and the properties say what holds after any number of turns. Everything else is structural or
  has a measure.

  \<^bold>\<open>What is proved\<close>

  The queues implement the abstract broker (push, pop, close, expire, deliver), ids stay distinct
  and connections valid; what a sender thread writes in any number of turns is what the receiver
  thread at the other end handles, message by message, in the order they were queued;
  framing and the configuration file round trip; round robin is fair; the queue manager only marks;
  a transaction completes, from the client's call through all threads to its callback; with one
  client and one peer no wake-up is lost, and every queued message can be written out.
  The code also has behaviours its authors will not have meant, and these are theorems too: the
  last message of a queue is not unlinked when it is popped (with two peers this is reached in
  three rounds and leads to a use after free; with one peer it cannot happen and the invariant
  holds for ever), a closed connection is noticed only by accident, a peer other than the first that is down at start
  never comes back, the header of a message that a \<open>recv\<close> cuts short may be misread, a \<open>GW\<close> line longer than the buffer loses peers,
  the log line of the queue manager reads a callback parameter that need not be a string, a header whose write fails is still followed by its message, which makes the peer
  drop the connection, ids, ports, lengths and addresses that are too long overflow their arrays,
  an empty id on an empty queue reads through NULL, two clients that push together leave every
  sender asleep, the wake-up test, made under another mutex than the push, can find the queue
  empty and read through NULL, and a request that reuses an id while its response is delivered
  loses its session.

  Each job of the work queue is executed at most once, none is left to sleeping workers before a
  shutdown, and the workers end after it; but the shutdown reads workers that have freed
  themselves, and drops the jobs that wait. The blocking queue loses no wake-up; its copy
  assignment blocks, and crossed moves deadlock. The pool executes every task before \<open>end\<close> returns,
  if no task itself pushes; one that does deadlocks with \<open>end\<close>, and \<open>start\<close> on a running pool never
  returns.

  \<^bold>\<open>What is not modelled, and why\<close>

  In \<open>Reach\<close> a round is atomic; \<open>Threads\<close> splits the rounds of clients and senders where they
  release a lock, and \<open>Interleave\<close> those of receivers too. Between two locks a step reads and writes
  \<open>gconn_list\<close>, which the code does without a lock, as one access. In \<open>tstep\<close> a wait of a sender ends only by a signal,
  so that it can be said what signals achieve; \<open>spurious\<close> is the wake-up without one, and \<open>fstep\<close>, the step
  relation of \<open>Interleave\<close>, has both, as have those of the workers and of the consumers of the blocking queue. In \<open>Loops\<close> each thread runs alone; what the
  others do between its turns is the subject of \<open>Interleave\<close>. A \<open>getaddrinfo\<close> that fails is a fault,
  because POSIX leaves its result pointer unspecified and the code reads through it. The
  \<^verbatim>\<open>refque\<close> declarations have no definition in the repository, and neither has the \<open>manage\<close> of the
  libevent variant, which is a parameter. The values that the tasks of the pool put into their
  futures are left out: a task is a name. Memory that the code leaks stays allocated in the model
  where it holds a node and is otherwise not represented.
\<close>

section \<open>Properties of the whole\<close>

text \<open>C30. Four arrays of the code are filled with text whose length nothing bounds: a configured port of
  five digits, which the check of the configuration allows, overflows in \<open>create_peers\<close> (at the first such peer,
  when the peers before it have a name that resolves and get a socket); an
  address of 16 bytes overflows before it is checked; a message of ten thousand bytes overflows the
  header of the sender that takes it; and the transaction id of a response, one of 256 bytes,
  overflows before it is looked at.\<close>

theorem unchecked_lengths_overflow:
  "(\<forall>cfg ds k. int k < num_peers cfg \<and> k < length (peers cfg) \<and> 10000 \<le> port (peers cfg ! k) \<and>
      (\<forall>j < k. port (peers cfg ! j) \<in> {0..9999} \<and> gai_ok (ds j) \<and> 0 \<le> socket_fd (ds j)) \<longrightarrow>
        create_peers cfg ds = Inl (UB Buffer_Overflow)) \<and>
   (\<forall>a r p. 16 \<le> length a \<and> CHR '':'' \<notin> set a \<longrightarrow> validateIpPort (a @ CHR '':'' # r) p = Inl (UB Buffer_Overflow)) \<and>
   (\<forall>g b i d ws v. broker_rep g b \<and> i < length (conns g) \<and> state (conns g ! i) = 1 \<and>
      find (for_conn (peer_id (conns g ! i))) (b_queue b) = Some v \<and> 10000 \<le> mq_len v \<longrightarrow>
        send_round i d ws g = Inl (UB Buffer_Overflow)) \<and>
   (\<forall>g b s now message retc. broker_rep g b \<and> KEY_SIZE \<le> length s \<longrightarrow>
        deliver_response now message s retc g = Inl (UB Buffer_Overflow))"
proof (intro conjI allI impI; elim conjE)
  fix cfg :: configurator and ds :: "nat \<Rightarrow> dial" and k
  assume "int k < num_peers cfg" "k < length (peers cfg)" "10000 \<le> port (peers cfg ! k)"
    "\<forall>j < k. port (peers cfg ! j) \<in> {0..9999} \<and> gai_ok (ds j) \<and> 0 \<le> socket_fd (ds j)"
  then show "create_peers cfg ds = Inl (UB Buffer_Overflow)" by (rule five_digit_port_overflows)
qed (use long_address_overflows long_message_overflows long_tid_overflows in blast)+

theorem unchecked_lengths_overflow_witness:
  "create_peers \<lparr>num_worker_threads = 4, num_peers = 2, peers = [\<lparr>port = 80, ip = ''10.0.0.1''\<rparr>, \<lparr>port = 40713, ip = ''10.0.0.1''\<rparr>]\<rparr>
     (\<lambda>_. dial_ok 3) = Inl (UB Buffer_Overflow) \<and>
   validateIpPort (''255.255.255.2550'' @ CHR '':'' # ''80'') peer_demo = Inl (UB Buffer_Overflow) \<and>
   send_round 0 (dial_ok 9) \<lparr>outq = [], wplan = [Accept 9]\<rparr>
     (glob_with [(msg_demo 0 ''a'')\<lparr>mq_len := 10000\<rparr>] []) = Inl (UB Buffer_Overflow) \<and>
   deliver_response (Timeval 1 0) None (replicate 256 (CHR ''x'')) 0 glob_demo = Inl (UB Buffer_Overflow)"
proof (intro conjI)
  note u = unchecked_lengths_overflow
  show "create_peers \<lparr>num_worker_threads = 4, num_peers = 2, peers = [\<lparr>port = 80, ip = ''10.0.0.1''\<rparr>, \<lparr>port = 40713, ip = ''10.0.0.1''\<rparr>]\<rparr>
      (\<lambda>_. dial_ok 3) = Inl (UB Buffer_Overflow)"
    by (rule u [THEN conjunct1, rule_format, of 1]) (simp add: dial_ok_def)
  show "validateIpPort (''255.255.255.2550'' @ CHR '':'' # ''80'') peer_demo = Inl (UB Buffer_Overflow)"
    by (rule u [THEN conjunct2, THEN conjunct1, rule_format]) simp
  show "send_round 0 (dial_ok 9) \<lparr>outq = [], wplan = [Accept 9]\<rparr>
     (glob_with [(msg_demo 0 ''a'')\<lparr>mq_len := 10000\<rparr>] []) = Inl (UB Buffer_Overflow)"
    by (rule u [THEN conjunct2, THEN conjunct2, THEN conjunct1, rule_format,
        of _ "broker_with [(msg_demo 0 ''a'')\<lparr>mq_len := 10000\<rparr>] []" _ "(msg_demo 0 ''a'')\<lparr>mq_len := 10000\<rparr>"])
      (use glob_with_rep [of "[(msg_demo 0 ''a'')\<lparr>mq_len := 10000\<rparr>]" "[]"] in
        \<open>simp add: glob_with_facts broker_with_def for_conn_def msg_demo_def\<close>)
  show "deliver_response (Timeval 1 0) None (replicate 256 (CHR ''x'')) 0 glob_demo = Inl (UB Buffer_Overflow)"
    by (rule u [THEN conjunct2, THEN conjunct2, THEN conjunct2, rule_format, of _ broker_empty])
      (simp add: glob_demo_rep KEY_SIZE_def)
qed

end
